(* ===== verification/WS_Prelude.thy ===== *)
theory WS_Prelude
  imports Main "HOL-Library.Word"
begin

text \<open>
  Shared vocabulary of the development: the machine types of the Rust sources, the
  outcome of a fallible Rust call, big-endian and native-endian byte conversions
  (\<^verbatim>\<open>from_be_bytes\<close>, \<^verbatim>\<open>to_be_bytes\<close>, \<^verbatim>\<open>from_ne_bytes\<close>, \<^verbatim>\<open>to_ne_bytes\<close>), slices cut
  into fixed chunks (\<^verbatim>\<open>as_chunks\<close>), and the lemmas on lists, naturals and words that the
  component theories share.

  A \<^verbatim>\<open>Bytes\<close>, \<^verbatim>\<open>BytesMut\<close>, \<^verbatim>\<open>Vec<u8>\<close> or \<^verbatim>\<open>&[u8]\<close> value is the list of its bytes; its
  capacity and the sharing of its allocation are not modelled. A \<^verbatim>\<open>usize\<close> that only
  counts bytes of such a value is a natural number; the counters that wrap around keep
  their width.
\<close>

unbundle bit_operations_syntax

type_synonym byte = "8 word"
type_synonym u16 = "16 word"
type_synonym u32 = "32 word"
type_synonym u64 = "64 word"
type_synonym bytes = "byte list"

named_theorems ws_defs \<open>definitions that component proofs unfold\<close>
named_theorems ws_inv \<open>preservation lemmas of component invariants\<close>

section \<open>Outcomes\<close>

text \<open>
  A Rust call that returns \<^verbatim>\<open>Result\<close> gives \<open>Ok\<close> or \<open>Err\<close>; \<open>Panic\<close> stands for an
  \<^verbatim>\<open>unwrap\<close> or \<^verbatim>\<open>expect\<close> of an absent value, an index out of range or an arithmetic
  underflow that the checked build traps.
\<close>

datatype ('a, 'e) result = Ok 'a | Err 'e | Panic

fun is_Ok :: "('a, 'e) result \<Rightarrow> bool" where
  "is_Ok (Ok _) = True"
| "is_Ok _ = False"

fun map_result :: "('a \<Rightarrow> 'b) \<Rightarrow> ('a, 'e) result \<Rightarrow> ('b, 'e) result" where
  "map_result f (Ok x) = Ok (f x)"
| "map_result f (Err e) = Err e"
| "map_result f Panic = Panic"

lemma map_result_Ok_iff [simp]: "map_result f r = Ok y \<longleftrightarrow> (\<exists>x. r = Ok x \<and> y = f x)"
  by (cases r) auto

lemma map_result_Panic_iff [simp]: "map_result f r = Panic \<longleftrightarrow> r = Panic"
  by (cases r) auto

lemma map_result_Err_iff [simp]: "map_result f r = Err e \<longleftrightarrow> r = Err e"
  by (cases r) auto

section \<open>Naturals and words\<close>

lemma and_3_mod [simp]: "(n::nat) AND 3 = n mod 4"
proof -
  have "n AND mask 2 = take_bit 2 n" by (rule take_bit_eq_mask [symmetric])
  then show ?thesis by (simp add: mask_eq_exp_minus_1 take_bit_eq_mod)
qed

lemma and_7_mod: "(n::nat) AND 7 = n mod 8"
proof -
  have "n AND mask 3 = take_bit 3 n" by (rule take_bit_eq_mask [symmetric])
  then show ?thesis by (simp add: mask_eq_exp_minus_1 take_bit_eq_mod)
qed

lemma unat_byte_less [simp]: "unat (b::byte) < 256"
  using unsigned_less [of b, where ?'a = nat] by simp

lemma of_nat_byte_mod [simp]: "(of_nat (n mod 256) :: byte) = of_nat n"
  by (rule unsigned_word_eqI [where ?'a = nat]) (simp add: unat_of_nat)

section \<open>Big-endian byte strings\<close>

text \<open>The number that a big-endian byte string denotes, and its inverse at a width.\<close>

fun be_nat :: "bytes \<Rightarrow> nat" where
  "be_nat [] = 0"
| "be_nat (b # bs) = unat b * 256 ^ length bs + be_nat bs"

fun be_bytes :: "nat \<Rightarrow> nat \<Rightarrow> bytes" where
  "be_bytes 0 n = []"
| "be_bytes (Suc k) n = be_bytes k (n div 256) @ [of_nat n]"

lemma length_be_bytes [simp]: "length (be_bytes k n) = k"
  by (induction k arbitrary: n) auto

lemma be_nat_append: "be_nat (xs @ ys) = be_nat xs * 256 ^ length ys + be_nat ys"
  by (induction xs) (auto simp: algebra_simps power_add)

lemma be_nat_bound: "be_nat bs < 256 ^ length bs"
proof (induction bs)
  case (Cons b bs)
  have "unat b * 256 ^ length bs \<le> 255 * 256 ^ length bs"
    using unat_byte_less [of b] by (intro mult_le_mono1) arith
  with Cons have "unat b * 256 ^ length bs + be_nat bs < 256 * 256 ^ length bs"
    by linarith
  then show ?case by simp
qed simp

lemma be_nat_be_bytes: "be_nat (be_bytes k n) = n mod 256 ^ k"
proof (induction k arbitrary: n)
  case (Suc k)
  have "be_nat (be_bytes (Suc k) n) = (n div 256) mod 256 ^ k * 256 + n mod 256"
    using Suc by (simp add: be_nat_append unat_of_nat)
  also have "\<dots> = n mod (256 * 256 ^ k)"
    by (simp add: mod_mult2_eq)
  finally show ?case by simp
qed simp

lemma be_bytes_be_nat: "be_bytes (length bs) (be_nat bs) = bs"
proof (induction bs rule: rev_induct)
  case (snoc b bs)
  have "be_nat (bs @ [b]) div 256 = be_nat bs"
    using unat_byte_less [of b] by (simp add: be_nat_append)
  moreover have "(of_nat (be_nat (bs @ [b])) :: byte) = b"
  proof -
    have "be_nat (bs @ [b]) mod 256 = unat b"
      using unat_byte_less [of b] by (simp add: be_nat_append)
    then have "(of_nat (be_nat (bs @ [b]) mod 256) :: byte) = b"
      by simp
    then show ?thesis by simp
  qed
  ultimately show ?case using snoc by simp
qed simp

lemma be_nat_inj: "be_nat xs = be_nat ys \<Longrightarrow> length xs = length ys \<Longrightarrow> xs = ys"
  by (metis be_bytes_be_nat)

lemma be_nat_upd_mod: "be_bytes k (n mod 256 ^ k) = be_bytes k n"
  by (metis be_bytes_be_nat be_nat_be_bytes length_be_bytes)

text \<open>\<^verbatim>\<open>u16::from_be_bytes\<close> and \<^verbatim>\<open>u64::from_be_bytes\<close> with their inverses.\<close>

definition u16_from_be_bytes :: "bytes \<Rightarrow> u16" where
  "u16_from_be_bytes bs = of_nat (be_nat bs)"

definition u16_to_be_bytes :: "u16 \<Rightarrow> bytes" where
  "u16_to_be_bytes w = be_bytes 2 (unat w)"

definition u64_from_be_bytes :: "bytes \<Rightarrow> u64" where
  "u64_from_be_bytes bs = of_nat (be_nat bs)"

definition u64_to_be_bytes :: "u64 \<Rightarrow> bytes" where
  "u64_to_be_bytes w = be_bytes 8 (unat w)"

lemma length_to_be_bytes [simp]:
  "length (u16_to_be_bytes w) = 2" "length (u64_to_be_bytes v) = 8"
  by (simp_all add: u16_to_be_bytes_def u64_to_be_bytes_def)

lemma u16_be_roundtrip [simp]: "u16_from_be_bytes (u16_to_be_bytes w) = w"
  using unsigned_less [of w, where ?'a = nat]
  by (simp add: u16_from_be_bytes_def u16_to_be_bytes_def be_nat_be_bytes)

lemma u64_be_roundtrip [simp]: "u64_from_be_bytes (u64_to_be_bytes w) = w"
  using unsigned_less [of w, where ?'a = nat]
  by (simp add: u64_from_be_bytes_def u64_to_be_bytes_def be_nat_be_bytes)

lemma unat_u16_from_be_bytes: "length bs = 2 \<Longrightarrow> unat (u16_from_be_bytes bs) = be_nat bs"
  using be_nat_bound [of bs] by (simp add: u16_from_be_bytes_def unat_of_nat)

lemma unat_u64_from_be_bytes: "length bs = 8 \<Longrightarrow> unat (u64_from_be_bytes bs) = be_nat bs"
  using be_nat_bound [of bs] by (simp add: u64_from_be_bytes_def unat_of_nat)

lemma u16_to_from_be_bytes: "length bs = 2 \<Longrightarrow> u16_to_be_bytes (u16_from_be_bytes bs) = bs"
  by (metis be_bytes_be_nat u16_to_be_bytes_def unat_u16_from_be_bytes)

section \<open>Slices cut into chunks\<close>

text \<open>\<^verbatim>\<open>slice::as_chunks::<N>\<close>: the full chunks of \<open>n\<close> elements and what is left over.\<close>

function chunks :: "nat \<Rightarrow> 'a list \<Rightarrow> 'a list list" where
  "chunks n xs = (if n = 0 \<or> length xs < n then [] else take n xs # chunks n (drop n xs))"
  by pat_completeness auto
termination
  by (relation "measure (\<lambda>(n, xs). length xs)") auto

declare chunks.simps [simp del]

definition chunks_rest :: "nat \<Rightarrow> 'a list \<Rightarrow> 'a list" where
  "chunks_rest n xs = drop (n * length (chunks n xs)) xs"

definition as_chunks :: "nat \<Rightarrow> 'a list \<Rightarrow> 'a list list \<times> 'a list" where
  "as_chunks n xs = (chunks n xs, chunks_rest n xs)"

lemma chunks_short: "length xs < n \<Longrightarrow> chunks n xs = []"
  by (subst chunks.simps) simp

lemma chunks_step: "0 < n \<Longrightarrow> n \<le> length xs \<Longrightarrow> chunks n xs = take n xs # chunks n (drop n xs)"
  by (subst chunks.simps) simp

lemma chunks_rest_step: "0 < n \<Longrightarrow> n \<le> length xs \<Longrightarrow> chunks_rest n xs = chunks_rest n (drop n xs)"
  by (simp add: chunks_rest_def chunks_step ac_simps)

lemma chunks_rest_short: "length xs < n \<Longrightarrow> chunks_rest n xs = xs"
  by (simp add: chunks_rest_def chunks_short)

lemma chunks_induct [consumes 1, case_names short step]:
  assumes "0 < n"
    and "\<And>xs. 0 < n \<Longrightarrow> length xs < n \<Longrightarrow> P xs"
    and "\<And>xs. 0 < n \<Longrightarrow> n \<le> length xs \<Longrightarrow> P (drop n xs) \<Longrightarrow> P xs"
  shows "P xs"
proof (induction "length xs" arbitrary: xs rule: less_induct)
  case less
  show ?case
  proof (cases "length xs < n")
    case True
    with assms(1) show ?thesis by (rule assms(2))
  next
    case False
    then have "length (drop n xs) < length xs" using assms(1) by simp
    then have "P (drop n xs)" by (rule less)
    with False assms(1) show ?thesis using assms(3) [of xs] by simp
  qed
qed

lemma concat_chunks: "0 < n \<Longrightarrow> concat (chunks n xs) @ chunks_rest n xs = xs"
proof (induction xs rule: chunks_induct)
  case (short xs)
  then show ?case by (simp add: chunks_short chunks_rest_short)
next
  case (step xs)
  then show ?case by (simp add: chunks_step [OF step(1,2)] chunks_rest_step [OF step(1,2)])
qed

lemma chunks_length: "0 < n \<Longrightarrow> c \<in> set (chunks n xs) \<Longrightarrow> length c = n"
proof (induction xs rule: chunks_induct)
  case (short xs)
  then show ?case by (simp add: chunks_short)
next
  case (step xs)
  then show ?case by (auto simp: chunks_step [OF step(1,2)])
qed

lemma chunks_rest_length: "0 < n \<Longrightarrow> length (chunks_rest n xs) = length xs mod n"
proof (induction xs rule: chunks_induct)
  case (short xs)
  then show ?case by (simp add: chunks_rest_short)
next
  case (step xs)
  then show ?case by (simp only: chunks_rest_step [OF step(1,2)] length_drop le_mod_geq [OF step(2), symmetric])
qed

section \<open>Exclusive or, byte by byte\<close>

lemma bit_lt_256: "z < 256 \<Longrightarrow> bit z n \<Longrightarrow> n < 8" for z :: nat
proof -
  assume z: "z < 256" and b: "bit z n"
  from z have "take_bit 8 z = z" by (intro take_bit_nat_eq_self) simp
  with b have "bit (take_bit 8 z) n" by (simp only:)
  then show ?thesis by (simp only: bit_take_bit_iff)
qed

lemma bit_shift_add: "z < 256 \<Longrightarrow> bit (c * 256 + z) n = (if n < 8 then bit z n else bit c (n - 8))" for z :: nat
proof -
  assume z: "z < 256"
  have "push_bit 8 c AND z = 0"
    by (rule bit_eqI) (auto simp only: bit_and_iff bit_push_bit_iff_nat bit_0_eq dest: bit_lt_256 [OF z])
  then have "push_bit 8 c + z = push_bit 8 c OR z"
    by (rule disjunctive_add_eq_or)
  then have "c * 256 + z = push_bit 8 c OR z"
    by (simp add: push_bit_eq_mult)
  then show ?thesis using bit_lt_256 [OF z]
    by (auto simp only: bit_or_iff bit_push_bit_iff_nat split: if_splits)
qed

lemma xor_lt_256: "x < 256 \<Longrightarrow> y < 256 \<Longrightarrow> x XOR y < 256" for x :: nat
proof -
  assume a: "x < 256" "y < 256"
  have "take_bit 8 x = x" "take_bit 8 y = y" using a by (intro take_bit_nat_eq_self, simp)+
  then have "take_bit 8 (x XOR y) = x XOR y" by (simp only: take_bit_xor)
  then have "x XOR y < 2 ^ 8" by (simp only: take_bit_nat_eq_self_iff)
  then show ?thesis by (simp only: power_numeral) simp
qed

lemma nat_xor_shift:
  assumes "x < 256" "y < 256"
  shows "(a * 256 + x) XOR (b * 256 + y) = (a XOR b) * 256 + (x XOR y :: nat)"
  by (rule bit_eqI) (simp only: bit_xor_iff bit_shift_add [OF assms(1)] bit_shift_add [OF assms(2)]
     bit_shift_add [OF xor_lt_256 [OF assms]] split: if_split, blast)

lemma be_nat_snoc: "be_nat (xs @ [x]) = be_nat xs * 256 + unat x"
  by (simp add: be_nat_append)

lemma be_nat_xor:
  "length xs = length ys \<Longrightarrow> be_nat xs XOR be_nat ys = be_nat (map2 (XOR) xs ys)"
proof (induction xs arbitrary: ys rule: rev_induct)
  case (snoc x xs)
  then obtain zs z where ys: "ys = zs @ [z]" "length xs = length zs"
    by (cases ys rule: rev_cases) auto
  with snoc.IH [OF ys(2)] show ?case
    by (simp only: be_nat_snoc nat_xor_shift unsigned_xor_eq unat_byte_less zip_append map_append length_append ys list.size list.map zip_Cons_Cons zip_Nil prod.case)
qed simp

text \<open>
  \<^verbatim>\<open>from_ne_bytes\<close> and \<^verbatim>\<open>to_ne_bytes\<close> of an unsigned integer of \<open>8 * k\<close> bits, on a
  little-endian (\<open>le\<close>) or a big-endian target.
\<close>

definition from_ne_bytes :: "bool \<Rightarrow> bytes \<Rightarrow> 'w::len word" where
  "from_ne_bytes le bs = of_nat (be_nat (if le then rev bs else bs))"

definition to_ne_bytes :: "bool \<Rightarrow> 'w::len word \<Rightarrow> bytes" where
  "to_ne_bytes le w = (let bs = be_bytes (LENGTH('w) div 8) (unat w) in if le then rev bs else bs)"

lemma rev_map2_xor: "length xs = length ys \<Longrightarrow> rev (map2 f xs ys) = map2 f (rev xs) (rev ys)"
  by (simp only: rev_map zip_rev)

lemma be_nat_word_bound:
  assumes "length zs = LENGTH('w) div 8" and "8 dvd LENGTH('w::len)"
  shows "be_nat zs < 2 ^ LENGTH('w)"
proof -
  have "8 * length zs = LENGTH('w)" using assms by simp
  then have "(2::nat) ^ LENGTH('w) = (2 ^ 8) ^ length zs" by (metis power_mult)
  then show ?thesis using be_nat_bound [of zs] by (simp only:) simp
qed

lemma ne_bytes_roundtrip:
  assumes "length xs = LENGTH('w) div 8" and "8 dvd LENGTH('w)"
  shows "to_ne_bytes le (from_ne_bytes le xs :: 'w::len word) = xs"
proof -
  define ys where "ys = (if le then rev xs else xs)"
  have l: "length ys = LENGTH('w) div 8" using assms by (simp add: ys_def)
  have "unat (from_ne_bytes le xs :: 'w word) = be_nat ys"
    by (simp only: from_ne_bytes_def ys_def [symmetric] unat_of_nat mod_less be_nat_word_bound [OF l assms(2)])
  then have "to_ne_bytes le (from_ne_bytes le xs :: 'w word) = (if le then rev ys else ys)"
    by (simp only: to_ne_bytes_def Let_def l [symmetric] be_bytes_be_nat)
  then show ?thesis by (simp add: ys_def split: if_splits)
qed

lemma ne_bytes_xor:
  fixes a b :: "'w::len word"
  assumes len: "length xs = LENGTH('w) div 8" "length ys = LENGTH('w) div 8" and w: "8 dvd LENGTH('w)"
  shows "to_ne_bytes le (from_ne_bytes le xs XOR from_ne_bytes le ys :: 'w word) = map2 (XOR) xs ys"
proof -
  define xs' ys' where "xs' = (if le then rev xs else xs)" and "ys' = (if le then rev ys else ys)"
  have l: "length xs' = LENGTH('w) div 8" "length ys' = LENGTH('w) div 8"
    using len by (auto simp: xs'_def ys'_def)
  have "unat (of_nat (be_nat xs') XOR of_nat (be_nat ys') :: 'w word) = be_nat xs' XOR be_nat ys'"
    by (simp only: unsigned_xor_eq unat_of_nat mod_less be_nat_word_bound [OF l(1) w] be_nat_word_bound [OF l(2) w])
  then have "unat (from_ne_bytes le xs XOR from_ne_bytes le ys :: 'w word) = be_nat (map2 (XOR) xs' ys')"
    using l by (simp only: from_ne_bytes_def xs'_def [symmetric] ys'_def [symmetric] be_nat_xor)
  moreover have "be_bytes (LENGTH('w) div 8) (be_nat (map2 (XOR) xs' ys')) = map2 (XOR) xs' ys'"
    using l be_bytes_be_nat [of "map2 (XOR) xs' ys'"] by simp
  ultimately have "to_ne_bytes le (from_ne_bytes le xs XOR from_ne_bytes le ys :: 'w word) =
      (if le then rev (map2 (XOR) xs' ys') else map2 (XOR) xs' ys')"
    by (simp only: to_ne_bytes_def Let_def)
  also have "\<dots> = map2 (XOR) xs ys"
    using len by (cases le) (simp_all only: xs'_def ys'_def rev_map2_xor length_rev rev_rev_ident if_True if_False)
  finally show ?thesis .
qed

end
