(* ===== verification/WS_Error.thy ===== *)
theory WS_Error
  imports WS_Prelude
begin

text \<open>
  The error type of \<^verbatim>\<open>src/error.rs\<close>: its constructors with their payloads, the
  classification functions, the conversions from and to \<^verbatim>\<open>io::Error\<close>, and close reasons.
  A constructor whose source name is also the name of a protocol type carries the suffix
  \<open>_err\<close>. An error of another crate (\<^verbatim>\<open>h2\<close>, \<^verbatim>\<open>quinn\<close>) is carried as its displayed text.
\<close>

section \<open>Decimal display\<close>

fun show_nat :: "nat \<Rightarrow> string" where
  "show_nat n = (if n < 10 then [char_of (48 + n)] else show_nat (n div 10) @ [char_of (48 + n mod 10)])"

declare show_nat.simps [simp del]

section \<open>I/O errors\<close>

text \<open>The kinds of \<^verbatim>\<open>std::io::ErrorKind\<close> that the library tells apart, and all others.\<close>

datatype io_kind = IoWouldBlock | IoConnectionReset | IoBrokenPipe | IoUnexpectedEof
  | IoTimedOut | IoOther | IoKind nat

record io_error =
  io_error_kind :: io_kind
  io_error_msg :: string

section \<open>Close reasons\<close>

record close_reason =
  code :: u16
  reason :: bytes

definition close_normal :: u16 where "close_normal = 1000"
definition close_going_away :: u16 where "close_going_away = 1001"
definition close_protocol_error :: u16 where "close_protocol_error = 1002"
definition close_no_status :: u16 where "close_no_status = 1005"
definition close_abnormal :: u16 where "close_abnormal = 1006"

definition close_reason_new :: "u16 \<Rightarrow> bytes \<Rightarrow> close_reason" where
  "close_reason_new c r = \<lparr>code = c, reason = r\<rparr>"

definition is_valid_code :: "u16 \<Rightarrow> bool" where
  "is_valid_code c \<longleftrightarrow> (1000 \<le> c \<and> c \<le> 1003) \<or> (1007 \<le> c \<and> c \<le> 1014) \<or> (3000 \<le> c \<and> c \<le> 4999)"

section \<open>Library errors\<close>

datatype error =
    Io io_error
  | InvalidFrame string
  | InvalidUtf8
  | Protocol_err string
  | ConnectionClosed
  | MessageTooLarge
  | FrameTooLarge
  | InvalidHttp string
  | HandshakeFailed string
  | BufferFull
  | WouldBlock
  | ConnectionReset
  | InvalidState string
  | Closed_err "close_reason option"
  | InvalidCloseCode u16
  | Capacity_err string
  | Compression_err string
  | HeartbeatTimeout
  | IdleTimeout
  | Http2_err string
  | Http3_err string
  | Quic_err string
  | QuicWrite_err string
  | ExtendedConnectNotSupported
  | StreamReset

type_synonym 'a ws_result = "('a, error) result"

datatype error_kind = KIo | KProtocol | KHandshake | KValidation | KCapacity | KCompression
  | KConnection | KTransport

fun kind :: "error \<Rightarrow> error_kind" where
  "kind (Io _) = KIo"
| "kind (InvalidFrame _) = KValidation"
| "kind InvalidUtf8 = KValidation"
| "kind (Protocol_err _) = KProtocol"
| "kind ConnectionClosed = KConnection"
| "kind MessageTooLarge = KCapacity"
| "kind FrameTooLarge = KCapacity"
| "kind (InvalidHttp _) = KHandshake"
| "kind (HandshakeFailed _) = KHandshake"
| "kind BufferFull = KCapacity"
| "kind WouldBlock = KIo"
| "kind ConnectionReset = KConnection"
| "kind (InvalidState _) = KProtocol"
| "kind (Closed_err _) = KConnection"
| "kind (InvalidCloseCode _) = KValidation"
| "kind (Capacity_err _) = KCapacity"
| "kind (Compression_err _) = KCompression"
| "kind HeartbeatTimeout = KConnection"
| "kind IdleTimeout = KConnection"
| "kind (Http2_err _) = KTransport"
| "kind (Http3_err _) = KTransport"
| "kind (Quic_err _) = KTransport"
| "kind (QuicWrite_err _) = KTransport"
| "kind ExtendedConnectNotSupported = KHandshake"
| "kind StreamReset = KConnection"

fun is_fatal :: "error \<Rightarrow> bool" where
  "is_fatal ConnectionClosed = True"
| "is_fatal ConnectionReset = True"
| "is_fatal (Protocol_err _) = True"
| "is_fatal InvalidUtf8 = True"
| "is_fatal FrameTooLarge = True"
| "is_fatal MessageTooLarge = True"
| "is_fatal StreamReset = True"
| "is_fatal (InvalidCloseCode _) = True"
| "is_fatal HeartbeatTimeout = True"
| "is_fatal IdleTimeout = True"
| "is_fatal _ = False"

fun is_recoverable :: "error \<Rightarrow> bool" where
  "is_recoverable WouldBlock = True"
| "is_recoverable BufferFull = True"
| "is_recoverable _ = False"

fun is_timeout :: "error \<Rightarrow> bool" where
  "is_timeout HeartbeatTimeout = True"
| "is_timeout IdleTimeout = True"
| "is_timeout (Io e) = (io_error_kind e = IoTimedOut)"
| "is_timeout _ = False"

definition is_connection_error :: "error \<Rightarrow> bool" where
  "is_connection_error e \<longleftrightarrow> kind e = KConnection"

definition is_protocol_error :: "error \<Rightarrow> bool" where
  "is_protocol_error e \<longleftrightarrow> kind e = KProtocol"

fun metric_name :: "error \<Rightarrow> string" where
  "metric_name (Io _) = ''io_error''"
| "metric_name (InvalidFrame _) = ''invalid_frame''"
| "metric_name InvalidUtf8 = ''invalid_utf8''"
| "metric_name (Protocol_err _) = ''protocol_error''"
| "metric_name ConnectionClosed = ''connection_closed''"
| "metric_name MessageTooLarge = ''message_too_large''"
| "metric_name FrameTooLarge = ''frame_too_large''"
| "metric_name (InvalidHttp _) = ''invalid_http''"
| "metric_name (HandshakeFailed _) = ''handshake_failed''"
| "metric_name BufferFull = ''buffer_full''"
| "metric_name WouldBlock = ''would_block''"
| "metric_name ConnectionReset = ''connection_reset''"
| "metric_name (InvalidState _) = ''invalid_state''"
| "metric_name (Closed_err _) = ''closed''"
| "metric_name (InvalidCloseCode _) = ''invalid_close_code''"
| "metric_name (Capacity_err _) = ''capacity_exceeded''"
| "metric_name (Compression_err _) = ''compression_error''"
| "metric_name HeartbeatTimeout = ''heartbeat_timeout''"
| "metric_name IdleTimeout = ''idle_timeout''"
| "metric_name (Http2_err _) = ''http2_error''"
| "metric_name (Http3_err _) = ''http3_error''"
| "metric_name (Quic_err _) = ''quic_error''"
| "metric_name (QuicWrite_err _) = ''quic_write_error''"
| "metric_name ExtendedConnectNotSupported = ''extended_connect_not_supported''"
| "metric_name StreamReset = ''stream_reset''"

fun suggested_http_status :: "error \<Rightarrow> u16" where
  "suggested_http_status (InvalidHttp _) = 400"
| "suggested_http_status (InvalidFrame _) = 400"
| "suggested_http_status (InvalidCloseCode _) = 400"
| "suggested_http_status (Protocol_err _) = 400"
| "suggested_http_status InvalidUtf8 = 400"
| "suggested_http_status (HandshakeFailed _) = 400"
| "suggested_http_status MessageTooLarge = 413"
| "suggested_http_status FrameTooLarge = 413"
| "suggested_http_status (Capacity_err _) = 413"
| "suggested_http_status BufferFull = 503"
| "suggested_http_status ExtendedConnectNotSupported = 501"
| "suggested_http_status _ = 500"

text \<open>A Rust \<^verbatim>\<open>String\<close> of bytes, displayed.\<close>

definition bytes_string :: "bytes \<Rightarrow> string" where
  "bytes_string bs = map (\<lambda>b. char_of (unat b)) bs"

fun display :: "error \<Rightarrow> string" where
  "display (Io e) = ''I/O error: '' @ io_error_msg e"
| "display (InvalidFrame msg) = ''Invalid frame: '' @ msg"
| "display InvalidUtf8 = ''Invalid UTF-8 in text message''"
| "display (Protocol_err msg) = ''Protocol error: '' @ msg"
| "display ConnectionClosed = ''Connection closed''"
| "display MessageTooLarge = ''Message too large''"
| "display FrameTooLarge = ''Frame too large''"
| "display (InvalidHttp msg) = ''Invalid HTTP: '' @ msg"
| "display (HandshakeFailed msg) = ''Handshake failed: '' @ msg"
| "display BufferFull = ''Buffer full''"
| "display WouldBlock = ''Would block''"
| "display ConnectionReset = ''Connection reset by peer''"
| "display (InvalidState msg) = ''Invalid state: '' @ msg"
| "display (Closed_err r) = (case r of
     Some r \<Rightarrow> ''Connection closed: '' @ show_nat (unat (code r)) @ '' ('' @ bytes_string (reason r) @ '')''
   | None \<Rightarrow> ''Connection closed'')"
| "display (InvalidCloseCode c) = ''Invalid close code: '' @ show_nat (unat c)"
| "display (Capacity_err msg) = ''Capacity exceeded: '' @ msg"
| "display (Compression_err msg) = ''Compression error: '' @ msg"
| "display HeartbeatTimeout = ''WebSocket Pong deadline expired''"
| "display IdleTimeout = ''WebSocket inbound idle deadline expired''"
| "display (Http2_err e) = ''HTTP/2 error: '' @ e"
| "display (Http3_err e) = ''HTTP/3 error: '' @ e"
| "display (Quic_err e) = ''QUIC error: '' @ e"
| "display (QuicWrite_err e) = ''QUIC write error: '' @ e"
| "display ExtendedConnectNotSupported = ''Extended CONNECT protocol not supported by server''"
| "display StreamReset = ''Stream was reset by peer''"

definition error_from_io :: "io_error \<Rightarrow> error" where
  "error_from_io e = (case io_error_kind e of
     IoWouldBlock \<Rightarrow> WouldBlock
   | IoConnectionReset \<Rightarrow> ConnectionReset
   | IoBrokenPipe \<Rightarrow> ConnectionClosed
   | IoUnexpectedEof \<Rightarrow> ConnectionClosed
   | _ \<Rightarrow> Io e)"

fun io_from_error :: "error \<Rightarrow> io_error" where
  "io_from_error (Io e) = e"
| "io_from_error WouldBlock = \<lparr>io_error_kind = IoWouldBlock, io_error_msg = ''would block''\<rparr>"
| "io_from_error ConnectionReset = \<lparr>io_error_kind = IoConnectionReset, io_error_msg = ''connection reset''\<rparr>"
| "io_from_error ConnectionClosed = \<lparr>io_error_kind = IoBrokenPipe, io_error_msg = ''connection closed''\<rparr>"
| "io_from_error e = \<lparr>io_error_kind = IoOther, io_error_msg = display e\<rparr>"

section \<open>Lemmas\<close>

lemma recoverable_not_fatal: "is_recoverable e \<Longrightarrow> \<not> is_fatal e"
  by (cases e) auto

text \<open>An error that came from the socket survives the trip through \<^verbatim>\<open>io::Error\<close>.\<close>

lemma error_io_roundtrip: "error_from_io (io_from_error (error_from_io e)) = error_from_io e"
  by (cases "io_error_kind e") (auto simp: error_from_io_def)

lemma is_valid_code_unat:
  "is_valid_code c \<longleftrightarrow> unat c \<in> {1000..1003} \<union> {1007..1014} \<union> {3000..4999}"
  by (auto simp: is_valid_code_def word_le_nat_alt)

end
