(* ===== verification/WS_Mask.thy ===== *)
theory WS_Mask
  imports WS_Prelude
begin

text \<open>
  The masking kernels of \<^verbatim>\<open>src/simd.rs\<close> and the copying kernels of
  \<^verbatim>\<open>src/frame.rs\<close>: exclusive or of a payload with a repeating four-byte key, computed
  byte by byte, in 64-bit words, in 64- and 256-byte blocks and in vector registers.
  \<open>mask_from\<close> is the reference; each kernel is proved equal to it, whatever the address
  of the data. The nightly kernels that cut the slice with \<^verbatim>\<open>align_to_mut\<close> restart the key
  after an unaligned prefix; the lemmas on them say exactly when they agree with the
  reference.
\<close>

section \<open>Keys and the reference masking\<close>

text \<open>A key is the array \<^verbatim>\<open>[u8; 4]\<close>.\<close>

type_synonym mask4 = "byte \<times> byte \<times> byte \<times> byte"

fun mask_at :: "mask4 \<Rightarrow> nat \<Rightarrow> byte" where
  "mask_at (a, b, c, d) i =
     (if i mod 4 = 0 then a else if i mod 4 = 1 then b else if i mod 4 = 2 then c else d)"

fun mask_bytes :: "mask4 \<Rightarrow> bytes" where
  "mask_bytes (a, b, c, d) = [a, b, c, d]"

text \<open>Byte \<open>i\<close> of the data is combined with key byte \<open>(k + i) mod 4\<close>.\<close>

fun mask_from :: "mask4 \<Rightarrow> nat \<Rightarrow> bytes \<Rightarrow> bytes" where
  "mask_from m k [] = []"
| "mask_from m k (b # bs) = (b XOR mask_at m k) # mask_from m (Suc k) bs"

text \<open>\<^verbatim>\<open>[mask[k], mask[(k + 1) & 3], mask[(k + 2) & 3], mask[(k + 3) & 3]]\<close>.\<close>

definition rotate_mask :: "mask4 \<Rightarrow> nat \<Rightarrow> mask4" where
  "rotate_mask m k = (mask_at m k, mask_at m (k + 1), mask_at m (k + 2), mask_at m (k + 3))"

lemma mask_at_mod [simp]: "mask_at m (k mod 4) = mask_at m k"
  by (cases m) simp

lemma mask_at_add4: "4 dvd n \<Longrightarrow> mask_at m (k + n) = mask_at m k"
  by (cases m) (auto simp: mod_add_eq dvd_eq_mod_eq_0 simp flip: mod_add_right_eq)

lemma mask_at_rotate [simp]: "mask_at (rotate_mask m k) i = mask_at m (k + i)"
proof -
  have "i mod 4 = 0 \<or> i mod 4 = 1 \<or> i mod 4 = 2 \<or> i mod 4 = 3" by presburger
  moreover have "mask_at m (k + i) = mask_at m (k + i mod 4)"
    by (metis mask_at_mod mod_add_right_eq)
  ultimately show ?thesis by (auto simp: rotate_mask_def)
qed

lemma length_mask_from [simp]: "length (mask_from m k bs) = length bs"
  by (induction bs arbitrary: k) auto

lemma mask_from_append:
  "mask_from m k (xs @ ys) = mask_from m k xs @ mask_from m (k + length xs) ys"
  by (induction xs arbitrary: k) auto

lemma mask_from_rotate: "mask_from (rotate_mask m k) i bs = mask_from m (k + i) bs"
  by (induction bs arbitrary: i) auto

lemma mask_from_add4: "4 dvd n \<Longrightarrow> mask_from m (k + n) bs = mask_from m k bs"
  by (induction bs arbitrary: k) (auto simp: mask_at_add4 simp flip: add_Suc)

lemma mask_from_mod [simp]: "mask_from m (k mod 4) bs = mask_from m k bs"
  using mask_from_add4 [of "4 * (k div 4)" m "k mod 4" bs] by simp

lemma mask_from_involution [simp]: "mask_from m k (mask_from m k bs) = bs"
  by (induction bs arbitrary: k) (auto simp: xor.assoc)

lemma take_mask_from: "take n (mask_from m k bs) = mask_from m k (take n bs)"
  by (induction bs arbitrary: k n) (auto simp: take_Cons split: nat.split)

lemma drop_mask_from: "drop n (mask_from m k bs) = mask_from m (k + n) (drop n bs)"
proof (induction n arbitrary: k bs)
  case (Suc n)
  then show ?case by (cases bs) auto
qed simp

lemma nth_mask_from: "i < length bs \<Longrightarrow> mask_from m k bs ! i = bs ! i XOR mask_at m (k + i)"
  by (induction bs arbitrary: k i) (auto simp: nth_Cons split: nat.split)

section \<open>The kernels\<close>

text \<open>\<open>addr\<close> is the address of the first byte of the slice, \<^verbatim>\<open>data.as_ptr() as usize\<close>.\<close>

fun scalar_prefix :: "nat \<Rightarrow> mask4 \<Rightarrow> nat \<Rightarrow> bytes \<Rightarrow> bytes \<times> nat \<times> bytes" where
  "scalar_prefix addr m idx [] = ([], idx, [])"
| "scalar_prefix addr m idx (b # bs) =
     (if addr AND 7 \<noteq> 0
      then let (out, idx', rest) = scalar_prefix (addr + 1) m ((idx + 1) AND 3) bs
           in ((b XOR mask_at m idx) # out, idx', rest)
      else ([], idx, b # bs))"

fun scalar_tail :: "mask4 \<Rightarrow> nat \<Rightarrow> bytes \<Rightarrow> bytes" where
  "scalar_tail m idx [] = []"
| "scalar_tail m idx (b # bs) = (b XOR mask_at m idx) # scalar_tail m ((idx + 1) AND 3) bs"

text \<open>\<^verbatim>\<open>(u64::from_ne_bytes(word) ^ mask_u64).to_ne_bytes()\<close> over the chunks of a slice.\<close>

definition xor_words :: "bool \<Rightarrow> u64 \<Rightarrow> bytes list \<Rightarrow> bytes" where
  "xor_words le key ws = concat (map (\<lambda>w. to_ne_bytes le (from_ne_bytes le w XOR key)) ws)"

definition mask_u64_of :: "bool \<Rightarrow> mask4 \<Rightarrow> u64" where
  "mask_u64_of le m = from_ne_bytes le (mask_bytes m @ mask_bytes m)"

definition apply_mask_scalar_offset :: "bool \<Rightarrow> nat \<Rightarrow> bytes \<Rightarrow> mask4 \<Rightarrow> nat \<Rightarrow> bytes" where
  "apply_mask_scalar_offset le addr data m offset =
     (let (out, idx, rest) = scalar_prefix addr m (offset AND 3) data;
          key = mask_u64_of le (rotate_mask m idx);
          (ws, tail) = as_chunks 8 rest
      in out @ xor_words le key ws @ scalar_tail m idx tail)"

definition apply_mask_scalar :: "bool \<Rightarrow> nat \<Rightarrow> bytes \<Rightarrow> mask4 \<Rightarrow> bytes" where
  "apply_mask_scalar le addr data m = apply_mask_scalar_offset le addr data m 0"

text \<open>\<^verbatim>\<open>for (i, byte) in tail.iter_mut().enumerate() { *byte ^= mask[i & 3] }\<close>.\<close>

definition xor_enumerate :: "mask4 \<Rightarrow> bytes \<Rightarrow> bytes" where
  "xor_enumerate m bs = map (\<lambda>(i, b). b XOR mask_at m (i AND 3)) (enumerate 0 bs)"

definition apply_mask_words :: "bool \<Rightarrow> bytes \<Rightarrow> mask4 \<Rightarrow> bytes" where
  "apply_mask_words le data m =
     (let key = mask_u64_of le m;
          (blocks, rest) = as_chunks 64 data;
          (ws, tail) = as_chunks 8 rest
      in concat (map (\<lambda>block. xor_words le key (fst (as_chunks 8 block))) blocks)
         @ xor_words le key ws @ xor_enumerate m tail)"

definition apply_mask_blocks :: "bool \<Rightarrow> nat \<Rightarrow> bytes \<Rightarrow> mask4 \<Rightarrow> bytes" where
  "apply_mask_blocks le addr data m =
     (if length data < 2048 then apply_mask_words le data m
      else let misalign = addr AND 15;
               prefix_len = (if misalign = 0 then 0 else min (16 - misalign) (length data));
               rotated = rotate_mask m prefix_len
           in xor_enumerate m (take prefix_len data)
              @ apply_mask_words le (drop prefix_len data) rotated)"

section \<open>Each kernel computes the reference\<close>

lemma map2_xor_mask: "length c = n \<Longrightarrow> 
  map2 (XOR) c (map (\<lambda>i. mask_at m (k + i)) [0..<n]) = mask_from m k c"
  by (rule nth_equalityI) (auto simp: nth_mask_from)

lemma mask_key8:
  "mask_bytes (rotate_mask m k) @ mask_bytes (rotate_mask m k) = map (\<lambda>i. mask_at m (k + i)) [0..<8]"
proof -
  have "mask_at m (k + 4) = mask_at m k" "mask_at m (k + 5) = mask_at m (k + 1)"
    "mask_at m (k + 6) = mask_at m (k + 2)" "mask_at m (k + 7) = mask_at m (k + 3)"
    using mask_at_add4 [of 4 m k] mask_at_add4 [of 4 m "k + 1"] mask_at_add4 [of 4 m "k + 2"]
      mask_at_add4 [of 4 m "k + 3"] by (simp_all add: add.commute add.left_commute)
  then show ?thesis by (simp add: rotate_mask_def upt_conv_Cons numeral_eq_Suc)
qed

lemma rotate_mask_0 [simp]: "rotate_mask m 0 = m"
  by (cases m) (simp add: rotate_mask_def)

lemma xor_word_eq:
  "length w = 8 \<Longrightarrow> to_ne_bytes le (from_ne_bytes le w XOR mask_u64_of le (rotate_mask m k)) = mask_from m k w"
  by (simp add: mask_u64_of_def mask_key8 ne_bytes_xor map2_xor_mask)

lemma chunked_mask:
  assumes "0 < n" "4 dvd n"
    and f: "\<And>c. length c = n \<Longrightarrow> f c = mask_from m k c"
  shows "concat (map f (chunks n bs)) @ mask_from m k (chunks_rest n bs) = mask_from m k bs"
  using assms(1)
proof (induction bs rule: chunks_induct)
  case (short xs)
  then show ?case by (simp add: chunks_short chunks_rest_short)
next
  case (step xs)
  have "mask_from m k xs = mask_from m k (take n xs @ drop n xs)" by simp
  also have "\<dots> = mask_from m k (take n xs) @ mask_from m k (drop n xs)"
    using step(2) by (simp only: mask_from_append length_take min_absorb2 mask_from_add4 [OF assms(2)])
  finally show ?case
    using step by (simp add: chunks_step [OF step(1,2)] chunks_rest_step [OF step(1,2)] f)
qed

lemma xor_words_eq:
  "xor_words le (mask_u64_of le (rotate_mask m k)) (chunks 8 bs) @ mask_from m k (chunks_rest 8 bs)
     = mask_from m k bs"
  unfolding xor_words_def by (rule chunked_mask) (auto simp: xor_word_eq)

lemma scalar_tail_eq: "scalar_tail m idx bs = mask_from m idx bs"
proof (induction bs arbitrary: idx)
  case (Cons b bs)
  then show ?case by (simp del: mask_at.simps)
qed simp

lemma scalar_prefix_eq:
  "scalar_prefix addr m idx bs = (out, idx', rest) \<Longrightarrow>
     \<exists>pre. bs = pre @ rest \<and> out = mask_from m idx pre \<and> (\<forall>xs. mask_from m idx' xs = mask_from m (idx + length pre) xs)"
proof (induction addr m idx bs arbitrary: out idx' rest rule: scalar_prefix.induct)
  case (2 addr m idx b bs)
  show ?case
  proof (cases "addr AND 7 \<noteq> 0")
    case True
    obtain o' i' r' where r: "scalar_prefix (addr + 1) m ((idx + 1) AND 3) bs = (o', i', r')"
      by (cases "scalar_prefix (addr + 1) m ((idx + 1) AND 3) bs") auto
    from 2(1) [OF True r] obtain pre where pre: "bs = pre @ r'" "o' = mask_from m ((idx + 1) AND 3) pre"
      "\<forall>xs. mask_from m i' xs = mask_from m (((idx + 1) AND 3) + length pre) xs" by blast
    have "mask_from m (((idx + 1) AND 3) + length pre) xs = mask_from m (idx + length (b # pre)) xs" for xs
      by (metis add.commute add.left_commute and_3_mod length_Cons mask_from_mod mod_add_left_eq plus_1_eq_Suc)
    moreover have "(b XOR mask_at m idx) # o' = mask_from m idx (b # pre)"
      using pre(2) by (simp del: mask_at.simps)
    ultimately show ?thesis using 2(2) True r pre
      by (intro exI [of _ "b # pre"]) (simp del: mask_from.simps)
  next
    case False
    with 2 show ?thesis by (intro exI [of _ "[]"]) auto
  qed
qed auto

lemma apply_mask_scalar_offset_eq: "apply_mask_scalar_offset le addr data m offset = mask_from m offset data"
proof -
  obtain out idx rest where p: "scalar_prefix addr m (offset AND 3) data = (out, idx, rest)"
    by (cases "scalar_prefix addr m (offset AND 3) data") auto
  from scalar_prefix_eq [OF p] obtain pre where pre: "data = pre @ rest" "out = mask_from m (offset AND 3) pre"
    "\<And>xs. mask_from m idx xs = mask_from m ((offset AND 3) + length pre) xs" by blast
  have off: "mask_from m ((offset AND 3) + length pre) xs = mask_from m (offset + length pre) xs" for xs
    by (metis and_3_mod mask_from_mod mod_add_left_eq)
  have "apply_mask_scalar_offset le addr data m offset = out @ mask_from m idx rest"
    unfolding apply_mask_scalar_offset_def p
    by (simp add: as_chunks_def scalar_tail_eq xor_words_eq)
  then show ?thesis using pre off by (simp add: mask_from_append)
qed

lemma xor_enumerate_eq: "xor_enumerate m bs = mask_from m 0 bs"
  by (rule nth_equalityI) (auto simp: xor_enumerate_def nth_mask_from nth_enumerate_eq)

lemma apply_mask_words_eq: "apply_mask_words le data m = mask_from m 0 data"
proof -
  have key: "mask_u64_of le m = mask_u64_of le (rotate_mask m 0)" by simp
  have block: "xor_words le (mask_u64_of le m) (chunks 8 c) = mask_from m 0 c" if "length c = 64" for c
  proof -
    have "chunks_rest 8 c = []" using that chunks_rest_length [of 8 c] by simp
    then show ?thesis using xor_words_eq [of le m 0 c] by simp
  qed
  show ?thesis
    using chunked_mask [of 64 "\<lambda>block. xor_words le (mask_u64_of le m) (chunks 8 block)" m 0 data, OF _ _ block]
      xor_words_eq [of le m 0 "chunks_rest 64 data"]
    by (simp add: apply_mask_words_def as_chunks_def xor_enumerate_eq)
qed

lemma apply_mask_blocks_eq: "apply_mask_blocks le addr data m = mask_from m 0 data"
proof -
  have "mask_from m 0 (take n data) @ mask_from m (0 + n) (drop n data) = mask_from m 0 data" if "n \<le> length data" for n
    using that mask_from_append [of m 0 "take n data" "drop n data"] by simp
  then show ?thesis
    by (simp add: apply_mask_blocks_def Let_def apply_mask_words_eq xor_enumerate_eq mask_from_rotate)
qed


section \<open>Vector registers\<close>

text \<open>
  A register holds 32-bit lanes; \<^verbatim>\<open>set1_epi32\<close> puts the same key into every lane, the
  \<^verbatim>\<open>xor\<close> instruction works lane by lane, and loads and stores move the bytes of the lanes in
  native order.
\<close>

definition xor_lanes :: "bool \<Rightarrow> mask4 \<Rightarrow> bytes \<Rightarrow> bytes" where
  "xor_lanes le m block =
     (let key = (from_ne_bytes le (mask_bytes m) :: u32)
      in concat (map (\<lambda>lane. to_ne_bytes le (from_ne_bytes le lane XOR key)) (chunks 4 block)))"

text \<open>
  The head shared by the x86 kernels: the bytes up to the next multiple of \<open>width\<close> are
  masked by the scalar kernel, and the key phase after them is returned.
\<close>

definition aligned_head :: "nat \<Rightarrow> nat \<Rightarrow> bytes \<Rightarrow> mask4 \<Rightarrow> bytes \<times> bytes \<times> nat \<times> nat" where
  "aligned_head width addr data m =
     (let align_offset = addr mod width in
      if align_offset \<noteq> 0
      then let prefix_len = min (width - align_offset) (length data)
           in (apply_mask_scalar_offset True addr (take prefix_len data) m 0,
               drop prefix_len data, addr + prefix_len, (0 + prefix_len) AND 3)
      else ([], data, addr, 0))"

definition apply_mask_avx512_aligned :: "nat \<Rightarrow> bytes \<Rightarrow> mask4 \<Rightarrow> bytes" where
  "apply_mask_avx512_aligned addr data m =
     (if length data = 0 then data
      else let (head, body, ptr, mask_offset) = aligned_head 64 addr data m;
               (blocks, rest) = as_chunks 64 body
           in head @ concat (map (xor_lanes True (rotate_mask m mask_offset)) blocks)
              @ apply_mask_scalar_offset True (ptr + 64 * length blocks) rest m mask_offset)"

definition apply_mask_avx2_aligned :: "nat \<Rightarrow> bytes \<Rightarrow> mask4 \<Rightarrow> bytes" where
  "apply_mask_avx2_aligned addr data m =
     (if length data = 0 then data
      else let (head, body, ptr, mask_offset) = aligned_head 32 addr data m;
               rotated = rotate_mask m mask_offset;
               (blocks, rest) = as_chunks 32 body;
               ptr1 = ptr + 32 * length blocks
           in head @ concat (map (xor_lanes True rotated) blocks)
              @ (if 16 \<le> length rest
                 then xor_lanes True rotated (take 16 rest)
                      @ apply_mask_scalar_offset True (ptr1 + 16) (drop 16 rest) m mask_offset
                 else apply_mask_scalar_offset True ptr1 rest m mask_offset))"

definition apply_mask_sse2_aligned :: "nat \<Rightarrow> bytes \<Rightarrow> mask4 \<Rightarrow> bytes" where
  "apply_mask_sse2_aligned addr data m =
     (if length data = 0 then data
      else let (head, body, ptr, mask_offset) = aligned_head 16 addr data m;
               (blocks, rest) = as_chunks 16 body
           in head @ concat (map (xor_lanes True (rotate_mask m mask_offset)) blocks)
              @ apply_mask_scalar_offset True (ptr + 16 * length blocks) rest m mask_offset)"

lemma mask_key4: "mask_bytes (rotate_mask m k) = map (\<lambda>i. mask_at m (k + i)) [0..<4]"
  by (simp add: rotate_mask_def upt_conv_Cons numeral_eq_Suc)

lemma xor_lane_eq:
  "length l = 4 \<Longrightarrow>
     to_ne_bytes le (from_ne_bytes le l XOR from_ne_bytes le (mask_bytes (rotate_mask m k)) :: u32) = mask_from m k l"
  by (simp add: mask_key4 ne_bytes_xor map2_xor_mask)

lemma xor_lanes_eq:
  assumes "4 dvd length block"
  shows "xor_lanes le (rotate_mask m k) block = mask_from m k block"
proof -
  have "chunks_rest 4 block = []" using assms chunks_rest_length [of 4 block] by simp
  then show ?thesis
    using chunked_mask [of 4 "\<lambda>l. to_ne_bytes le (from_ne_bytes le l XOR from_ne_bytes le (mask_bytes (rotate_mask m k)) :: u32)" m k block]
    by (simp add: xor_lanes_def Let_def xor_lane_eq)
qed

lemma vector_body_eq:
  assumes "0 < n" "4 dvd n"
  shows "concat (map (xor_lanes le (rotate_mask m k)) (chunks n bs)) @ mask_from m k (chunks_rest n bs) = mask_from m k bs"
  by (rule chunked_mask [OF assms]) (simp add: xor_lanes_eq assms)

lemma aligned_head_eq:
  assumes "aligned_head width addr data m = (head, body, ptr, k)"
  shows "head @ mask_from m k body = mask_from m 0 data"
proof (cases "addr mod width = 0")
  case True
  with assms show ?thesis by (auto simp: aligned_head_def)
next
  case False
  define p where "p = min (width - addr mod width) (length data)"
  from False assms have "head = mask_from m 0 (take p data)" "body = drop p data" "k = p mod 4"
    by (auto simp: aligned_head_def Let_def p_def apply_mask_scalar_offset_eq)
  moreover have "mask_from m 0 (take p data) @ mask_from m p (drop p data) = mask_from m 0 data"
    using mask_from_append [of m 0 "take p data" "drop p data"] by (simp add: p_def)
  ultimately show ?thesis by simp
qed

lemma apply_mask_avx512_eq: "apply_mask_avx512_aligned addr data m = mask_from m 0 data"
proof -
  obtain head body ptr k where h: "aligned_head 64 addr data m = (head, body, ptr, k)"
    by (cases "aligned_head 64 addr data m") auto
  show ?thesis
    using aligned_head_eq [OF h] vector_body_eq [of 64 True m k body]
    by (auto simp: apply_mask_avx512_aligned_def h as_chunks_def apply_mask_scalar_offset_eq)
qed

lemma apply_mask_sse2_eq: "apply_mask_sse2_aligned addr data m = mask_from m 0 data"
proof -
  obtain head body ptr k where h: "aligned_head 16 addr data m = (head, body, ptr, k)"
    by (cases "aligned_head 16 addr data m") auto
  show ?thesis
    using aligned_head_eq [OF h] vector_body_eq [of 16 True m k body]
    by (auto simp: apply_mask_sse2_aligned_def h as_chunks_def apply_mask_scalar_offset_eq)
qed

lemma apply_mask_avx2_eq: "apply_mask_avx2_aligned addr data m = mask_from m 0 data"
proof -
  obtain head body ptr k where h: "aligned_head 32 addr data m = (head, body, ptr, k)"
    by (cases "aligned_head 32 addr data m") auto
  have tail: "xor_lanes True (rotate_mask m k) (take 16 r) @ mask_from m k (drop 16 r) = mask_from m k r"
    if "16 \<le> length r" for r
  proof -
    have "mask_from m k (take 16 r @ drop 16 r) = mask_from m k (take 16 r) @ mask_from m (k + 16) (drop 16 r)"
      using that by (simp only: mask_from_append length_take min_absorb2)
    then show ?thesis using that by (simp add: xor_lanes_eq mask_from_add4)
  qed
  show ?thesis
    using aligned_head_eq [OF h] vector_body_eq [of 32 True m k body]
    by (auto simp: apply_mask_avx2_aligned_def h as_chunks_def Let_def apply_mask_scalar_offset_eq tail)
qed

section \<open>Kernels that cut the slice with align\_to\<close>

text \<open>
  \<^verbatim>\<open>slice::align_to_mut\<close> for a vector type of \<open>width\<close> bytes with alignment \<open>align\<close>: the bytes up to the
  next aligned address, the vectors from there, the rest. The vector types are aligned to their size,
  except that the ABIs of 32-bit ARM and of s390x align vectors of 16 bytes to 8.
\<close>

definition align_to :: "nat \<Rightarrow> nat \<Rightarrow> nat \<Rightarrow> bytes \<Rightarrow> bytes \<times> bytes list \<times> bytes" where
  "align_to width align addr data =
     (let off = (align - addr mod align) mod align in
      if length data < off then (data, [], [])
      else (take off data, chunks width (drop off data), chunks_rest width (drop off data)))"

definition mask_aligned_parts :: "bool \<Rightarrow> nat \<Rightarrow> nat \<Rightarrow> nat \<Rightarrow> bytes \<Rightarrow> mask4 \<Rightarrow> bytes" where
  "mask_aligned_parts le width align addr data m =
     (let (prefix, aligned_data, suffix) = align_to width align addr data in
      (if prefix \<noteq> [] then apply_mask_scalar le addr prefix m else [])
      @ (if aligned_data \<noteq> [] then concat (map (xor_lanes le m) aligned_data) else [])
      @ (if suffix \<noteq> []
         then apply_mask_scalar le (addr + length prefix + width * length aligned_data) suffix m
         else []))"

definition apply_mask_lasx :: "bool \<Rightarrow> nat \<Rightarrow> bytes \<Rightarrow> mask4 \<Rightarrow> bytes" where
  "apply_mask_lasx le addr data m = mask_aligned_parts le 32 32 addr data m"

definition apply_mask_lsx :: "bool \<Rightarrow> nat \<Rightarrow> bytes \<Rightarrow> mask4 \<Rightarrow> bytes" where
  "apply_mask_lsx le addr data m = mask_aligned_parts le 16 16 addr data m"

definition apply_mask_altivec_impl :: "bool \<Rightarrow> nat \<Rightarrow> bytes \<Rightarrow> mask4 \<Rightarrow> bytes" where
  "apply_mask_altivec_impl le addr data m = mask_aligned_parts le 16 16 addr data m"

definition apply_mask_s390x_impl :: "bool \<Rightarrow> nat \<Rightarrow> bytes \<Rightarrow> mask4 \<Rightarrow> bytes" where
  "apply_mask_s390x_impl le addr data m = mask_aligned_parts le 16 8 addr data m"

definition apply_mask_arm_neon_impl :: "bool \<Rightarrow> nat \<Rightarrow> bytes \<Rightarrow> mask4 \<Rightarrow> bytes" where
  "apply_mask_arm_neon_impl le addr data m = mask_aligned_parts le 16 8 addr data m"

lemmas align_to_kernel_defs = apply_mask_lasx_def apply_mask_lsx_def apply_mask_altivec_impl_def
  apply_mask_s390x_impl_def apply_mask_arm_neon_impl_def

section \<open>Choice of the kernel\<close>

datatype target_arch = X86_64 | Aarch64 | Loongarch64 | Powerpc | S390x | Arm | Other_arch

record target =
  arch :: target_arch
  little_endian :: bool
  nightly :: bool
  avx512f :: bool
  avx512bw :: bool
  avx2 :: bool
  sse2 :: bool
  lasx :: bool
  lsx :: bool
  neon :: bool

definition apply_mask_loongarch :: "target \<Rightarrow> nat \<Rightarrow> bytes \<Rightarrow> mask4 \<Rightarrow> bytes" where
  "apply_mask_loongarch t addr data m =
     (if nightly t \<and> lasx t then apply_mask_lasx (little_endian t) addr data m
      else if nightly t \<and> lsx t then apply_mask_lsx (little_endian t) addr data m
      else apply_mask_scalar (little_endian t) addr data m)"

definition apply_mask_altivec :: "target \<Rightarrow> nat \<Rightarrow> bytes \<Rightarrow> mask4 \<Rightarrow> bytes" where
  "apply_mask_altivec t addr data m =
     (if nightly t then apply_mask_altivec_impl (little_endian t) addr data m
      else apply_mask_scalar (little_endian t) addr data m)"

definition apply_mask_s390x :: "target \<Rightarrow> nat \<Rightarrow> bytes \<Rightarrow> mask4 \<Rightarrow> bytes" where
  "apply_mask_s390x t addr data m =
     (if nightly t then apply_mask_s390x_impl (little_endian t) addr data m
      else apply_mask_scalar (little_endian t) addr data m)"

definition apply_mask_arm_neon :: "target \<Rightarrow> nat \<Rightarrow> bytes \<Rightarrow> mask4 \<Rightarrow> bytes" where
  "apply_mask_arm_neon t addr data m =
     (if nightly t \<and> neon t then apply_mask_arm_neon_impl (little_endian t) addr data m
      else apply_mask_scalar (little_endian t) addr data m)"

definition apply_mask :: "target \<Rightarrow> nat \<Rightarrow> bytes \<Rightarrow> mask4 \<Rightarrow> bytes" where
  "apply_mask t addr data m =
     (if data = [] then data
      else case arch t of
        X86_64 \<Rightarrow>
          (if avx512f t \<and> avx512bw t then apply_mask_avx512_aligned addr data m
           else if avx2 t then apply_mask_avx2_aligned addr data m
           else if sse2 t then apply_mask_sse2_aligned addr data m
           else data)
      | Aarch64 \<Rightarrow> apply_mask_blocks (little_endian t) addr data m
      | Loongarch64 \<Rightarrow> apply_mask_loongarch t addr data m
      | Powerpc \<Rightarrow> apply_mask_altivec t addr data m
      | S390x \<Rightarrow> apply_mask_s390x t addr data m
      | Arm \<Rightarrow> apply_mask_arm_neon t addr data m
      | Other_arch \<Rightarrow> apply_mask_blocks (little_endian t) addr data m)"

text \<open>\<^verbatim>\<open>u32::from_le_bytes(mask).rotate_right((offset * 8) as u32).to_le_bytes()\<close>.\<close>

definition rotated_le_mask :: "mask4 \<Rightarrow> nat \<Rightarrow> mask4" where
  "rotated_le_mask m offset =
     (let bs = to_ne_bytes True (word_rotr (offset * 8) (from_ne_bytes True (mask_bytes m) :: u32))
      in (bs ! 0, bs ! 1, bs ! 2, bs ! 3))"

definition apply_mask_offset :: "target \<Rightarrow> nat \<Rightarrow> bytes \<Rightarrow> mask4 \<Rightarrow> nat \<Rightarrow> bytes" where
  "apply_mask_offset t addr data m offset =
     (if offset = 0 then apply_mask t addr data m
      else apply_mask t addr data (rotated_le_mask m (offset AND 3)))"

text \<open>
  The targets on which the chosen kernel keeps the key phase: SSE2 is part of the x86-64
  baseline, and the \<^verbatim>\<open>align_to_mut\<close> kernels need the \<^verbatim>\<open>nightly\<close> feature.
\<close>

definition phase_kept :: "target \<Rightarrow> bool" where
  "phase_kept t \<longleftrightarrow> (arch t = X86_64 \<longrightarrow> sse2 t)
     \<and> (arch t \<in> {Loongarch64, Powerpc, S390x, Arm} \<longrightarrow> \<not> nightly t)"

lemma apply_mask_eq: "phase_kept t \<Longrightarrow> apply_mask t addr data m = mask_from m 0 data"
  by (auto simp: apply_mask_def phase_kept_def apply_mask_avx512_eq apply_mask_avx2_eq apply_mask_sse2_eq
      apply_mask_blocks_eq apply_mask_loongarch_def apply_mask_altivec_def apply_mask_s390x_def
      apply_mask_arm_neon_def apply_mask_scalar_def apply_mask_scalar_offset_eq split: target_arch.splits)

lemma bit_be_nat_rev:
  "bit (be_nat (rev bs)) n \<longleftrightarrow> n div 8 < length bs \<and> bit (bs ! (n div 8)) (n mod 8)"
proof (induction bs arbitrary: n)
  case (Cons b bs)
  have "bit (be_nat (rev (b # bs))) n = (if n < 8 then bit (unat b) n else bit (be_nat (rev bs)) (n - 8))"
    by (simp add: be_nat_snoc bit_shift_add)
  also have "\<dots> \<longleftrightarrow> n div 8 < length (b # bs) \<and> bit ((b # bs) ! (n div 8)) (n mod 8)"
  proof (cases "n < 8")
    case True
    then show ?thesis by (simp add: bit_unsigned_iff)
  next
    case False
    then obtain k where "n = k + 8" by (metis add.commute le_iff_add not_less)
    moreover have "(k + 8) div 8 = Suc (k div 8)" by simp
    ultimately show ?thesis by (simp only: Cons) simp
  qed
  finally show ?case .
qed simp

lemma bit_word_of_nat_iff': "bit (of_nat x :: 'w::len word) n \<longleftrightarrow> n < LENGTH('w) \<and> bit x n"
  by (simp add: bit_of_nat_iff)

lemma bit_from_le_u32:
  "length bs = 4 \<Longrightarrow> bit (from_ne_bytes True bs :: u32) n \<longleftrightarrow> n < 32 \<and> bit (bs ! (n div 8)) (n mod 8)"
  by (auto simp: from_ne_bytes_def bit_word_of_nat_iff' bit_be_nat_rev)

lemma rotr_le_bytes:
  assumes "length bs = 4"
  shows "word_rotr (k * 8) (from_ne_bytes True bs :: u32) = from_ne_bytes True (rotate k bs)"
proof (rule bit_word_eqI)
  fix n assume "n < LENGTH(32)"
  then have n: "n < 32" by simp
  have "(n + k * 8) mod (8 * 4) = 8 * ((n + k * 8) div 8 mod 4) + (n + k * 8) mod 8"
    by (rule mod_mult2_eq)
  then have e: "(n + k * 8) mod 32 = 8 * ((k + n div 8) mod 4) + n mod 8" by simp
  have pos: "(n + k * 8) mod 32 div 8 = (k + n div 8) mod 4" "(n + k * 8) mod 32 mod 8 = n mod 8"
    unfolding e by simp_all
  have "bit (word_rotr (k * 8) (from_ne_bytes True bs :: u32)) n \<longleftrightarrow> bit (from_ne_bytes True bs :: u32) ((n + k * 8) mod 32)"
    using n by (simp add: bit_word_rotr_iff)
  also have "\<dots> \<longleftrightarrow> bit (bs ! ((k + n div 8) mod 4)) (n mod 8)"
    by (simp only: bit_from_le_u32 [OF assms] pos) simp
  also have "\<dots> \<longleftrightarrow> bit (from_ne_bytes True (rotate k bs) :: u32) n"
    using n assms by (simp add: bit_from_le_u32 nth_rotate)
  finally show "bit (word_rotr (k * 8) (from_ne_bytes True bs :: u32)) n
      = bit (from_ne_bytes True (rotate k bs) :: u32) n" .
qed

lemma rotated_le_mask_eq: "rotated_le_mask m k = rotate_mask m k"
proof -
  have at: "mask_bytes m ! i = mask_at m i" if "i < 4" for i
    using that by (cases m) (auto simp: nth_Cons split: nat.split)
  have len: "length (mask_bytes m) = 4" by (cases m) simp
  have "to_ne_bytes True (word_rotr (k * 8) (from_ne_bytes True (mask_bytes m) :: u32)) = rotate k (mask_bytes m)"
    using len by (simp only: rotr_le_bytes) (rule ne_bytes_roundtrip, simp_all)
  moreover have "rotate k (mask_bytes m) ! i = mask_at m (k + i)" if "i < 4" for i
    using that by (simp add: len nth_rotate at)
  ultimately show ?thesis by (simp add: rotated_le_mask_def rotate_mask_def)
qed

lemma apply_mask_offset_eq: "phase_kept t \<Longrightarrow> apply_mask_offset t addr data m offset = mask_from m offset data"
  by (simp add: apply_mask_offset_def apply_mask_eq rotated_le_mask_eq mask_from_rotate)

text \<open>The \<^verbatim>\<open>align_to_mut\<close> kernels restart the key after the prefix.\<close>

lemma mask_aligned_parts_eq:
  assumes w: "0 < width" "4 dvd width"
  shows "mask_aligned_parts le width align addr data m =
     (let off = min ((align - addr mod align) mod align) (length data)
      in mask_from m 0 (take off data) @ mask_from m 0 (drop off data))"
proof (cases "length data < (align - addr mod align) mod align")
  case True
  then show ?thesis
    by (simp add: mask_aligned_parts_def align_to_def apply_mask_scalar_def apply_mask_scalar_offset_eq)
next
  case False
  define off where "off = (align - addr mod align) mod align"
  have "concat (map (xor_lanes le m) (chunks width (drop off data))) @ mask_from m 0 (chunks_rest width (drop off data))
      = mask_from m 0 (drop off data)"
    using vector_body_eq [OF w, of le m 0 "drop off data"] by simp
  then show ?thesis using False
    by (auto simp: mask_aligned_parts_def align_to_def apply_mask_scalar_def apply_mask_scalar_offset_eq
        off_def [symmetric] Let_def)
qed

section \<open>Masking while copying\<close>

text \<open>The encoder masks the payload while it copies it (\<^verbatim>\<open>src/frame.rs\<close>).\<close>

definition copy_mask_block :: "bool \<Rightarrow> bytes \<Rightarrow> u64 \<Rightarrow> bytes" where
  "copy_mask_block le src key = xor_words le key (fst (as_chunks 8 src))"

text \<open>\<^verbatim>\<open>u64::from(mask_u32) | (u64::from(mask_u32) << 32)\<close>.\<close>

definition doubled_key :: "bool \<Rightarrow> mask4 \<Rightarrow> u64" where
  "doubled_key le m =
     (let mask_u32 = (from_ne_bytes le (mask_bytes m) :: u32)
      in ucast mask_u32 OR push_bit 32 (ucast mask_u32))"

text \<open>\<^verbatim>\<open>if let Some((src, rest)) = src_tail.split_first_chunk::<N>()\<close>.\<close>

definition copy_first_chunk :: "bool \<Rightarrow> u64 \<Rightarrow> nat \<Rightarrow> bytes \<times> bytes \<Rightarrow> bytes \<times> bytes" where
  "copy_first_chunk le key n = (\<lambda>(out, tail).
     if n \<le> length tail then (out @ copy_mask_block le (take n tail) key, drop n tail)
     else (out, tail))"

definition copy_mask_words :: "bool \<Rightarrow> bytes \<Rightarrow> mask4 \<Rightarrow> bytes" where
  "copy_mask_words le src m =
     (let key = doubled_key le m;
          (blocks, src_tail) = as_chunks 64 src;
          out = concat (map (\<lambda>b. copy_mask_block le b key) blocks);
          (out, src_tail) = copy_first_chunk le key 32 (out, src_tail);
          (out, src_tail) = copy_first_chunk le key 16 (out, src_tail);
          (out, src_tail) = copy_first_chunk le key 8 (out, src_tail);
          (src_words, src_tail) = as_chunks 4 src_tail
      in out
         @ concat (map (\<lambda>w. to_ne_bytes le (from_ne_bytes le w XOR from_ne_bytes le (mask_bytes m) :: u32)) src_words)
         @ map (\<lambda>(i, b). b XOR mask_at m i) (enumerate 0 src_tail))"

definition copy_mask_long :: "bool \<Rightarrow> bytes \<Rightarrow> mask4 \<Rightarrow> bytes" where
  "copy_mask_long le src m =
     (let key = doubled_key le m;
          (blocks, src_tail) = as_chunks 256 src
      in concat (map (\<lambda>b. copy_mask_block le b key) blocks) @ copy_mask_words le src_tail m)"

definition encode_payload_masked_inline :: "bool \<Rightarrow> bytes \<Rightarrow> mask4 \<Rightarrow> bytes" where
  "encode_payload_masked_inline le src m =
     (if 256 \<le> length src then copy_mask_long le src m else copy_mask_words le src m)"

lemma doubled_key_eq: "doubled_key le m = mask_u64_of le m"
proof -
  obtain a b c d where m: "m = (a, b, c, d)" by (cases m)
  define w where "w = (from_ne_bytes le (mask_bytes m) :: u32)"
  have wn: "unat w = be_nat (if le then [d, c, b, a] else [a, b, c, d])"
    using be_nat_bound [of "[d, c, b, a]"] be_nat_bound [of "[a, b, c, d]"]
    by (simp add: w_def from_ne_bytes_def m unat_of_nat del: be_nat.simps)
  have w32: "unat w < 2 ^ 32" using unsigned_less [of w, where ?'a = nat] by simp
  have "(ucast w :: u64) AND push_bit 32 (ucast w) = 0"
    by (rule bit_word_eqI) (auto simp: bit_simps dest: bit_imp_le_length)
  then have "ucast w OR push_bit 32 (ucast w) = (ucast w + push_bit 32 (ucast w) :: u64)"
    by (simp add: disjunctive_add_eq_or)
  also have "\<dots> = of_nat (unat w) + 2 ^ 32 * of_nat (unat w)"
    by (simp add: push_bit_eq_mult unsigned_ucast_eq mult.commute)
  also have "\<dots> = of_nat (be_nat ((if le then [d, c, b, a] else [a, b, c, d]) @ (if le then [d, c, b, a] else [a, b, c, d])))"
    by (simp add: wn be_nat_append algebra_simps del: be_nat.simps append.simps)
  finally have "doubled_key le m = of_nat (be_nat ((if le then [d, c, b, a] else [a, b, c, d]) @ (if le then [d, c, b, a] else [a, b, c, d])))"
    by (simp only: doubled_key_def w_def [symmetric] Let_def)
  then show ?thesis by (cases le) (simp_all add: mask_u64_of_def from_ne_bytes_def m del: be_nat.simps)
qed

lemma copy_mask_block_eq: "8 dvd length src \<Longrightarrow> copy_mask_block le src (doubled_key le m) = mask_from m 0 src"
proof -
  assume "8 dvd length src"
  then have "chunks_rest 8 src = []" using chunks_rest_length [of 8 src] by simp
  then show ?thesis
    using xor_words_eq [of le m 0 src] by (simp add: copy_mask_block_def as_chunks_def doubled_key_eq)
qed

lemma copy_first_chunk_eq:
  assumes "copy_first_chunk le (doubled_key le m) n (out, tail) = (out', tail')" and "8 dvd n"
  shows "out' @ mask_from m 0 tail' = out @ mask_from m 0 tail"
proof (cases "n \<le> length tail")
  case True
  have "mask_from m 0 (take n tail @ drop n tail) = mask_from m 0 (take n tail) @ mask_from m (0 + n) (drop n tail)"
    using True by (simp only: mask_from_append length_take min_absorb2)
  also have "mask_from m (0 + n) (drop n tail) = mask_from m 0 (drop n tail)"
    using assms(2) by (intro mask_from_add4) presburger
  finally show ?thesis using assms True by (auto simp: copy_first_chunk_def copy_mask_block_eq)
next
  case False
  with assms show ?thesis by (simp add: copy_first_chunk_def)
qed

lemma copy_mask_words_eq: "copy_mask_words le src m = mask_from m 0 src"
proof -
  let ?k = "doubled_key le m"
  define out0 where "out0 = concat (map (\<lambda>b. copy_mask_block le b ?k) (chunks 64 src))"
  have 0: "out0 @ mask_from m 0 (chunks_rest 64 src) = mask_from m 0 src"
    unfolding out0_def by (rule chunked_mask) (auto simp: copy_mask_block_eq)
  obtain o1 t1 where 1: "copy_first_chunk le ?k 32 (out0, chunks_rest 64 src) = (o1, t1)" by fastforce
  obtain o2 t2 where 2: "copy_first_chunk le ?k 16 (o1, t1) = (o2, t2)" by fastforce
  obtain o3 t3 where 3: "copy_first_chunk le ?k 8 (o2, t2) = (o3, t3)" by fastforce
  have chain: "o3 @ mask_from m 0 t3 = mask_from m 0 src"
    using 0 copy_first_chunk_eq [OF 1] copy_first_chunk_eq [OF 2] copy_first_chunk_eq [OF 3] by simp
  have words: "concat (map (\<lambda>w. to_ne_bytes le (from_ne_bytes le w XOR from_ne_bytes le (mask_bytes m) :: u32)) (chunks 4 t3))
      @ mask_from m 0 (chunks_rest 4 t3) = mask_from m 0 t3"
    by (rule chunked_mask) (auto simp: xor_lane_eq [where k = 0, simplified])
  have bytes: "map (\<lambda>(i, b). b XOR mask_at m i) (enumerate 0 r) = mask_from m 0 r" for r
    by (rule nth_equalityI) (auto simp: nth_mask_from nth_enumerate_eq)
  show ?thesis
    using words chain
    by (simp add: copy_mask_words_def as_chunks_def out0_def [symmetric] 1 2 3 bytes)
qed

lemma copy_mask_long_eq: "copy_mask_long le src m = mask_from m 0 src"
proof -
  have "concat (map (\<lambda>b. copy_mask_block le b (doubled_key le m)) (chunks 256 src)) @ mask_from m 0 (chunks_rest 256 src)
      = mask_from m 0 src"
    by (rule chunked_mask) (auto simp: copy_mask_block_eq)
  then show ?thesis by (simp add: copy_mask_long_def as_chunks_def copy_mask_words_eq)
qed

lemma encode_payload_masked_inline_eq: "encode_payload_masked_inline le src m = mask_from m 0 src"
  by (simp add: encode_payload_masked_inline_def copy_mask_long_eq copy_mask_words_eq)


section \<open>The contract of a masking kernel\<close>

text \<open>
  What the frame code relies on, whichever kernel runs: masking twice gives the data back,
  the length is kept, and a payload may be masked in pieces if the key is rotated by the
  number of bytes already done.
\<close>

locale mask_kernel =
  fixes kernel :: "mask4 \<Rightarrow> bytes \<Rightarrow> bytes"
  assumes kernel_eq: "kernel m bs = mask_from m 0 bs"
begin

lemma involution: "kernel m (kernel m bs) = bs"
  by (simp add: kernel_eq)

lemma length_kernel: "length (kernel m bs) = length bs"
  by (simp add: kernel_eq)

lemma in_pieces: "kernel m (xs @ ys) = kernel m xs @ kernel (rotate_mask m (length xs)) ys"
  by (simp add: kernel_eq mask_from_append mask_from_rotate)

end

interpretation scalar: mask_kernel "\<lambda>m bs. apply_mask_scalar le addr bs m" for le addr
  by unfold_locales (simp add: apply_mask_scalar_def apply_mask_scalar_offset_eq)

interpretation blocks: mask_kernel "\<lambda>m bs. apply_mask_blocks le addr bs m" for le addr
  by unfold_locales (rule apply_mask_blocks_eq)

interpretation avx512: mask_kernel "\<lambda>m bs. apply_mask_avx512_aligned addr bs m" for addr
  by unfold_locales (rule apply_mask_avx512_eq)

interpretation avx2: mask_kernel "\<lambda>m bs. apply_mask_avx2_aligned addr bs m" for addr
  by unfold_locales (rule apply_mask_avx2_eq)

interpretation sse2: mask_kernel "\<lambda>m bs. apply_mask_sse2_aligned addr bs m" for addr
  by unfold_locales (rule apply_mask_sse2_eq)

interpretation copying: mask_kernel "\<lambda>m bs. encode_payload_masked_inline le bs m" for le
  by unfold_locales (rule encode_payload_masked_inline_eq)

section \<open>Properties\<close>



definition generic_be_target :: target where
  "generic_be_target = \<lparr>arch = Other_arch, little_endian = False, nightly = False, avx512f = False,
     avx512bw = False, avx2 = False, sse2 = False, lasx = False, lsx = False, neon = False\<rparr>"


text \<open>
  C17. A payload masked by the copying encoder of one host is recovered by the kernel of
  another host whose target keeps the key phase (\<open>phase_kept\<close>, so not by the nightly \<^verbatim>\<open>align_to_mut\<close>
  kernels), although the two hosts may differ in architecture, byte order and buffer address, and
  also when the receiver unmasks it in two pieces, passing the number of bytes already done as
  the offset.
\<close>

theorem mask_unmask_pieces:
  assumes "phase_kept t"
  shows "apply_mask_offset t addr (take k (encode_payload_masked_inline le data m)) m 0
       @ apply_mask_offset t addr' (drop k (encode_payload_masked_inline le data m)) m k = data"
proof -
  have "mask_from m 0 (take k xs) @ mask_from m k (drop k xs) = mask_from m 0 xs" for xs
  proof (cases "k \<le> length xs")
    case True
    then show ?thesis using mask_from_append [of m 0 "take k xs" "drop k xs"] by simp
  qed simp
  then show ?thesis by (simp add: apply_mask_offset_eq [OF assms] encode_payload_masked_inline_eq)
qed

theorem mask_unmask_pieces_witness:
  "apply_mask_offset generic_be_target 1 (take 2 (encode_payload_masked_inline True [1, 2, 3] (7, 8, 9, 10))) (7, 8, 9, 10) 0
     @ apply_mask_offset generic_be_target 5 (drop 2 (encode_payload_masked_inline True [1, 2, 3] (7, 8, 9, 10))) (7, 8, 9, 10) 2
   = [1, 2, 3]"
  by (rule mask_unmask_pieces) (simp add: phase_kept_def generic_be_target_def)

text \<open>
  C18. The kernels that split the data with \<^verbatim>\<open>align_to_mut\<close> start the key again at its first
  byte after the unaligned prefix, so with a prefix whose length is not a multiple of four they
  do not compute the RFC 6455 masking: behind a prefix of \<open>p\<close> bytes the next byte is combined with
  the first key byte, where the masking needs key byte \<open>p mod 4\<close>.
\<close>

theorem align_to_kernels_restart_key:
  assumes "width \<in> {16, 32}" and "p = (align - addr mod align) mod align" and "p < length data"
  shows "mask_aligned_parts le width align addr data (a, b, c, d) ! p = data ! p XOR a
    \<and> mask_from (a, b, c, d) 0 data ! p = data ! p XOR mask_at (a, b, c, d) (p mod 4)"
proof -
  from assms(1) have w: "0 < width" "4 dvd width" by auto
  with assms(2,3) have
    "mask_aligned_parts le width align addr data (a, b, c, d)
       = mask_from (a, b, c, d) 0 (take p data) @ mask_from (a, b, c, d) 0 (drop p data)"
    by (simp add: mask_aligned_parts_eq Let_def)
  with assms(3) show ?thesis by (simp add: nth_append nth_mask_from)
qed

theorem align_to_kernels_restart_key_witness:
  "mask_aligned_parts True 16 16 15 [0, 0] (1, 2, 3, 4) ! 1 = 1
    \<and> mask_from (1, 2, 3, 4) 0 [0, 0] ! 1 = 2"
  using align_to_kernels_restart_key [of 16 1 16 15 "[0, 0]" True 1 2 3 4] by simp

end
