(* ===== verification/WS_Utf8.thy ===== *)
theory WS_Utf8
  imports WS_Prelude
begin

text \<open>
  UTF-8 validation, \<^verbatim>\<open>src/utf8.rs\<close>. The definition of well-formed UTF-8 (the model of
  \<^verbatim>\<open>std::str::from_utf8\<close>) is a grammar on bytes, shown to accept exactly the concatenations of
  encoded scalar values. A recogniser that keeps at most one pending sequence is the abstract
  machine; the incremental validator \<^verbatim>\<open>Utf8Stream\<close> is a refinement of it whatever the
  chunks, and \<^verbatim>\<open>validate_utf8_incomplete\<close> is compared with it. The crate \<^verbatim>\<open>simdutf8\<close> is a
  parameter with its documented contract as the locale \<open>utf8_validator\<close>.
\<close>

section \<open>Well-formed UTF-8\<close>

definition is_cont :: "byte \<Rightarrow> bool" where
  "is_cont b \<longleftrightarrow> 0x80 \<le> b \<and> b \<le> 0xBF"

definition second_ok :: "byte \<Rightarrow> byte \<Rightarrow> bool" where
  "second_ok l b \<longleftrightarrow>
     (if l = 0xE0 then 0xA0 \<le> b \<and> b \<le> 0xBF
      else if l = 0xED then 0x80 \<le> b \<and> b \<le> 0x9F
      else if l = 0xF0 then 0x90 \<le> b \<and> b \<le> 0xBF
      else if l = 0xF4 then 0x80 \<le> b \<and> b \<le> 0x8F
      else is_cont b)"

fun utf8_seq :: "bytes \<Rightarrow> bool" where
  "utf8_seq [a] = (a < 0x80)"
| "utf8_seq [a, b] = (0xC2 \<le> a \<and> a \<le> 0xDF \<and> second_ok a b)"
| "utf8_seq [a, b, c] = (0xE0 \<le> a \<and> a \<le> 0xEF \<and> second_ok a b \<and> is_cont c)"
| "utf8_seq [a, b, c, d] = (0xF0 \<le> a \<and> a \<le> 0xF4 \<and> second_ok a b \<and> is_cont c \<and> is_cont d)"
| "utf8_seq _ = False"

fun utf8_valid :: "bytes \<Rightarrow> bool" where
  "utf8_valid [] = True"
| "utf8_valid (a # bs) =
     (if a < 0x80 then utf8_valid bs
      else if a < 0xE0 then
        (case bs of b # bs' \<Rightarrow> utf8_seq [a, b] \<and> utf8_valid bs' | _ \<Rightarrow> False)
      else if a < 0xF0 then
        (case bs of b # c # bs' \<Rightarrow> utf8_seq [a, b, c] \<and> utf8_valid bs' | _ \<Rightarrow> False)
      else
        (case bs of b # c # d # bs' \<Rightarrow> utf8_seq [a, b, c, d] \<and> utf8_valid bs' | _ \<Rightarrow> False))"

text \<open>The scalar values and their encoding.\<close>

definition is_scalar :: "nat \<Rightarrow> bool" where
  "is_scalar c \<longleftrightarrow> c < 0xD800 \<or> (0xE000 \<le> c \<and> c \<le> 0x10FFFF)"

definition encode_utf8 :: "nat \<Rightarrow> bytes" where
  "encode_utf8 c =
     (if c < 0x80 then [of_nat c]
      else if c < 0x800 then [of_nat (0xC0 + c div 64), of_nat (0x80 + c mod 64)]
      else if c < 0x10000 then
        [of_nat (0xE0 + c div 4096), of_nat (0x80 + c div 64 mod 64), of_nat (0x80 + c mod 64)]
      else [of_nat (0xF0 + c div 262144), of_nat (0x80 + c div 4096 mod 64),
            of_nat (0x80 + c div 64 mod 64), of_nat (0x80 + c mod 64)])"

section \<open>The recogniser with one pending sequence\<close>

fun utf8_step :: "bytes \<Rightarrow> byte \<Rightarrow> bytes option" where
  "utf8_step [] b = (if b < 0x80 then Some [] else if 0xC2 \<le> b \<and> b \<le> 0xF4 then Some [b] else None)"
| "utf8_step [l] b = (if second_ok l b then Some (if l < 0xE0 then [] else [l, b]) else None)"
| "utf8_step [l, s] b = (if is_cont b then Some (if l < 0xF0 then [] else [l, s, b]) else None)"
| "utf8_step [l, s, t] b = (if is_cont b then Some [] else None)"
| "utf8_step _ b = None"

fun utf8_run :: "bytes \<Rightarrow> bytes \<Rightarrow> bytes option" where
  "utf8_run p [] = Some p"
| "utf8_run p (b # bs) = (case utf8_step p b of None \<Rightarrow> None | Some q \<Rightarrow> utf8_run q bs)"

lemma utf8_run_append:
  "utf8_run p (xs @ ys) = (case utf8_run p xs of None \<Rightarrow> None | Some q \<Rightarrow> utf8_run q ys)"
  by (induction xs arbitrary: p) (auto split: option.splits)

lemmas utf8_cmp = is_cont_def second_ok_def word_le_nat_alt word_less_nat_alt

lemma utf8_valid_run: "utf8_valid bs \<longleftrightarrow> utf8_run [] bs = Some []"
proof (induction bs rule: utf8_valid.induct)
  case (2 a bs)
  have lt: "a < 0x80 \<Longrightarrow> ?case" using 2(1) by auto
  consider (one) "a < 0x80" | (two) "\<not> a < 0x80" "a < 0xE0" | (three) "\<not> a < 0xE0" "a < 0xF0" | (four) "\<not> a < 0xF0" by force
  then show ?case
  proof cases
    case two
    show ?thesis
    proof (cases bs)
      case (Cons b bs')
      then show ?thesis using 2(2)[OF two(1,2) Cons] two by (auto simp: utf8_cmp)
    qed (use two in \<open>auto\<close>)
  next
    case three
    have na: "\<not> a < 0x80" using three by (simp add: utf8_cmp)
    show ?thesis
    proof (cases "\<exists>b c bs'. bs = b # c # bs'")
      case True
      then obtain b c bs' where bs: "bs = b # c # bs'" by blast
      then show ?thesis using 2(3)[OF na three, of b "c # bs'" c bs'] three na by (auto simp: utf8_cmp)
    next
      case False
      then show ?thesis using three na by (cases bs; cases "tl bs") (auto simp: utf8_cmp split: list.splits)
    qed
  next
    case four
    have na: "\<not> a < 0x80" "\<not> a < 0xE0" using four by (simp_all add: utf8_cmp)
    show ?thesis
    proof (cases "\<exists>b c d bs'. bs = b # c # d # bs'")
      case True
      then obtain b c d bs' where bs: "bs = b # c # d # bs'" by blast
      then show ?thesis using 2(4)[OF na four, of b "c # d # bs'" c "d # bs'" d bs'] four na by (auto simp: utf8_cmp)
    next
      case False
      then show ?thesis using four na
        by (cases bs; cases "tl bs"; cases "tl (tl bs)") (auto simp: utf8_cmp split: list.splits)
    qed
  qed (use lt in simp)
qed simp

lemma utf8_valid_seq_append: "utf8_seq s \<Longrightarrow> utf8_valid (s @ bs) \<longleftrightarrow> utf8_valid bs"
  by (cases s rule: utf8_seq.cases) (auto simp: utf8_cmp)

lemma utf8_valid_decompose:
  "utf8_valid bs \<Longrightarrow> bs \<noteq> [] \<Longrightarrow> \<exists>s r. bs = s @ r \<and> utf8_seq s \<and> utf8_valid r"
proof (cases bs)
  case (Cons a xs)
  assume v: "utf8_valid bs"
  consider (one) "a < 0x80" | (two) "\<not> a < 0x80" "a < 0xE0"
    | (three) "\<not> a < 0x80" "\<not> a < 0xE0" "a < 0xF0"
    | (four) "\<not> a < 0x80" "\<not> a < 0xE0" "\<not> a < 0xF0" by blast
  then show ?thesis
  proof cases
    case one
    with v Cons show ?thesis by (intro exI [of _ "[a]"] exI [of _ xs]) simp
  next
    case two
    with v Cons obtain b r where "xs = b # r" "utf8_seq [a, b]" "utf8_valid r"
      by (auto split: list.splits)
    then show ?thesis using Cons by (intro exI [of _ "[a, b]"] exI [of _ r]) simp
  next
    case three
    with v Cons obtain b c r where "xs = b # c # r" "utf8_seq [a, b, c]" "utf8_valid r"
      by (auto split: list.splits)
    then show ?thesis using Cons by (intro exI [of _ "[a, b, c]"] exI [of _ r]) simp
  next
    case four
    with v Cons obtain b c d r where "xs = b # c # d # r" "utf8_seq [a, b, c, d]" "utf8_valid r"
      by (auto split: list.splits)
    then show ?thesis using Cons by (intro exI [of _ "[a, b, c, d]"] exI [of _ r]) simp
  qed
qed simp

lemma utf8_valid_append: "utf8_valid xs \<Longrightarrow> utf8_valid (xs @ ys) \<longleftrightarrow> utf8_valid ys"
  by (simp add: utf8_valid_run utf8_run_append)

lemma utf8_valid_seqs:
  "utf8_valid bs \<longleftrightarrow> (\<exists>ss. bs = concat ss \<and> (\<forall>s\<in>set ss. utf8_seq s))"
proof
  show "utf8_valid bs \<Longrightarrow> \<exists>ss. bs = concat ss \<and> (\<forall>s\<in>set ss. utf8_seq s)"
  proof (induction bs rule: length_induct)
    case (1 bs)
    show ?case
    proof (cases "bs = []")
      case False
      with 1(2) obtain s r where sr: "bs = s @ r" "utf8_seq s" "utf8_valid r"
        using utf8_valid_decompose by blast
      then have "length r < length bs" by (cases s) auto
      with sr(3) 1(1) obtain ss where "r = concat ss" "\<forall>s\<in>set ss. utf8_seq s" by blast
      with sr show ?thesis by (intro exI [of _ "s # ss"]) simp
    qed (auto intro: exI [of _ "[]"])
  qed
next
  assume "\<exists>ss. bs = concat ss \<and> (\<forall>s\<in>set ss. utf8_seq s)"
  then obtain ss where "bs = concat ss" "\<forall>s\<in>set ss. utf8_seq s" by blast
  then show "utf8_valid bs"
    by (induction ss arbitrary: bs) (auto simp: utf8_valid_seq_append)
qed

lemma byte_of_natI: "unat b = n \<Longrightarrow> b = of_nat n" for b :: byte
  by auto

lemma base64_digits:
  fixes c :: nat
  shows "c = c div 64 * 64 + c mod 64"
    and "c = c div 4096 * 4096 + (c div 64 mod 64 * 64 + c mod 64)"
    and "c = c div 262144 * 262144 + (c div 4096 mod 64 * 4096 + (c div 64 mod 64 * 64 + c mod 64))"
proof -
  have d: "c div 4096 = c div 64 div 64" "c div 262144 = c div 64 div 64 div 64"
    by (simp_all flip: div_mult2_eq)
  have m: "n = n div 64 * 64 + n mod 64" for n :: nat by simp
  show "c = c div 64 * 64 + c mod 64" by (rule m)
  show "c = c div 4096 * 4096 + (c div 64 mod 64 * 64 + c mod 64)"
    using m [of c] m [of "c div 64"] unfolding d by linarith
  show "c = c div 262144 * 262144 + (c div 4096 mod 64 * 4096 + (c div 64 mod 64 * 64 + c mod 64))"
    using m [of c] m [of "c div 64"] m [of "c div 64 div 64"] unfolding d by linarith
qed

lemma of_digits:
  fixes q r s t :: nat
  assumes "r < 64" "s < 64" "t < 64"
  shows "(q * 64 + t) div 64 = q" "(q * 64 + t) mod 64 = t"
    "(q * 4096 + (s * 64 + t)) div 4096 = q" "(q * 4096 + (s * 64 + t)) div 64 mod 64 = s"
    "(q * 4096 + (s * 64 + t)) mod 64 = t"
    "(q * 262144 + (r * 4096 + (s * 64 + t))) div 262144 = q"
    "(q * 262144 + (r * 4096 + (s * 64 + t))) div 4096 mod 64 = r"
    "(q * 262144 + (r * 4096 + (s * 64 + t))) div 64 mod 64 = s"
    "(q * 262144 + (r * 4096 + (s * 64 + t))) mod 64 = t"
proof -
  have e: "q * 4096 + (s * 64 + t) = (q * 64 + s) * 64 + t"
    "q * 262144 + (r * 4096 + (s * 64 + t)) = ((q * 64 + r) * 64 + s) * 64 + t" by simp_all
  have d: "n div 4096 = n div 64 div 64" "n div 262144 = n div 64 div 64 div 64" for n :: nat
    by (simp_all flip: div_mult2_eq)
  have b: "(x * 64 + y) div 64 = x" "(x * 64 + y) mod 64 = y" if "y < 64" for x y :: nat
    using that by simp_all
  show "(q * 64 + t) div 64 = q" "(q * 64 + t) mod 64 = t"
    "(q * 4096 + (s * 64 + t)) div 4096 = q" "(q * 4096 + (s * 64 + t)) div 64 mod 64 = s"
    "(q * 4096 + (s * 64 + t)) mod 64 = t"
    "(q * 262144 + (r * 4096 + (s * 64 + t))) div 262144 = q"
    "(q * 262144 + (r * 4096 + (s * 64 + t))) div 4096 mod 64 = r"
    "(q * 262144 + (r * 4096 + (s * 64 + t))) div 64 mod 64 = s"
    "(q * 262144 + (r * 4096 + (s * 64 + t))) mod 64 = t"
    unfolding e d by (simp_all only: b assms)
qed

lemmas utf8_nat = is_cont_def second_ok_def word_le_nat_alt word_less_nat_alt word_unat_eq_iff

lemma encode_utf8_seq: "is_scalar c \<Longrightarrow> utf8_seq (encode_utf8 c)"
proof -
  assume c: "is_scalar c"
  consider "c < 0x80" | "0x80 \<le> c" "c < 0x800" | "0x800 \<le> c" "c < 0x10000"
    | "0x10000 \<le> c" by (metis not_le_imp_less)
  then show ?thesis
  proof cases
    case 1
    then show ?thesis by (simp add: encode_utf8_def utf8_cmp unat_of_nat)
  next
    case 2
    define q s where qs: "q = c div 64" "s = c mod 64"
    have "s < 64" "c = q * 64 + s" using base64_digits(1) [of c] qs by simp_all
    then have "2 \<le> q" "q < 32" "s < 64" using 2 by linarith+
    then show ?thesis using 2 by (auto simp: encode_utf8_def utf8_nat unat_of_nat simp flip: qs simp del: of_nat_add)
  next
    case 3
    define q r s where qs: "q = c div 4096" "r = c div 64 mod 64" "s = c mod 64"
    have b: "r < 64" "s < 64" "c = q * 4096 + (r * 64 + s)" using base64_digits(2) [of c] qs by simp_all
    have "c < 0xD800 \<or> 0xE000 \<le> c" using c 3 by (auto simp: is_scalar_def)
    with b have d: "q = 13 \<Longrightarrow> r < 32" by linarith
    have "q < 16" "q = 0 \<Longrightarrow> 32 \<le> r" using b 3 by linarith+
    then show ?thesis using 3 b(1,2) d
      by (auto simp: encode_utf8_def utf8_nat unat_of_nat simp flip: qs simp del: of_nat_add)
  next
    case 4
    define p q r s where qs: "p = c div 262144" "q = c div 4096 mod 64" "r = c div 64 mod 64" "s = c mod 64"
    have b: "q < 64" "r < 64" "s < 64" "c = p * 262144 + (q * 4096 + (r * 64 + s))"
      using base64_digits(3) [of c] qs by simp_all
    have "c \<le> 0x10FFFF" using c 4 by (auto simp: is_scalar_def)
    with b 4 have "p < 5" "p = 0 \<Longrightarrow> 16 \<le> q" "p = 4 \<Longrightarrow> q < 16" by linarith+
    then show ?thesis using 4 b(1-3)
      by (auto simp: encode_utf8_def utf8_nat unat_of_nat simp flip: qs simp del: of_nat_add)
  qed
qed

lemma utf8_seq_encode: "utf8_seq s \<Longrightarrow> \<exists>c. is_scalar c \<and> s = encode_utf8 c"
proof (cases s rule: utf8_seq.cases)
  case (1 a)
  assume "utf8_seq s"
  with 1 show ?thesis by (intro exI [of _ "unat a"]) (auto simp: utf8_cmp is_scalar_def encode_utf8_def)
next
  case (2 a b)
  assume s: "utf8_seq s"
  define q t where qt: "q = unat a - 0xC0" "t = unat b - 0x80"
  have u: "unat a = 0xC0 + q" "unat b = 0x80 + t" and r: "2 \<le> q" "q < 32" "t < 64"
    using s 2 unfolding qt by (auto simp: utf8_nat split: if_splits)
  have "encode_utf8 (q * 64 + t) = [of_nat (unat a), of_nat (unat b)]"
    using r unfolding u encode_utf8_def by (simp only: of_digits [OF r(3,3,3)]) simp
  then show ?thesis using 2 r by (intro exI [of _ "q * 64 + t"]) (simp add: is_scalar_def)
next
  case (3 a b d)
  assume s: "utf8_seq s"
  define q v t where qt: "q = unat a - 0xE0" "v = unat b - 0x80" "t = unat d - 0x80"
  have u: "unat a = 0xE0 + q" "unat b = 0x80 + v" "unat d = 0x80 + t"
    and r: "q < 16" "v < 64" "t < 64" "q = 0 \<Longrightarrow> 32 \<le> v" "q = 13 \<Longrightarrow> v < 32"
    using s 3 unfolding qt by (auto simp: utf8_nat split: if_splits)
  define c where "c = q * 4096 + (v * 64 + t)"
  have c: "0x800 \<le> c" "c < 0x10000"
    using r unfolding c_def by linarith+
  have cs: "c < 0xD800 \<or> 0xE000 \<le> c"
  proof (cases "q \<le> 13")
    case True
    then have "c < 0xD800" using r unfolding c_def by linarith
    then show ?thesis ..
  next
    case False
    then have "0xE000 \<le> c" unfolding c_def by linarith
    then show ?thesis ..
  qed
  have "encode_utf8 c = [of_nat (unat a), of_nat (unat b), of_nat (unat d)]"
    using c(1,2) unfolding u encode_utf8_def by (simp add: c_def of_digits [OF r(2,2,3)])
  then show ?thesis using 3 c cs by (intro exI [of _ c]) (simp add: is_scalar_def)
next
  case (4 a b d f)
  assume s: "utf8_seq s"
  define p q v t where qt: "p = unat a - 0xF0" "q = unat b - 0x80" "v = unat d - 0x80" "t = unat f - 0x80"
  have u: "unat a = 0xF0 + p" "unat b = 0x80 + q" "unat d = 0x80 + v" "unat f = 0x80 + t"
    and r: "p < 5" "q < 64" "v < 64" "t < 64" "p = 0 \<Longrightarrow> 16 \<le> q" "p = 4 \<Longrightarrow> q < 16"
    using s 4 unfolding qt by (auto simp: utf8_nat split: if_splits)
  define c where "c = p * 262144 + (q * 4096 + (v * 64 + t))"
  have c: "0x10000 \<le> c" "c \<le> 0x10FFFF"
    using r unfolding c_def by linarith+
  have "encode_utf8 c = [of_nat (unat a), of_nat (unat b), of_nat (unat d), of_nat (unat f)]"
    using c(1) unfolding u encode_utf8_def by (simp add: c_def of_digits [OF r(2,3,4)])
  then show ?thesis using 4 c by (intro exI [of _ c]) (simp add: is_scalar_def)
qed auto

lemma utf8_valid_scalars:
  "utf8_valid bs \<longleftrightarrow> (\<exists>cs. bs = concat (map encode_utf8 cs) \<and> (\<forall>c\<in>set cs. is_scalar c))"
proof
  assume "utf8_valid bs"
  then obtain ss where ss: "bs = concat ss" "\<forall>s\<in>set ss. utf8_seq s" by (auto simp: utf8_valid_seqs)
  then have "\<forall>s\<in>set ss. \<exists>c. is_scalar c \<and> s = encode_utf8 c" using utf8_seq_encode by blast
  then obtain f where "\<forall>s\<in>set ss. is_scalar (f s) \<and> s = encode_utf8 (f s)" by metis
  then have "map encode_utf8 (map f ss) = ss" "\<forall>c\<in>set (map f ss). is_scalar c"
    by (auto simp: map_idI)
  then show "\<exists>cs. bs = concat (map encode_utf8 cs) \<and> (\<forall>c\<in>set cs. is_scalar c)" using ss by metis
next
  assume "\<exists>cs. bs = concat (map encode_utf8 cs) \<and> (\<forall>c\<in>set cs. is_scalar c)"
  then show "utf8_valid bs" unfolding utf8_valid_seqs using encode_utf8_seq
    by (metis (no_types, lifting) imageE list.set_map)
qed

section \<open>The incremental validator\<close>

definition validate_utf8 :: "(bytes \<Rightarrow> bool) \<Rightarrow> bytes \<Rightarrow> bool" where
  "validate_utf8 simdutf8 data = simdutf8 data"

record utf8_stream =
  carry :: bytes
  carry_len :: nat

definition utf8_stream_new :: utf8_stream where
  "utf8_stream_new = \<lparr>carry = [0, 0, 0, 0], carry_len = 0\<rparr>"

definition utf8_reset :: "utf8_stream \<Rightarrow> utf8_stream" where
  "utf8_reset s = s\<lparr>carry_len := 0\<rparr>"

definition utf8_sequence_width :: "byte \<Rightarrow> nat" where
  "utf8_sequence_width lead =
     (if lead \<le> 0x7F then 1
      else if 0xC0 \<le> lead \<and> lead \<le> 0xDF then 2
      else if 0xE0 \<le> lead \<and> lead \<le> 0xEF then 3
      else if 0xF0 \<le> lead \<and> lead \<le> 0xF7 then 4
      else 0)"

definition second_range :: "byte \<Rightarrow> (byte \<times> byte) option" where
  "second_range lead =
     (if 0xC2 \<le> lead \<and> lead \<le> 0xDF then Some (0x80, 0xBF)
      else if lead = 0xE0 then Some (0xA0, 0xBF)
      else if (0xE1 \<le> lead \<and> lead \<le> 0xEC) \<or> (0xEE \<le> lead \<and> lead \<le> 0xEF) then Some (0x80, 0xBF)
      else if lead = 0xED then Some (0x80, 0x9F)
      else if lead = 0xF0 then Some (0x90, 0xBF)
      else if 0xF1 \<le> lead \<and> lead \<le> 0xF3 then Some (0x80, 0xBF)
      else if lead = 0xF4 then Some (0x80, 0x8F)
      else None)"

definition incomplete_prefix_may_be_valid :: "bytes \<Rightarrow> bool" where
  "incomplete_prefix_may_be_valid prefix =
     (case prefix of
        [] \<Rightarrow> True
      | lead # _ \<Rightarrow>
          (case second_range lead of
             None \<Rightarrow> False
           | Some (lo, hi) \<Rightarrow>
               if 1 < length prefix \<and> \<not> (lo \<le> prefix ! 1 \<and> prefix ! 1 \<le> hi) then False
               else list_all (\<lambda>b. 0x80 \<le> b \<and> b \<le> 0xBF) (drop 2 prefix)))"

fun complete_prefix_scan :: "bytes \<Rightarrow> nat list \<Rightarrow> nat" where
  "complete_prefix_scan chunk [] = length chunk"
| "complete_prefix_scan chunk (back # bs) =
     (let n = length chunk; b = chunk ! (n - back) in
      if b < 0x80 then n
      else if b \<ge> 0xC0 then
        let width = utf8_sequence_width b in if width > back then n - back else n
      else complete_prefix_scan chunk bs)"

definition complete_prefix_len :: "bytes \<Rightarrow> nat" where
  "complete_prefix_len chunk = complete_prefix_scan chunk [1..<Suc (min (length chunk) 3)]"

text \<open>\<^verbatim>\<open>xs[i..i + ys.len()].copy_from_slice(ys)\<close>.\<close>

definition copy_from_slice :: "'a list \<Rightarrow> nat \<Rightarrow> 'a list \<Rightarrow> 'a list" where
  "copy_from_slice xs i ys = take i xs @ ys @ drop (i + length ys) xs"

text \<open>The part of \<^verbatim>\<open>push\<close> that runs when no sequence is pending.\<close>

definition push_chunk :: "(bytes \<Rightarrow> bool) \<Rightarrow> utf8_stream \<Rightarrow> bytes \<Rightarrow> bool \<times> utf8_stream" where
  "push_chunk simdutf8 s chunk =
     (let complete = complete_prefix_len chunk in
      if \<not> validate_utf8 simdutf8 (take complete chunk) then (False, s)
      else let tail = drop complete chunk in
        (incomplete_prefix_may_be_valid tail,
         s\<lparr>carry := copy_from_slice (carry s) 0 tail, carry_len := length tail\<rparr>))"

definition utf8_push :: "(bytes \<Rightarrow> bool) \<Rightarrow> utf8_stream \<Rightarrow> bytes \<Rightarrow> bool \<times> utf8_stream" where
  "utf8_push simdutf8 s chunk =
     (if carry_len s > 0 then
        let width = utf8_sequence_width (carry s ! 0);
            have' = carry_len s;
            taken = min (width - have') (length chunk);
            s1 = s\<lparr>carry := copy_from_slice (carry s) have' (take taken chunk), carry_len := have' + taken\<rparr>
        in if carry_len s1 < width
           then (incomplete_prefix_may_be_valid (take (carry_len s1) (carry s1)), s1)
           else if \<not> utf8_valid (take width (carry s1)) then (False, s1)
           else push_chunk simdutf8 (s1\<lparr>carry_len := 0\<rparr>) (drop taken chunk)
      else push_chunk simdutf8 s chunk)"

definition utf8_resume :: "(bytes \<Rightarrow> bool) \<Rightarrow> utf8_stream \<Rightarrow> bytes \<Rightarrow> bool \<times> utf8_stream" where
  "utf8_resume simdutf8 s suffix =
     (if suffix = take (carry_len s) (carry s) then (True, s)
      else utf8_push simdutf8 (utf8_reset s) suffix)"

definition utf8_finish :: "utf8_stream \<Rightarrow> bool" where
  "utf8_finish s \<longleftrightarrow> carry_len s = 0"

definition utf8_pending :: "utf8_stream \<Rightarrow> nat" where
  "utf8_pending s = carry_len s"

section \<open>The incremental validator follows the recogniser\<close>

definition pending_bytes :: "utf8_stream \<Rightarrow> bytes" where
  "pending_bytes s = take (carry_len s) (carry s)"

text \<open>The shape of every state: four bytes of storage and a sequence that is not overfull.\<close>

definition utf8_stream_inv :: "utf8_stream \<Rightarrow> bool" where
  "utf8_stream_inv s \<longleftrightarrow> length (carry s) = 4 \<and> carry_len s \<le> 4
     \<and> (0 < carry_len s \<longrightarrow> carry_len s \<le> utf8_sequence_width (carry s ! 0))"

text \<open>A state that has seen no invalid byte.\<close>

definition utf8_clean :: "utf8_stream \<Rightarrow> bool" where
  "utf8_clean s \<longleftrightarrow> length (carry s) = 4 \<and> carry_len s \<le> 3 \<and> utf8_run [] (pending_bytes s) = Some (pending_bytes s)"

lemma second_range_ok: "second_range l = Some (lo, hi) \<Longrightarrow> lo \<le> b \<and> b \<le> hi \<longleftrightarrow> second_ok l b"
  by (auto simp: second_range_def second_ok_def is_cont_def split: if_splits)

lemma second_range_None: "second_range l = None \<longleftrightarrow> \<not> (0xC2 \<le> l \<and> l \<le> 0xF4)"
  by (auto simp: second_range_def utf8_nat)

lemma utf8_width_nat:
  "0xC0 \<le> l \<Longrightarrow> l \<le> 0xF7 \<Longrightarrow> utf8_sequence_width l = (if l < 0xE0 then 2 else if l < 0xF0 then 3 else 4)"
  by (auto simp: utf8_sequence_width_def utf8_nat)

lemma utf8_width_gt1: "1 < utf8_sequence_width l \<Longrightarrow> 0xC0 \<le> l \<and> l \<le> 0xF7"
  by (auto simp: utf8_sequence_width_def utf8_nat split: if_splits)

lemma utf8_width_le4: "utf8_sequence_width l \<le> 4"
  by (simp add: utf8_sequence_width_def)

lemma may_be_valid_Cons:
  "incomplete_prefix_may_be_valid (l # q) \<longleftrightarrow>
     0xC2 \<le> l \<and> l \<le> 0xF4 \<and> (q \<noteq> [] \<longrightarrow> second_ok l (hd q)) \<and> list_all is_cont (tl q)"
proof (cases "0xC2 \<le> l \<and> l \<le> 0xF4")
  case True
  then obtain lo hi where r: "second_range l = Some (lo, hi)"
    by (cases "second_range l") (auto simp: second_range_None)
  then show ?thesis using True second_range_ok [OF r]
    by (cases q) (auto simp: incomplete_prefix_may_be_valid_def is_cont_def [abs_def])
qed (auto simp: incomplete_prefix_may_be_valid_def second_range_None [THEN iffD2])

lemma may_be_valid_run:
  assumes "q \<noteq> []" "length q < utf8_sequence_width (hd q)"
  shows "utf8_run [] q = (if incomplete_prefix_may_be_valid q then Some q else None)"
proof -
  obtain l r where q: "q = l # r" using assms(1) by (cases q) auto
  with assms have l: "0xC0 \<le> l" "l \<le> 0xF7" using utf8_width_gt1 [of l] by auto
  have w: "length r < (if l < 0xE0 then 1 else if l < 0xF0 then 2 else 3)"
    using assms q utf8_width_nat [OF l] by (auto split: if_splits)
  then have "length r \<le> 2" by (auto split: if_splits)
  then consider "r = []" | b where "r = [b]" | b c where "r = [b, c]"
    by (cases r; cases "tl r"; cases "tl (tl r)") auto
  then show ?thesis
    by cases (use l w in \<open>auto simp: q may_be_valid_Cons word_le_nat_alt word_less_nat_alt split: if_splits\<close>)
qed

lemma may_be_valid_Nil [simp]: "incomplete_prefix_may_be_valid []"
  by (simp add: incomplete_prefix_may_be_valid_def)

lemma utf8_step_pending:
  "utf8_step p b = Some q \<Longrightarrow> q = [] \<or> q = p @ [b]"
  by (cases "(p, b)" rule: utf8_step.cases) (auto split: if_splits)

text \<open>What has been read is a valid part followed by the pending sequence.\<close>

lemma utf8_run_split:
  "utf8_run [] bs = Some p \<Longrightarrow> \<exists>cs. bs = cs @ p \<and> utf8_valid cs"
proof (induction bs arbitrary: p rule: rev_induct)
  case (snoc b bs)
  then obtain p' where p': "utf8_run [] bs = Some p'" "utf8_step p' b = Some p"
    by (auto simp: utf8_run_append split: option.splits)
  from snoc.IH [OF p'(1)] obtain cs where cs: "bs = cs @ p'" "utf8_valid cs" by blast
  from utf8_step_pending [OF p'(2)] show ?case
  proof
    assume "p = []"
    then show ?thesis using snoc.prems by (auto simp: utf8_valid_run)
  next
    assume "p = p' @ [b]"
    then show ?thesis using cs by auto
  qed
qed simp

text \<open>A pending sequence is a lead byte with fewer continuation bytes than it announces.\<close>

definition pending_shape :: "bytes \<Rightarrow> bool" where
  "pending_shape p \<longleftrightarrow> p = [] \<or> (0xC2 \<le> hd p \<and> hd p \<le> 0xF4 \<and> length p < utf8_sequence_width (hd p)
     \<and> list_all is_cont (tl p))"

lemma second_ok_cont: "second_ok l b \<Longrightarrow> is_cont b"
  by (auto simp: utf8_nat split: if_splits)

lemma pending_shape_step:
  "pending_shape p \<Longrightarrow> utf8_step p b = Some q \<Longrightarrow> pending_shape q"
  by (cases "(p, b)" rule: utf8_step.cases)
     (auto simp: pending_shape_def utf8_width_nat word_le_nat_alt word_less_nat_alt split: if_splits dest: second_ok_cont)

lemma pending_shape_run: "pending_shape p \<Longrightarrow> utf8_run p bs = Some q \<Longrightarrow> pending_shape q"
  by (induction bs arbitrary: p) (auto split: option.splits dest: pending_shape_step)

lemma pending_shape_Nil [simp]: "pending_shape []"
  by (simp add: pending_shape_def)

lemma not_cont_lead: "is_cont b \<Longrightarrow> \<not> b < 0x80 \<and> \<not> 0xC0 \<le> b"
  by (auto simp: utf8_nat)

lemma scan_upt_Cons:
  "i \<le> k \<Longrightarrow> complete_prefix_scan chunk [i..<Suc k] =
     (let n = length chunk; b = chunk ! (n - i) in
      if b < 0x80 then n
      else if b \<ge> 0xC0 then (if utf8_sequence_width b > i then n - i else n)
      else complete_prefix_scan chunk [Suc i..<Suc k])"
  by (subst upt_conv_Cons) (simp_all add: Let_def)

lemma short_tail_cases:
  assumes "length p \<le> 4" "p \<noteq> []"
  obtains a where "p = [a]" | a b where "p = [a, b]" | a b c where "p = [a, b, c]"
    | a b c d where "p = [a, b, c, d]"
proof -
  from assms obtain a r where p: "p = a # r" by (cases p) auto
  show ?thesis
    using assms p that
    by (cases r; cases "tl r"; cases "tl (tl r)"; cases "tl (tl (tl r))") auto
qed

lemma scan_skip_cont:
  "i \<le> k \<Longrightarrow> is_cont (chunk ! (length chunk - i)) \<Longrightarrow>
     complete_prefix_scan chunk [i..<Suc k] = complete_prefix_scan chunk [Suc i..<Suc k]"
  by (subst scan_upt_Cons) (simp_all add: Let_def not_cont_lead)

lemma scan_lead:
  "i \<le> k \<Longrightarrow> 0xC0 \<le> chunk ! (length chunk - i) \<Longrightarrow>
     complete_prefix_scan chunk [i..<Suc k] =
       (if utf8_sequence_width (chunk ! (length chunk - i)) > i then length chunk - i else length chunk)"
  by (subst scan_upt_Cons) (auto simp: Let_def word_le_nat_alt word_less_nat_alt)

lemma scan_ascii:
  "i \<le> k \<Longrightarrow> chunk ! (length chunk - i) < 0x80 \<Longrightarrow> complete_prefix_scan chunk [i..<Suc k] = length chunk"
  by (subst scan_upt_Cons) (auto simp: Let_def)

lemma scan_skip_conts:
  assumes "list_all is_cont ys" "j \<le> length ys" "j \<le> k"
  shows "complete_prefix_scan (xs @ ys) [1..<Suc k] = complete_prefix_scan (xs @ ys) [Suc j..<Suc k]"
  using assms(2,3)
proof (induction j)
  case (Suc j)
  have "length (xs @ ys) - Suc j = length xs + (length ys - Suc j)" using Suc.prems by simp
  then have "(xs @ ys) ! (length (xs @ ys) - Suc j) = ys ! (length ys - Suc j)"
    by (simp only: nth_append_length_plus)
  then have "is_cont ((xs @ ys) ! (length (xs @ ys) - Suc j))"
    using Suc.prems assms(1) by (simp add: list_all_length)
  with Suc scan_skip_cont [of "Suc j" k "xs @ ys"] show ?case by simp
qed simp

lemma scan_conts_lead:
  assumes "list_all is_cont ys" "0xC0 \<le> l" "length ys < k"
  shows "complete_prefix_scan (cs @ l # ys) [1..<Suc k] =
     (if utf8_sequence_width l > Suc (length ys) then length cs else length cs + Suc (length ys))"
proof -
  let ?c = "cs @ l # ys"
  have "length ?c - Suc (length ys) = length cs" by simp
  then have l: "?c ! (length ?c - Suc (length ys)) = l" by (simp only: nth_append_length)
  have "complete_prefix_scan ?c [1..<Suc k] = complete_prefix_scan ?c [Suc (length ys)..<Suc k]"
    using scan_skip_conts [of ys "length ys" k "cs @ [l]"] assms by simp
  then show ?thesis using scan_lead [of "Suc (length ys)" k ?c] assms(2,3) l by simp
qed

lemma complete_prefix_len_pending:
  assumes "pending_shape p" "p \<noteq> []"
  shows "complete_prefix_len (cs @ p) = length cs"
proof -
  obtain l ys where p: "p = l # ys" using assms(2) by (cases p) auto
  have "0xC0 \<le> l" "list_all is_cont ys" "Suc (length ys) < utf8_sequence_width l"
    using assms p by (auto simp: pending_shape_def word_le_nat_alt)
  moreover have "length ys < min (length (cs @ l # ys)) 3"
    using utf8_width_le4 [of l] calculation(3) by auto
  ultimately show ?thesis
    unfolding complete_prefix_len_def p by (subst scan_conts_lead) auto
qed

lemma utf8_seq_shape:
  assumes "utf8_seq s"
  obtains a where "s = [a]" "a < 0x80"
    | l ys where "s = l # ys" "0xC0 \<le> l" "list_all is_cont ys" "utf8_sequence_width l = Suc (length ys)"
proof (cases s rule: utf8_seq.cases)
  case (2 a b)
  then show ?thesis using that(2)[of a "[b]"] assms second_ok_cont [of a b]
    by (auto simp: utf8_sequence_width_def word_le_nat_alt)
next
  case (3 a b c)
  then show ?thesis using that(2)[of a "[b, c]"] assms second_ok_cont [of a b]
    by (auto simp: utf8_sequence_width_def word_le_nat_alt)
next
  case (4 a b c d)
  then show ?thesis using that(2)[of a "[b, c, d]"] assms second_ok_cont [of a b]
    by (auto simp: utf8_sequence_width_def word_le_nat_alt)
qed (use assms that in auto)

lemma utf8_valid_last:
  assumes "utf8_valid bs" "bs \<noteq> []"
  obtains cs s where "bs = cs @ s" "utf8_seq s"
proof -
  from assms(1) obtain ss where ss: "bs = concat ss" "\<forall>s\<in>set ss. utf8_seq s" by (auto simp: utf8_valid_seqs)
  with assms(2) obtain ts t where "ss = ts @ [t]" by (cases ss rule: rev_cases) auto
  with ss show ?thesis by (intro that [of "concat ts" t]) auto
qed

lemma complete_prefix_len_valid: "utf8_valid bs \<Longrightarrow> complete_prefix_len bs = length bs"
proof (cases "bs = []")
  case False
  assume "utf8_valid bs"
  then obtain cs s where bs: "bs = cs @ s" "utf8_seq s" using False by (rule utf8_valid_last)
  from bs(2) show ?thesis
  proof (cases rule: utf8_seq_shape)
    case (1 a)
    then show ?thesis unfolding bs(1) complete_prefix_len_def by (subst scan_ascii) auto
  next
    case (2 l ys)
    have len: "length ys \<le> 3" using 2(4) utf8_width_le4 [of l] by simp
    show ?thesis
    proof (cases "length ys = 3")
      case True
      then show ?thesis using scan_skip_conts [of ys 3 3 "cs @ [l]"] 2 bs
        by (simp add: complete_prefix_len_def)
    next
      case False
      then have "length ys < min (length bs) 3" using bs 2 len by auto
      then show ?thesis unfolding bs(1) 2(1) complete_prefix_len_def
        using 2 by (subst scan_conts_lead) auto
    qed
  qed
qed (simp add: complete_prefix_len_def)

lemma complete_prefix_scan_tail:
  "\<forall>i\<in>set is. i \<le> length chunk \<Longrightarrow> complete_prefix_scan chunk is = c \<Longrightarrow> c < length chunk \<Longrightarrow>
     length chunk - c < utf8_sequence_width (chunk ! c)"
  by (induction chunk "is" rule: complete_prefix_scan.induct) (auto simp: Let_def split: if_splits)

lemma complete_prefix_tail:
  "c = complete_prefix_len chunk \<Longrightarrow> c < length chunk \<Longrightarrow>
     length chunk - c < utf8_sequence_width (chunk ! c)"
  by (rule complete_prefix_scan_tail) (auto simp: complete_prefix_len_def)

lemma complete_prefix_scan_le: "complete_prefix_scan chunk is \<le> length chunk"
  by (induction chunk "is" rule: complete_prefix_scan.induct) (auto simp: Let_def)

lemma complete_prefix_len_le: "complete_prefix_len chunk \<le> length chunk"
  by (simp add: complete_prefix_len_def complete_prefix_scan_le)

lemma complete_prefix_tail_le3: "length chunk - complete_prefix_len chunk \<le> 3"
proof (cases "complete_prefix_len chunk < length chunk")
  case True
  show ?thesis using complete_prefix_tail [OF refl True]
      utf8_width_le4 [of "chunk ! complete_prefix_len chunk"] by linarith
qed simp

lemma utf8_run_chunk:
  "utf8_run [] chunk =
     (let c = complete_prefix_len chunk in
      if utf8_valid (take c chunk) \<and> incomplete_prefix_may_be_valid (drop c chunk)
      then Some (drop c chunk) else None)" (is "_ = ?r")
proof (cases "utf8_run [] chunk")
  case (Some p)
  then obtain cs where cs: "chunk = cs @ p" "utf8_valid cs" using utf8_run_split by blast
  have sh: "pending_shape p" using Some pending_shape_run [of "[]"] by simp
  have c: "complete_prefix_len chunk = length cs"
    using cs sh complete_prefix_len_pending complete_prefix_len_valid by (cases "p = []") auto
  have "utf8_run [] p = Some p"
    using Some cs by (simp add: utf8_run_append utf8_valid_run)
  then have "incomplete_prefix_may_be_valid p"
    using may_be_valid_run [of p] sh by (cases "p = []") (auto simp: pending_shape_def split: if_splits)
  then show ?thesis using cs c Some by (simp add: Let_def)
next
  case None
  define c where "c = complete_prefix_len chunk"
  have "\<not> (utf8_valid (take c chunk) \<and> incomplete_prefix_may_be_valid (drop c chunk))"
  proof
    assume a: "utf8_valid (take c chunk) \<and> incomplete_prefix_may_be_valid (drop c chunk)"
    have "utf8_run [] (drop c chunk) = Some (drop c chunk)"
    proof (cases "c < length chunk")
      case True
      then have "length (drop c chunk) < utf8_sequence_width (hd (drop c chunk))"
        using complete_prefix_tail [OF c_def] by (simp add: hd_drop_conv_nth)
      then show ?thesis using may_be_valid_run [of "drop c chunk"] True a by simp
    qed simp
    with a have "utf8_run [] (take c chunk @ drop c chunk) \<noteq> None"
      unfolding utf8_run_append by (simp add: utf8_valid_run)
    with None show False by simp
  qed
  with None show ?thesis unfolding c_def by (simp add: Let_def)
qed

lemma length_copy_from_slice [simp]:
  "i + length ys \<le> length xs \<Longrightarrow> length (copy_from_slice xs i ys) = length xs"
  by (simp add: copy_from_slice_def)

lemma take_copy_from_slice [simp]:
  "i \<le> length xs \<Longrightarrow> take (i + length ys) (copy_from_slice xs i ys) = take i xs @ ys"
  by (simp add: copy_from_slice_def)

lemma nth_copy_from_slice_before [simp]: "k < i \<Longrightarrow> i \<le> length xs \<Longrightarrow> copy_from_slice xs i ys ! k = xs ! k"
  by (simp add: copy_from_slice_def nth_append)

lemma copy_from_slice_Nil [simp]: "copy_from_slice xs i [] = xs"
  by (simp add: copy_from_slice_def)


lemma utf8_run_complete:
  assumes "0xC2 \<le> hd q" "hd q \<le> 0xF4" "length q = utf8_sequence_width (hd q)"
  shows "utf8_run [] q = (if utf8_valid q then Some [] else None)"
proof -
  have w: "utf8_sequence_width (hd q) = (if hd q < 0xE0 then 2 else if hd q < 0xF0 then 3 else 4)"
    using assms(1,2) by (intro utf8_width_nat) (auto simp: word_le_nat_alt)
  have "length q \<le> 4" "q \<noteq> []" using assms(3) w by (auto split: if_splits)
  then have "utf8_run [] q \<in> {None, Some []}"
    by (rule short_tail_cases)
       (use assms w in \<open>auto simp: word_le_nat_alt word_less_nat_alt split: if_splits\<close>)
  then show ?thesis by (auto simp: utf8_valid_run)
qed

lemma utf8_run_pending:
  "utf8_run [] p = Some p \<Longrightarrow> utf8_run p bs = utf8_run [] (p @ bs)"
  by (simp add: utf8_run_append)

lemma utf8_run_idem: "utf8_run [] bs = Some p \<Longrightarrow> utf8_run [] p = Some p"
  using utf8_run_split [of bs p] by (auto simp: utf8_run_append utf8_valid_run)

text \<open>A message pushed chunk by chunk, up to the first rejection.\<close>

fun push_all :: "(bytes \<Rightarrow> bool) \<Rightarrow> utf8_stream \<Rightarrow> bytes list \<Rightarrow> bool \<times> utf8_stream" where
  "push_all simdutf8 s [] = (True, s)"
| "push_all simdutf8 s (c # cs) =
     (case utf8_push simdutf8 s c of (ok, s') \<Rightarrow> if ok then push_all simdutf8 s' cs else (False, s'))"

text \<open>The contract of a UTF-8 validator, which the crate behind \<^verbatim>\<open>validate_utf8\<close> promises.\<close>

locale utf8_validator =
  fixes validate :: "bytes \<Rightarrow> bool"
  assumes validate_eq: "validate bs = utf8_valid bs"
begin

lemma push_chunk_run:
  assumes "length (carry s) = 4" "push_chunk validate s chunk = (ok, s')"
  shows "utf8_run [] chunk = (if ok then Some (pending_bytes s') else None)"
    and "ok \<Longrightarrow> length (carry s') = 4 \<and> carry_len s' \<le> 3"
  using assms complete_prefix_tail_le3 [of chunk] take_copy_from_slice [of 0 "carry s" "drop (complete_prefix_len chunk) chunk"]
  by (auto simp: push_chunk_def utf8_run_chunk validate_utf8_def validate_eq pending_bytes_def Let_def split: if_splits)

lemma push_run:
  assumes clean: "utf8_clean s" and push: "utf8_push validate s chunk = (ok, s')"
  shows "utf8_run (pending_bytes s) chunk = (if ok then Some (pending_bytes s') else None)
    \<and> (ok \<longrightarrow> length (carry s') = 4 \<and> carry_len s' \<le> 3)"
proof (cases "carry_len s = 0")
  case True
  then show ?thesis using push push_chunk_run [of s chunk ok s'] clean
    by (auto simp: utf8_push_def utf8_clean_def pending_bytes_def)
next
  case False
  define p where "p = pending_bytes s"
  define w where "w = utf8_sequence_width (hd p)"
  define n where "n = min (w - carry_len s) (length chunk)"
  define q where "q = p @ take n chunk"
  define s1 where "s1 = s\<lparr>carry := copy_from_slice (carry s) (carry_len s) (take n chunk), carry_len := carry_len s + n\<rparr>"
  have len: "length p = carry_len s" "length (carry s) = 4" "carry_len s \<le> 3"
    and run: "utf8_run [] p = Some p"
    using clean by (auto simp: utf8_clean_def p_def pending_bytes_def)
  have p0: "p \<noteq> []" using len False by auto
  have hd: "hd p = carry s ! 0" "hd q = hd p" using p0 False len
    by (auto simp: q_def p_def pending_bytes_def hd_conv_nth nth_append)
  have sh: "0xC2 \<le> hd p" "hd p \<le> 0xF4" "length p < w"
    using pending_shape_run [OF pending_shape_Nil run] p0 by (auto simp: pending_shape_def w_def)
  have w4: "w \<le> 4" by (simp add: w_def utf8_width_le4)
  have nn: "length (take n chunk) = n" by (simp add: n_def)
  have fit: "carry_len s + n \<le> 4" using len sh w4 by (auto simp: n_def)
  have s1: "take (carry_len s1) (carry s1) = q" "length (carry s1) = 4" "carry_len s1 = length q"
    using take_copy_from_slice [of "carry_len s" "carry s" "take n chunk"]
      length_copy_from_slice [of "carry_len s" "take n chunk" "carry s"] nn len fit
    by (simp_all add: s1_def q_def p_def pending_bytes_def)
  have push': "utf8_push validate s chunk =
      (if length q < w then (incomplete_prefix_may_be_valid q, s1)
       else if \<not> utf8_valid (take w (carry s1)) then (False, s1)
       else push_chunk validate (s1\<lparr>carry_len := 0\<rparr>) (drop n chunk))"
    unfolding utf8_push_def Let_def hd(1) [symmetric] w_def [symmetric] n_def [symmetric] s1_def [symmetric]
    using False s1 by simp
  have split: "utf8_run p chunk = utf8_run [] (q @ drop n chunk)"
    unfolding utf8_run_pending [OF run] q_def by simp
  show ?thesis
  proof (cases "length q < w")
    case True
    then have "drop n chunk = []" using len nn by (auto simp: q_def n_def)
    then have "utf8_run p chunk = (if incomplete_prefix_may_be_valid q then Some q else None)"
      using may_be_valid_run [of q] True hd split p0 by (simp add: w_def q_def)
    then show ?thesis using push push' True s1 fit len sh w4 by (auto simp: p_def pending_bytes_def)
  next
    case False
    then have lq: "length q = w" using len nn sh by (auto simp: q_def n_def)
    have rq: "utf8_run [] q = (if utf8_valid q then Some [] else None)"
      using utf8_run_complete [of q] sh hd lq by (simp add: w_def)
    have tq: "take w (carry s1) = q" using s1 lq by simp
    show ?thesis
      using push push' False tq push_chunk_run [of "s1\<lparr>carry_len := 0\<rparr>" "drop n chunk" ok s'] s1 split rq
      by (auto simp: p_def utf8_run_append split: if_splits)
  qed
qed

lemma push_clean: "utf8_clean s \<Longrightarrow> utf8_push validate s chunk = (True, s') \<Longrightarrow> utf8_clean s'"
  using push_run [of s chunk True s'] utf8_run_idem [of "pending_bytes s @ chunk" "pending_bytes s'"]
  by (auto simp: utf8_clean_def utf8_run_append)

lemma resume_run:
  assumes "utf8_clean s" "utf8_resume validate s suffix = (ok, s')"
  shows "utf8_run [] suffix = (if ok then Some (pending_bytes s') else None) \<and> (ok \<longrightarrow> utf8_clean s')"
proof (cases "suffix = take (carry_len s) (carry s)")
  case True
  then show ?thesis using assms by (auto simp: utf8_resume_def utf8_clean_def pending_bytes_def)
next
  case False
  have "utf8_clean (utf8_reset s)" "pending_bytes (utf8_reset s) = []"
    using assms(1) by (auto simp: utf8_clean_def utf8_reset_def pending_bytes_def)
  then show ?thesis using False assms(2) push_run [of "utf8_reset s" suffix ok s'] push_clean [of "utf8_reset s" suffix s']
    by (cases ok) (auto simp: utf8_resume_def)
qed

lemma push_all_run:
  "utf8_clean s \<Longrightarrow> push_all validate s parts = (ok, s') \<Longrightarrow>
     utf8_run (pending_bytes s) (concat parts) = (if ok then Some (pending_bytes s') else None)
     \<and> (ok \<longrightarrow> utf8_clean s')"
proof (induction parts arbitrary: s)
  case (Cons c cs)
  obtain ok1 s1 where p: "utf8_push validate s c = (ok1, s1)" by force
  show ?case
  proof (cases ok1)
    case True
    then show ?thesis using Cons push_run [OF Cons.prems(1) p] push_clean [of s c s1] p
      by (auto simp: utf8_run_append)
  next
    case False
    then show ?thesis using Cons.prems push_run [OF Cons.prems(1) p] p by (auto simp: utf8_run_append)
  qed
qed auto

end

interpretation std_utf8: utf8_validator utf8_valid
  by unfold_locales simp

lemma utf8_clean_new [simp]: "utf8_clean utf8_stream_new"
  by (simp add: utf8_clean_def utf8_stream_new_def pending_bytes_def)

lemma utf8_clean_reset: "utf8_clean s \<Longrightarrow> utf8_clean (utf8_reset s) \<and> pending_bytes (utf8_reset s) = []"
  by (simp add: utf8_clean_def utf8_reset_def pending_bytes_def)

lemma utf8_finish_pending: "utf8_clean s \<Longrightarrow> utf8_finish s \<longleftrightarrow> pending_bytes s = []"
  by (auto simp: utf8_clean_def utf8_finish_def pending_bytes_def)

text \<open>A pending sequence can always be completed.\<close>

lemma pending_completable:
  assumes "pending_shape p" "utf8_run [] p = Some p"
  shows "\<exists>rest. utf8_run p rest = Some []"
proof (cases "p = []")
  case True
  then show ?thesis by (intro exI [of _ "[]"]) simp
next
  case False
  have "length p \<le> 4" using assms False utf8_width_le4 [of "hd p"] by (auto simp: pending_shape_def)
  then show ?thesis using False
  proof (rule short_tail_cases)
    fix a assume p: "p = [a]"
    define b :: byte where "b = (if a = 0xE0 then 0xA0 else if a = 0xF0 then 0x90 else 0x80)"
    have "second_ok a b" "is_cont 0x80" by (auto simp: b_def utf8_nat)
    then show ?thesis unfolding p
      by (intro exI [of _ "if a < 0xE0 then [b] else if a < 0xF0 then [b, 0x80] else [b, 0x80, 0x80]"]) auto
  next
    fix a b assume p: "p = [a, b]"
    have "is_cont 0x80" by (auto simp: utf8_nat)
    then show ?thesis unfolding p
      by (intro exI [of _ "if a < 0xF0 then [0x80] else [0x80, 0x80]"]) auto
  next
    fix a b c assume p: "p = [a, b, c]"
    have "is_cont 0x80" by (auto simp: utf8_nat)
    then show ?thesis unfolding p by (intro exI [of _ "[0x80]"]) auto
  next
    fix a b c d assume "p = [a, b, c, d]"
    then show ?thesis using assms(1) utf8_width_le4 [of a] by (simp add: pending_shape_def)
  qed
qed

lemma utf8_run_extendable: "utf8_run [] bs \<noteq> None \<longleftrightarrow> (\<exists>rest. utf8_valid (bs @ rest))"
proof
  assume "utf8_run [] bs \<noteq> None"
  then obtain p where p: "utf8_run [] bs = Some p" by auto
  from pending_completable [OF pending_shape_run [OF pending_shape_Nil p] utf8_run_idem [OF p]]
  show "\<exists>rest. utf8_valid (bs @ rest)" using p by (auto simp: utf8_valid_run utf8_run_append)
qed (auto simp: utf8_valid_run utf8_run_append split: option.splits)

section \<open>The one-shot validator with an incomplete end\<close>

definition cp3 :: "byte \<Rightarrow> byte \<Rightarrow> byte \<Rightarrow> u32" where
  "cp3 b b1 b2 = push_bit 12 (ucast b AND 0x0F) OR push_bit 6 (ucast b1 AND 0x3F) OR (ucast b2 AND 0x3F)"

definition cp4 :: "byte \<Rightarrow> byte \<Rightarrow> byte \<Rightarrow> byte \<Rightarrow> u32" where
  "cp4 b b1 b2 b3 = push_bit 18 (ucast b AND 0x07) OR push_bit 12 (ucast b1 AND 0x3F)
     OR push_bit 6 (ucast b2 AND 0x3F) OR (ucast b3 AND 0x3F)"

function validate_utf8_incomplete_loop :: "bytes \<Rightarrow> bool \<times> nat" where
  "validate_utf8_incomplete_loop d =
     (if d = [] then (True, 0)
      else let b = d ! 0; left = length d in
        if b < 0x80 then validate_utf8_incomplete_loop (drop 1 d)
        else if b < 0xC0 then (False, 0)
        else if b < 0xE0 then
          (if 1 \<ge> left then (True, left)
           else if d ! 1 AND 0xC0 \<noteq> 0x80 then (False, 0)
           else if b < 0xC2 then (False, 0)
           else validate_utf8_incomplete_loop (drop 2 d))
        else if b < 0xF0 then
          (if 2 \<ge> left then
             (if 1 < left \<and> d ! 1 AND 0xC0 \<noteq> 0x80 then (False, 0)
              else if 1 < left \<and> b = 0xE0 \<and> d ! 1 < 0xA0 then (False, 0)
              else if 1 < left \<and> b = 0xED \<and> d ! 1 \<ge> 0xA0 then (False, 0)
              else (True, left))
           else if d ! 1 AND 0xC0 \<noteq> 0x80 \<or> d ! 2 AND 0xC0 \<noteq> 0x80 then (False, 0)
           else if cp3 b (d ! 1) (d ! 2) < 0x800 \<or> (0xD800 \<le> cp3 b (d ! 1) (d ! 2) \<and> cp3 b (d ! 1) (d ! 2) \<le> 0xDFFF)
           then (False, 0)
           else validate_utf8_incomplete_loop (drop 3 d))
        else if b < 0xF5 then
          (if 3 \<ge> left then
             (if 1 < left \<and> d ! 1 AND 0xC0 \<noteq> 0x80 then (False, 0)
              else if 1 < left \<and> b = 0xF0 \<and> d ! 1 < 0x90 then (False, 0)
              else if 1 < left \<and> b = 0xF4 \<and> d ! 1 \<ge> 0x90 then (False, 0)
              else if 2 < left \<and> d ! 2 AND 0xC0 \<noteq> 0x80 then (False, 0)
              else (True, left))
           else if d ! 1 AND 0xC0 \<noteq> 0x80 \<or> d ! 2 AND 0xC0 \<noteq> 0x80 \<or> d ! 3 AND 0xC0 \<noteq> 0x80 then (False, 0)
           else if \<not> (0x10000 \<le> cp4 b (d ! 1) (d ! 2) (d ! 3) \<and> cp4 b (d ! 1) (d ! 2) (d ! 3) \<le> 0x10FFFF)
           then (False, 0)
           else validate_utf8_incomplete_loop (drop 4 d))
        else (False, 0))"
  by pat_completeness auto
termination
  by (relation "measure length") auto

declare validate_utf8_incomplete_loop.simps [simp del]

definition validate_utf8_incomplete :: "bytes \<Rightarrow> bool \<times> nat" where
  "validate_utf8_incomplete data = (if data = [] then (True, 0) else validate_utf8_incomplete_loop data)"

lemma nat_or_add: "x < 2 ^ n \<Longrightarrow> push_bit n y OR x = y * 2 ^ n + x" for x y :: nat
proof -
  assume x: "x < 2 ^ n"
  have "push_bit n y AND x = 0"
  proof (rule bit_eqI)
    fix k
    have "take_bit n x = x" using x by (rule take_bit_nat_eq_self)
    then have "bit x k \<Longrightarrow> k < n" by (metis bit_take_bit_iff)
    then show "bit (push_bit n y AND x) k \<longleftrightarrow> bit 0 k"
      by (auto simp: bit_and_iff bit_push_bit_iff_nat)
  qed
  then have "push_bit n y + x = push_bit n y OR x" by (rule disjunctive_add_eq_or)
  then show ?thesis by (simp add: push_bit_eq_mult)
qed

lemma nat_and_mask: "(n::nat) AND 7 = n mod 8" "n AND 15 = n mod 16" "n AND 63 = n mod 64"
proof -
  have "n AND mask k = n mod 2 ^ k" for k by (simp add: take_bit_eq_mask flip: take_bit_eq_mod)
  from this [of 3] this [of 4] this [of 6]
  show "n AND 7 = n mod 8" "n AND 15 = n mod 16" "n AND 63 = n mod 64"
    by (simp_all add: mask_eq_exp_minus_1)
qed

lemma cont_bits: "b AND 0xC0 = 0x80 \<longleftrightarrow> is_cont b" for b :: byte
proof -
  have "(n AND 192 = 128) = (128 \<le> n \<and> n \<le> 191)" if "n < 256" for n :: nat
  proof -
    have "n AND 192 = push_bit 6 (drop_bit 6 n AND 3)"
    proof (rule bit_eqI)
      fix k
      have "(192::nat) = push_bit 6 3" by (simp add: push_bit_eq_mult)
      then have "bit (192::nat) k \<longleftrightarrow> 6 \<le> k \<and> bit (3::nat) (k - 6)" by (simp only: bit_push_bit_iff_nat)
      then show "bit (n AND 192) k \<longleftrightarrow> bit (push_bit 6 (drop_bit 6 n AND 3)) k"
        by (auto simp only: bit_and_iff bit_push_bit_iff_nat bit_drop_bit_eq o_apply le_add_diff_inverse)
    qed
    also have "\<dots> = n div 64 mod 4 * 64" by (simp add: push_bit_eq_mult drop_bit_eq_div)
    finally show ?thesis using that by auto
  qed
  from this [of "unat b"] show ?thesis
    by (simp add: word_unat_eq_iff unsigned_and_eq is_cont_def word_le_nat_alt)
qed

lemma unat_push_bit_u32: "unat w * 2 ^ k < 2 ^ 32 \<Longrightarrow> unat (push_bit k w) = push_bit k (unat w)" for w :: u32
  by (simp only: unsigned_push_bit_eq) (simp add: take_bit_eq_mod push_bit_eq_mult)

lemma unat_low_bits:
  "unat (ucast b AND 7 :: u32) = unat b mod 8" "unat (ucast b AND 0x0F :: u32) = unat b mod 16"
  "unat (ucast b AND 0x3F :: u32) = unat b mod 64" for b :: byte
proof -
  have "unat b mod 4294967296 = unat b" using unat_byte_less [of b] by (intro mod_less) linarith
  then have "unat (ucast b :: u32) = unat b" by (simp add: unsigned_ucast_eq take_bit_eq_mod)
  then show "unat (ucast b AND 7 :: u32) = unat b mod 8" "unat (ucast b AND 0x0F :: u32) = unat b mod 16"
    "unat (ucast b AND 0x3F :: u32) = unat b mod 64"
    by (simp_all add: unsigned_and_eq nat_and_mask)
qed

lemma unat_shifted:
  fixes w :: u32
  assumes "unat w < 64" "k \<le> 18"
  shows "unat (push_bit k w) = push_bit k (unat w)"
proof (rule unat_push_bit_u32)
  have "unat w * 2 ^ k \<le> 64 * 2 ^ 18"
    using assms power_increasing [of k 18 "2 :: nat"] by (intro mult_le_mono) auto
  then show "unat w * 2 ^ k < 2 ^ 32" by simp
qed

lemma unat_shifted_bits:
  "unat (push_bit 18 (ucast b AND 7 :: u32)) = push_bit 18 (unat b mod 8)"
  "unat (push_bit 12 (ucast b AND 0x0F :: u32)) = push_bit 12 (unat b mod 16)"
  "unat (push_bit 12 (ucast b AND 0x3F :: u32)) = push_bit 12 (unat b mod 64)"
  "unat (push_bit 6 (ucast b AND 0x3F :: u32)) = push_bit 6 (unat b mod 64)" for b :: byte
proof -
  have lt: "unat b mod 8 < 64" "unat b mod 16 < 64" "unat b mod 64 < 64"
    by (rule less_le_trans [OF mod_less_divisor]; simp)+
  show "unat (push_bit 18 (ucast b AND 7 :: u32)) = push_bit 18 (unat b mod 8)"
    by (rule unat_shifted [of "ucast b AND 7" 18, unfolded unat_low_bits, OF lt(1)]) simp
  show "unat (push_bit 12 (ucast b AND 0x0F :: u32)) = push_bit 12 (unat b mod 16)"
    by (rule unat_shifted [of "ucast b AND 0x0F" 12, unfolded unat_low_bits, OF lt(2)]) simp
  show "unat (push_bit 12 (ucast b AND 0x3F :: u32)) = push_bit 12 (unat b mod 64)"
    by (rule unat_shifted [of "ucast b AND 0x3F" 12, unfolded unat_low_bits, OF lt(3)]) simp
  show "unat (push_bit 6 (ucast b AND 0x3F :: u32)) = push_bit 6 (unat b mod 64)"
    by (rule unat_shifted [of "ucast b AND 0x3F" 6, unfolded unat_low_bits, OF lt(3)]) simp
qed

lemma byte_digits:
  "n < 16 \<Longrightarrow> (0xE0 + n) mod 16 = n" "n < 64 \<Longrightarrow> (0x80 + n) mod 64 = n" "n < 5 \<Longrightarrow> (0xF0 + n) mod 8 = n" for n :: nat
  using mod_mult_self4 [of 16 14 n] mod_mult_self4 [of 64 2 n] mod_mult_self4 [of 8 30 n] by simp_all

lemma unat_cp3: "unat (cp3 b b1 b2) = unat b mod 16 * 4096 + (unat b1 mod 64 * 64 + unat b2 mod 64)"
proof -
  define x y z where xyz: "x = unat b mod 16" "y = unat b1 mod 64" "z = unat b2 mod 64"
  have lt: "x < 16" "y < 64" "z < 64" by (simp_all add: xyz)
  have "unat (cp3 b b1 b2) = push_bit 12 x OR (push_bit 6 y OR z)"
    unfolding xyz by (simp only: cp3_def unsigned_or_eq or.assoc unat_shifted_bits unat_low_bits)
  also have "\<dots> = push_bit 12 x OR (y * 64 + z)" using lt nat_or_add [of z 6 y] by simp
  also have "\<dots> = x * 4096 + (y * 64 + z)" using lt nat_or_add [of "y * 64 + z" 12 x] by simp
  finally show ?thesis by (simp add: xyz)
qed

lemma unat_cp4:
  "unat (cp4 b b1 b2 b3) = unat b mod 8 * 262144 + (unat b1 mod 64 * 4096 + (unat b2 mod 64 * 64 + unat b3 mod 64))"
proof -
  define w x y z where xyz: "w = unat b mod 8" "x = unat b1 mod 64" "y = unat b2 mod 64" "z = unat b3 mod 64"
  have lt: "w < 8" "x < 64" "y < 64" "z < 64" by (simp_all add: xyz)
  have "unat (cp4 b b1 b2 b3) = push_bit 18 w OR (push_bit 12 x OR (push_bit 6 y OR z))"
    unfolding xyz by (simp only: cp4_def unsigned_or_eq or.assoc unat_shifted_bits unat_low_bits)
  also have "\<dots> = push_bit 18 w OR (push_bit 12 x OR (y * 64 + z))" using lt nat_or_add [of z 6 y] by simp
  also have "\<dots> = push_bit 18 w OR (x * 4096 + (y * 64 + z))" using lt nat_or_add [of "y * 64 + z" 12 x] by simp
  also have "\<dots> = w * 262144 + (x * 4096 + (y * 64 + z))"
    using lt nat_or_add [of "x * 4096 + (y * 64 + z)" 18 w] by simp
  finally show ?thesis by (simp add: xyz)
qed

lemma digit_ranges:
  fixes w x y z :: nat
  assumes "w < 5" "x < 64" "y < 64" "z < 64"
  shows "x * 64 + z < 0x800 \<longleftrightarrow> x < 32" "13 * 4096 + (x * 64 + z) \<le> 0xDFFF"
    "0xD800 \<le> 13 * 4096 + (x * 64 + z) \<longleftrightarrow> 32 \<le> x"
    "0x10000 \<le> x * 4096 + (y * 64 + z) \<longleftrightarrow> 16 \<le> x" "x * 4096 + (y * 64 + z) \<le> 0x10FFFF"
    "4 * 262144 + (x * 4096 + (y * 64 + z)) \<le> 0x10FFFF \<longleftrightarrow> x < 16"
  using assms by auto

lemma cp3_bad:
  assumes "\<not> b < 0xE0" "b < 0xF0" "is_cont b1" "is_cont b2"
  shows "cp3 b b1 b2 < 0x800 \<or> (0xD800 \<le> cp3 b b1 b2 \<and> cp3 b b1 b2 \<le> 0xDFFF) \<longleftrightarrow> \<not> second_ok b b1"
proof -
  obtain x y z where xyz: "unat b = 0xE0 + x" "unat b1 = 0x80 + y" "unat b2 = 0x80 + z" and lt: "x < 16" "y < 64" "z < 64"
  proof
    show "unat b = 0xE0 + (unat b - 0xE0)" "unat b1 = 0x80 + (unat b1 - 0x80)" "unat b2 = 0x80 + (unat b2 - 0x80)"
      "unat b - 0xE0 < 16" "unat b1 - 0x80 < 64" "unat b2 - 0x80 < 64"
      using assms by (auto simp: utf8_nat)
  qed
  have m: "unat b mod 16 = x" "unat b1 mod 64 = y" "unat b2 mod 64 = z" using lt unfolding xyz by (simp_all only: byte_digits)
  have cp: "unat (cp3 b b1 b2) = x * 4096 + (y * 64 + z)" unfolding unat_cp3 m ..
  have "second_ok b b1 \<longleftrightarrow> (x = 0 \<longrightarrow> 32 \<le> y) \<and> (x = 13 \<longrightarrow> y < 32)"
    using lt by (auto simp: utf8_nat xyz)
  moreover have "unat (cp3 b b1 b2) < 0x800 \<longleftrightarrow> x = 0 \<and> y < 32"
    unfolding cp using digit_ranges(1) [of 0 y 0 z] lt by (cases "x = 0") (simp, linarith)
  moreover have "0xD800 \<le> unat (cp3 b b1 b2) \<and> unat (cp3 b b1 b2) \<le> 0xDFFF \<longleftrightarrow> x = 13 \<and> 32 \<le> y"
  proof (cases "x = 13")
    case True
    then show ?thesis unfolding cp using digit_ranges(2,3) [of 0 y 0 z] lt by simp
  next
    case False
    then have "x \<le> 12 \<or> 14 \<le> x" by linarith
    then have "\<not> (0xD800 \<le> x * 4096 + (y * 64 + z) \<and> x * 4096 + (y * 64 + z) \<le> 0xDFFF)"
      using lt by (elim disjE) linarith+
    then show ?thesis unfolding cp using False by blast
  qed
  ultimately show ?thesis by (auto simp: word_le_nat_alt word_less_nat_alt)
qed

lemma cp4_bad:
  assumes "\<not> b < 0xF0" "b < 0xF5" "is_cont b1" "is_cont b2" "is_cont b3"
  shows "0x10000 \<le> cp4 b b1 b2 b3 \<and> cp4 b b1 b2 b3 \<le> 0x10FFFF \<longleftrightarrow> second_ok b b1"
proof -
  obtain w x y z where xyz: "unat b = 0xF0 + w" "unat b1 = 0x80 + x" "unat b2 = 0x80 + y" "unat b3 = 0x80 + z"
    and lt: "w < 5" "x < 64" "y < 64" "z < 64"
  proof
    show "unat b = 0xF0 + (unat b - 0xF0)" "unat b1 = 0x80 + (unat b1 - 0x80)" "unat b2 = 0x80 + (unat b2 - 0x80)"
      "unat b3 = 0x80 + (unat b3 - 0x80)"
      "unat b - 0xF0 < 5" "unat b1 - 0x80 < 64" "unat b2 - 0x80 < 64" "unat b3 - 0x80 < 64"
      using assms by (auto simp: utf8_nat)
  qed
  have m: "unat b mod 8 = w" "unat b1 mod 64 = x" "unat b2 mod 64 = y" "unat b3 mod 64 = z" using lt unfolding xyz by (simp_all only: byte_digits)
  have cp: "unat (cp4 b b1 b2 b3) = w * 262144 + (x * 4096 + (y * 64 + z))" unfolding unat_cp4 m ..
  have "second_ok b b1 \<longleftrightarrow> (w = 0 \<longrightarrow> 16 \<le> x) \<and> (w = 4 \<longrightarrow> x < 16)"
    using lt by (auto simp: utf8_nat xyz)
  moreover have "0x10000 \<le> unat (cp4 b b1 b2 b3) \<longleftrightarrow> (w = 0 \<longrightarrow> 16 \<le> x)"
    unfolding cp using digit_ranges [OF lt] by (cases "w = 0") (simp, linarith)
  moreover have "unat (cp4 b b1 b2 b3) \<le> 0x10FFFF \<longleftrightarrow> (w = 4 \<longrightarrow> x < 16)"
    unfolding cp using digit_ranges [OF lt] lt by (cases "w = 4") (simp, linarith)
  ultimately show ?thesis by (simp add: word_le_nat_alt)
qed

definition lone_overlong :: "bytes \<Rightarrow> bool" where
  "lone_overlong d \<longleftrightarrow> d \<noteq> [] \<and> utf8_valid (butlast d) \<and> (last d = 0xC0 \<or> last d = 0xC1)"

definition incomplete_spec :: "bytes \<Rightarrow> bool \<times> nat" where
  "incomplete_spec d = (if lone_overlong d then (True, 1)
     else case utf8_run [] d of Some p \<Rightarrow> (True, length p) | None \<Rightarrow> (False, 0))"

lemma is_cont_last: "is_cont b \<Longrightarrow> b \<noteq> 0xC0 \<and> b \<noteq> 0xC1"
  by (auto simp: is_cont_def)

lemma seq_last_not_overlong: "utf8_seq s \<Longrightarrow> s \<noteq> [] \<and> last s \<noteq> 0xC0 \<and> last s \<noteq> 0xC1"
  by (cases s rule: utf8_seq.cases) (auto dest: is_cont_last second_ok_cont)

lemma incomplete_spec_step: "utf8_seq s \<Longrightarrow> incomplete_spec (s @ d) = incomplete_spec d"
proof -
  assume s: "utf8_seq s"
  have "utf8_run [] s = Some []" using s utf8_valid_seq_append [of s "[]"] by (simp add: utf8_valid_run)
  then have r: "utf8_run [] (s @ d) = utf8_run [] d" by (simp add: utf8_run_append)
  have "lone_overlong (s @ d) \<longleftrightarrow> lone_overlong d"
  proof (cases "d = []")
    case True
    then show ?thesis using seq_last_not_overlong [OF s] by (simp add: lone_overlong_def)
  next
    case False
    then show ?thesis using s by (simp add: lone_overlong_def butlast_append utf8_valid_seq_append)
  qed
  with r show ?thesis by (simp add: incomplete_spec_def)
qed

text \<open>A first sequence that no continuation repairs.\<close>

lemma incomplete_spec_reject:
  assumes "utf8_run [] q = None" "q \<noteq> []" "utf8_run [] (butlast q) \<noteq> Some [] \<or> (last q \<noteq> 0xC0 \<and> last q \<noteq> 0xC1)"
  shows "incomplete_spec (q @ d) = (False, 0)"
proof -
  have r: "utf8_run [] (q @ d) = None" using assms(1) by (simp add: utf8_run_append)
  have "\<not> lone_overlong (q @ d)"
  proof (cases "d = []")
    case True
    then show ?thesis using assms by (auto simp: lone_overlong_def utf8_valid_run)
  next
    case False
    then have "utf8_run [] (butlast (q @ d)) = None" using assms(1) by (simp add: butlast_append utf8_run_append)
    then show ?thesis by (simp add: lone_overlong_def utf8_valid_run)
  qed
  with r show ?thesis by (simp add: incomplete_spec_def)
qed

lemma incomplete_spec_pending:
  "utf8_run [] q = Some q \<Longrightarrow> last q \<noteq> 0xC0 \<Longrightarrow> last q \<noteq> 0xC1 \<Longrightarrow> incomplete_spec q = (True, length q)"
  by (simp add: incomplete_spec_def lone_overlong_def)

text \<open>One round of the loop, by the class of the lead byte, and the same for the specification.\<close>

lemma second_ok_loop3:
  assumes "\<not> b < 0xE0" "b < 0xF0"
  shows "second_ok b b1 \<longleftrightarrow> is_cont b1 \<and> \<not> (b = 0xE0 \<and> b1 < 0xA0) \<and> \<not> (b = 0xED \<and> 0xA0 \<le> b1)"
  using assms by (auto simp: utf8_nat)

lemma second_ok_loop4:
  assumes "\<not> b < 0xF0" "b < 0xF5"
  shows "second_ok b b1 \<longleftrightarrow> is_cont b1 \<and> \<not> (b = 0xF0 \<and> b1 < 0x90) \<and> \<not> (b = 0xF4 \<and> 0x90 \<le> b1)"
  using assms by (auto simp: utf8_nat)

lemma loop_lead1:
  "b < 0x80 \<Longrightarrow> validate_utf8_incomplete_loop (b # r) = validate_utf8_incomplete_loop r"
  by (subst validate_utf8_incomplete_loop.simps) simp

lemma loop_bad:
  assumes "\<not> b < 0x80 \<and> b < 0xC0 \<or> \<not> b < 0xF5"
  shows "validate_utf8_incomplete_loop (b # r) = (False, 0)"
proof -
  consider "\<not> b < 0x80" "b < 0xC0" | "\<not> b < 0x80" "\<not> b < 0xC0" "\<not> b < 0xE0" "\<not> b < 0xF0" "\<not> b < 0xF5"
    using assms by (auto simp: word_less_nat_alt)
  then show ?thesis
    by cases (subst validate_utf8_incomplete_loop.simps, simp)+
qed

lemma loop_lead2:
  assumes "\<not> b < 0xC0" "b < 0xE0"
  shows "validate_utf8_incomplete_loop (b # r) =
    (case r of [] \<Rightarrow> (True, 1)
     | b1 # r' \<Rightarrow> if is_cont b1 \<and> \<not> b < 0xC2 then validate_utf8_incomplete_loop r' else (False, 0))"
proof -
  have "\<not> b < 0x80" using assms by (simp add: word_less_nat_alt)
  then show ?thesis using assms
    by (subst validate_utf8_incomplete_loop.simps) (cases r, simp_all add: Let_def cont_bits)
qed

lemma loop_lead3:
  assumes "\<not> b < 0xE0" "b < 0xF0"
  shows "validate_utf8_incomplete_loop (b # r) =
    (case r of [] \<Rightarrow> (True, 1)
     | [b1] \<Rightarrow> if second_ok b b1 then (True, 2) else (False, 0)
     | b1 # b2 # r' \<Rightarrow> if second_ok b b1 \<and> is_cont b2 then validate_utf8_incomplete_loop r' else (False, 0))"
proof -
  have "\<not> b < 0x80" "\<not> b < 0xC0" using assms by (simp_all add: word_less_nat_alt)
  then show ?thesis using assms
    by (subst validate_utf8_incomplete_loop.simps)
       (cases r; cases "tl r"; simp add: Let_def cont_bits cp3_bad second_ok_loop3)
qed

lemma loop_lead4:
  assumes "\<not> b < 0xF0" "b < 0xF5"
  shows "validate_utf8_incomplete_loop (b # r) =
    (case r of [] \<Rightarrow> (True, 1)
     | [b1] \<Rightarrow> if second_ok b b1 then (True, 2) else (False, 0)
     | [b1, b2] \<Rightarrow> if second_ok b b1 \<and> is_cont b2 then (True, 3) else (False, 0)
     | b1 # b2 # b3 # r' \<Rightarrow> if second_ok b b1 \<and> is_cont b2 \<and> is_cont b3
         then validate_utf8_incomplete_loop r' else (False, 0))"
proof -
  have "\<not> b < 0x80" "\<not> b < 0xC0" "\<not> b < 0xE0" using assms by (simp_all add: word_less_nat_alt)
  then show ?thesis using assms
    by (subst validate_utf8_incomplete_loop.simps)
       (cases r; cases "tl r"; cases "tl (tl r)"; simp add: Let_def cont_bits cp4_bad second_ok_loop4)
qed

lemma spec_lead2:
  assumes "\<not> b < 0xC0" "b < 0xE0"
  shows "incomplete_spec (b # r) =
    (case r of [] \<Rightarrow> (True, 1)
     | b1 # r' \<Rightarrow> if is_cont b1 \<and> \<not> b < 0xC2 then incomplete_spec r' else (False, 0))"
proof (cases r)
  case Nil
  have "b = 0xC0 \<or> b = 0xC1 \<or> \<not> b < 0xC2" using assms by (auto simp: word_less_nat_alt word_unat_eq_iff)
  then show ?thesis using Nil assms
    by (auto simp: incomplete_spec_def lone_overlong_def word_le_nat_alt word_less_nat_alt)
next
  case (Cons b1 r')
  have so: "second_ok b b1 \<longleftrightarrow> is_cont b1" using assms by (auto simp: utf8_nat)
  show ?thesis
  proof (cases "is_cont b1 \<and> \<not> b < 0xC2")
    case True
    then have "utf8_seq [b, b1]" using assms so by (auto simp: word_le_nat_alt word_less_nat_alt)
    then show ?thesis using incomplete_spec_step [of "[b, b1]" r'] Cons True by simp
  next
    case False
    have "utf8_run [] [b, b1] = None" using False so assms by (auto simp: word_le_nat_alt word_less_nat_alt)
    moreover have "utf8_run [] [b] \<noteq> Some []" using assms by (auto simp: word_le_nat_alt word_less_nat_alt)
    ultimately show ?thesis using incomplete_spec_reject [of "[b, b1]" r'] Cons False by (auto simp del: utf8_run.simps)
  qed
qed

lemma lead34_facts:
  fixes b :: byte
  assumes "\<not> b < 0xE0" "b < 0xF5"
  shows "\<not> b < 0x80" "0xC2 \<le> b" "b \<le> 0xF4" "b \<noteq> 0xC0" "b \<noteq> 0xC1"
  using assms by (auto simp: word_le_nat_alt word_less_nat_alt)

lemma spec_lead3:
  assumes "\<not> b < 0xE0" "b < 0xF0"
  shows "incomplete_spec (b # r) =
    (case r of [] \<Rightarrow> (True, 1)
     | [b1] \<Rightarrow> if second_ok b b1 then (True, 2) else (False, 0)
     | b1 # b2 # r' \<Rightarrow> if second_ok b b1 \<and> is_cont b2 then incomplete_spec r' else (False, 0))"
proof -
  have "b < 0xF5" using assms by (simp add: word_less_nat_alt)
  note f = lead34_facts [OF assms(1) this]
  show ?thesis
  proof (cases r)
    case Nil
    then show ?thesis using f incomplete_spec_pending [of "[b]"] by simp
  next
    case (Cons b1 r1)
    show ?thesis
    proof (cases "second_ok b b1")
      case False
      then show ?thesis using f assms incomplete_spec_reject [of "[b, b1]" r1] Cons by (simp split: list.split)
    next
      case True
      note c = is_cont_last [OF second_ok_cont [OF True]]
      show ?thesis
      proof (cases r1)
        case Nil
        then show ?thesis using f c True assms Cons incomplete_spec_pending [of "[b, b1]"] by simp
      next
        case (Cons b2 r2)
        show ?thesis
        proof (cases "is_cont b2")
          case True
          then have "utf8_seq [b, b1, b2]" using \<open>second_ok b b1\<close> assms f by (simp add: word_le_nat_alt word_less_nat_alt)
          then show ?thesis
            using incomplete_spec_step [of "[b, b1, b2]" r2] Cons True \<open>second_ok b b1\<close> \<open>r = b1 # r1\<close> by simp
        next
          case False
          then show ?thesis
            using incomplete_spec_reject [of "[b, b1, b2]" r2] Cons \<open>second_ok b b1\<close> \<open>r = b1 # r1\<close> f assms by simp
        qed
      qed
    qed
  qed
qed

lemma spec_lead4:
  assumes "\<not> b < 0xF0" "b < 0xF5"
  shows "incomplete_spec (b # r) =
    (case r of [] \<Rightarrow> (True, 1)
     | [b1] \<Rightarrow> if second_ok b b1 then (True, 2) else (False, 0)
     | [b1, b2] \<Rightarrow> if second_ok b b1 \<and> is_cont b2 then (True, 3) else (False, 0)
     | b1 # b2 # b3 # r' \<Rightarrow> if second_ok b b1 \<and> is_cont b2 \<and> is_cont b3
         then incomplete_spec r' else (False, 0))"
proof -
  have ne0: "\<not> b < 0xE0" using assms by (simp add: word_less_nat_alt)
  note f = lead34_facts [OF ne0 assms(2)]
  have bad: "incomplete_spec (b # b1 # r1) = (False, 0)" if "\<not> second_ok b b1" for b1 r1
    using that f incomplete_spec_reject [of "[b, b1]" r1] ne0 by simp
  have bad2: "incomplete_spec (b # b1 # b2 # r2) = (False, 0)" if "\<not> is_cont b2" for b1 b2 r2
    using that f incomplete_spec_reject [of "[b, b1, b2]" r2] bad [of b1] ne0 assms by (cases "second_ok b b1") simp_all
  have bad3: "incomplete_spec (b # b1 # b2 # b3 # r3) = (False, 0)"
    if "\<not> is_cont b3" for b1 b2 b3 r3
    using that f incomplete_spec_reject [of "[b, b1, b2, b3]" r3] bad [of b1] bad2 [of b2 b1] ne0 assms
    by (cases "second_ok b b1"; cases "is_cont b2") simp_all
  have ok1: "incomplete_spec [b] = (True, 1)" using f incomplete_spec_pending [of "[b]"] by simp
  have ok2: "incomplete_spec [b, b1] = (True, 2)" if "second_ok b b1" for b1
    using that f ne0 incomplete_spec_pending [of "[b, b1]"] is_cont_last [OF second_ok_cont [OF that]] by simp
  have ok3: "incomplete_spec [b, b1, b2] = (True, 3)" if "second_ok b b1" "is_cont b2" for b1 b2
    using that f ne0 assms incomplete_spec_pending [of "[b, b1, b2]"] is_cont_last [OF that(2)] by simp
  have ok4: "incomplete_spec (b # b1 # b2 # b3 # r3) = incomplete_spec r3"
    if "second_ok b b1" "is_cont b2" "is_cont b3" for b1 b2 b3 r3
    using that f assms incomplete_spec_step [of "[b, b1, b2, b3]" r3] by (simp add: word_le_nat_alt word_less_nat_alt)
  show ?thesis
    using bad bad2 bad3 ok1 ok2 ok3 ok4 by (cases r; cases "tl r"; cases "tl (tl r)") auto
qed

lemma spec_bad:
  assumes "\<not> b < 0x80 \<and> b < 0xC0 \<or> \<not> b < 0xF5"
  shows "incomplete_spec (b # r) = (False, 0)"
proof -
  have "b \<noteq> 0xC0" "b \<noteq> 0xC1" "utf8_run [] [b] = None" using assms by (auto simp: word_le_nat_alt word_less_nat_alt)
  then show ?thesis using incomplete_spec_reject [of "[b]" r] by simp
qed

lemma incomplete_loop_spec: "validate_utf8_incomplete_loop d = incomplete_spec d"
proof (induction d rule: length_induct)
  case (1 d)
  show ?case
  proof (cases d)
    case Nil
    then show ?thesis by (simp add: validate_utf8_incomplete_loop.simps incomplete_spec_def lone_overlong_def)
  next
    case (Cons b r)
    have IH: "validate_utf8_incomplete_loop r' = incomplete_spec r'" if "length r' \<le> length r" for r'
      using 1 Cons that by simp
    consider "b < 0x80" | "\<not> b < 0x80 \<and> b < 0xC0 \<or> \<not> b < 0xF5" | "\<not> b < 0xC0" "b < 0xE0"
      | "\<not> b < 0xE0" "b < 0xF0" | "\<not> b < 0xF0" "b < 0xF5" by blast
    then show ?thesis
    proof cases
      case 1
      then show ?thesis using IH [of r] incomplete_spec_step [of "[b]" r] Cons by (simp add: loop_lead1)
    next
      case 2
      then show ?thesis using Cons by (simp add: loop_bad spec_bad)
    next
      case 3
      then show ?thesis unfolding Cons loop_lead2 [OF 3] spec_lead2 [OF 3] using IH by (auto split: list.split)
    next
      case 4
      then show ?thesis unfolding Cons loop_lead3 [OF 4] spec_lead3 [OF 4] using IH by (auto split: list.split)
    next
      case 5
      then show ?thesis unfolding Cons loop_lead4 [OF 5] spec_lead4 [OF 5] using IH by (auto split: list.split)
    qed
  qed
qed

section \<open>The storage of the incremental validator\<close>

text \<open>
  The invariant makes \<^verbatim>\<open>width - have\<close> in \<^verbatim>\<open>push\<close> non-negative and every slice in range. It
  holds for every input, also after a rejection.
\<close>

lemma push_chunk_inv:
  assumes "length (carry s) = 4" "carry_len s = 0"
  shows "utf8_stream_inv (snd (push_chunk simdutf8 s chunk))"
proof -
  define c where "c = complete_prefix_len chunk"
  have len: "length (drop c chunk) \<le> 3" using complete_prefix_tail_le3 [of chunk] by (simp add: c_def)
  have w: "length (drop c chunk) \<le> utf8_sequence_width (copy_from_slice (carry s) 0 (drop c chunk) ! 0)"
    if "drop c chunk \<noteq> []"
  proof -
    have "c < length chunk" using that by simp
    then show ?thesis using complete_prefix_tail [OF c_def] that
      by (simp add: copy_from_slice_def nth_append)
  qed
  show ?thesis
    using assms len w length_copy_from_slice [of 0 "drop c chunk" "carry s"]
    by (auto simp: push_chunk_def utf8_stream_inv_def Let_def simp flip: c_def)
qed

lemma utf8_push_inv [ws_inv]:
  assumes "utf8_stream_inv s"
  shows "utf8_stream_inv (snd (utf8_push simdutf8 s chunk))"
proof (cases "carry_len s = 0")
  case True
  then show ?thesis using assms push_chunk_inv [of s simdutf8 chunk]
    by (simp add: utf8_push_def utf8_stream_inv_def)
next
  case False
  define w where "w = utf8_sequence_width (carry s ! 0)"
  define n where "n = min (w - carry_len s) (length chunk)"
  define s1 where "s1 = s\<lparr>carry := copy_from_slice (carry s) (carry_len s) (take n chunk), carry_len := carry_len s + n\<rparr>"
  have b: "length (carry s) = 4" "carry_len s \<le> w" "w \<le> 4" "length (take n chunk) = n" "carry_len s + n \<le> w"
    using assms False utf8_width_le4 by (auto simp: utf8_stream_inv_def w_def n_def)
  have s1: "length (carry s1) = 4" "carry s1 ! 0 = carry s ! 0" "carry_len s1 = carry_len s + n"
    using b False length_copy_from_slice [of "carry_len s" "take n chunk" "carry s"] by (simp_all add: s1_def)
  then have "utf8_stream_inv s1" using b by (simp add: utf8_stream_inv_def w_def)
  moreover have "utf8_push simdutf8 s chunk =
      (if carry_len s1 < w then (incomplete_prefix_may_be_valid (take (carry_len s1) (carry s1)), s1)
       else if \<not> utf8_valid (take w (carry s1)) then (False, s1)
       else push_chunk simdutf8 (s1\<lparr>carry_len := 0\<rparr>) (drop n chunk))"
    unfolding utf8_push_def Let_def w_def [symmetric] n_def [symmetric] s1_def [symmetric] using False by simp
  ultimately show ?thesis using push_chunk_inv [of "s1\<lparr>carry_len := 0\<rparr>" simdutf8 "drop n chunk"] s1 by simp
qed

lemma utf8_inv_new [simp]: "utf8_stream_inv utf8_stream_new"
  by (simp add: utf8_stream_inv_def utf8_stream_new_def)

lemma utf8_inv_reset [ws_inv]: "utf8_stream_inv s \<Longrightarrow> utf8_stream_inv (utf8_reset s)"
  by (simp add: utf8_stream_inv_def utf8_reset_def)

lemma utf8_inv_resume [ws_inv]: "utf8_stream_inv s \<Longrightarrow> utf8_stream_inv (snd (utf8_resume simdutf8 s suffix))"
  by (simp add: utf8_resume_def utf8_push_inv utf8_inv_reset)

section \<open>Properties\<close>

text \<open>
  C14. Whatever the chunks in which a message arrives, the incremental validator accepts them all
  exactly when some continuation makes the bytes valid UTF-8 (so it fails as early as possible),
  and then \<^verbatim>\<open>finish\<close> says whether the bytes so far are valid UTF-8 by themselves. The only
  assumption is that \<^verbatim>\<open>simdutf8\<close> validates a slice as the standard library does.
\<close>

theorem utf8_stream_chunks:
  assumes "\<And>bs. simdutf8 bs = utf8_valid bs"
    and "push_all simdutf8 utf8_stream_new parts = (ok, s)"
  shows "(ok \<longleftrightarrow> (\<exists>rest. utf8_valid (concat parts @ rest)))
    \<and> (ok \<longrightarrow> (utf8_finish s \<longleftrightarrow> utf8_valid (concat parts)))"
proof -
  have "simdutf8 = utf8_valid" using assms(1) by blast
  with std_utf8.push_all_run [OF utf8_clean_new, of parts ok s] assms(2)
  have "utf8_run [] (concat parts) = (if ok then Some (pending_bytes s) else None) \<and> (ok \<longrightarrow> utf8_clean s)"
    by (simp add: pending_bytes_def utf8_stream_new_def)
  then show ?thesis
    using utf8_run_extendable [of "concat parts"] utf8_finish_pending [of s]
    by (auto simp: utf8_valid_run split: if_splits)
qed

theorem utf8_stream_chunks_witness:
  "(\<exists>rest. utf8_valid (concat [[0x61, 0xE2], [0x82], [0xAC, 0xC3]] @ rest))
   \<and> \<not> (\<exists>rest. utf8_valid (concat [[0xED], [0xA0]] @ rest))"
proof -
  have "push_all utf8_valid utf8_stream_new [[0x61, 0xE2], [0x82], [0xAC, 0xC3]]
      = (True, \<lparr>carry = [0xC3, 0x82, 0xAC, 0], carry_len = 1\<rparr>)"
    by code_simp
  moreover have "push_all utf8_valid utf8_stream_new [[0xED], [0xA0]]
      = (False, \<lparr>carry = [0xED, 0xA0, 0, 0], carry_len = 2\<rparr>)"
    by code_simp
  ultimately show ?thesis
    using utf8_stream_chunks [of utf8_valid "[[0x61, 0xE2], [0x82], [0xAC, 0xC3]]"]
      utf8_stream_chunks [of utf8_valid "[[0xED], [0xA0]]"] by blast
qed

text \<open>
  C15. \<^verbatim>\<open>validate_utf8_incomplete\<close> on any input: when some continuation of the data is valid
  UTF-8 the result counts the bytes of the one sequence that is still open (at most three), what
  precedes them is valid, and the count is zero exactly for valid data; when none is, the result
  is \<^verbatim>\<open>(false, 0)\<close>, except after valid data followed by a single last byte C0 or C1.
\<close>

theorem validate_utf8_incomplete_exact:
  "if \<exists>rest. utf8_valid (d @ rest)
   then \<exists>cs p. d = cs @ p \<and> utf8_valid cs \<and> length p \<le> 3 \<and> (p = [] \<longleftrightarrow> utf8_valid d)
          \<and> validate_utf8_incomplete d = (True, length p)
   else validate_utf8_incomplete d = (if lone_overlong d then (True, 1) else (False, 0))"
proof -
  have v: "validate_utf8_incomplete d = incomplete_spec d"
    by (cases "d = []") (simp_all add: validate_utf8_incomplete_def incomplete_loop_spec, simp add: incomplete_spec_def lone_overlong_def)
  show ?thesis
  proof (cases "utf8_run [] d")
    case None
    then show ?thesis using v utf8_run_extendable [of d] by (auto simp: incomplete_spec_def)
  next
    case (Some p)
    then obtain cs where cs: "d = cs @ p" "utf8_valid cs" using utf8_run_split by blast
    have "pending_shape p" using Some pending_shape_run [of "[]"] by simp
    then have p3: "length p \<le> 3" using utf8_width_le4 [of "hd p"] by (auto simp: pending_shape_def)
    have "\<not> lone_overlong d"
    proof
      assume l: "lone_overlong d"
      then have "d = butlast d @ [last d]" "utf8_run [] (butlast d) = Some []"
        by (auto simp: lone_overlong_def utf8_valid_run)
      then have "utf8_run [] d = utf8_run [] [last d]"
        using utf8_run_append [of "[]" "butlast d" "[last d]"] by simp
      with l Some show False by (auto simp: lone_overlong_def)
    qed
    then have "validate_utf8_incomplete d = (True, length p)" using v Some by (simp add: incomplete_spec_def)
    then show ?thesis using utf8_run_extendable [of d] Some cs p3 by (auto simp: utf8_valid_run)
  qed
qed

end
