(* ===== verification/WS_Frame.thy ===== *)
theory WS_Frame
  imports WS_Error WS_Mask WS_Utf8 "HOL-Library.Monad_Syntax"
begin

text \<open>
  Frames, \<^verbatim>\<open>src/frame.rs\<close>: opcodes, headers, the encoder with its uninitialised spare region,
  and the incremental parser with its fast paths. The five states of the parser are one
  definition each and \<^verbatim>\<open>parse_slow\<close> loops over them. Buffers (\<^verbatim>\<open>Bytes\<close>, \<^verbatim>\<open>BytesMut\<close>) are
  byte lists: \<^verbatim>\<open>advance\<close> drops, \<^verbatim>\<open>split_to\<close> takes. The \<^verbatim>\<open>platform\<close> record stands for what is
  not in the sources: the target, the address of a slice, and the crate \<^verbatim>\<open>simdutf8\<close>.
\<close>

section \<open>The platform\<close>

record platform =
  pf_target :: target
  pf_addr :: "bytes \<Rightarrow> nat"
  pf_simdutf8 :: "bytes \<Rightarrow> bool"

text \<open>
  What the library relies on: a target whose kernel keeps the key phase, and a UTF-8 validator
  that decides as the standard library does.
\<close>

definition platform_ok :: "platform \<Rightarrow> bool" where
  "platform_ok pf \<longleftrightarrow> phase_kept (pf_target pf) \<and> (\<forall>bs. pf_simdutf8 pf bs = utf8_valid bs)"

definition std_platform :: platform where
  "std_platform = \<lparr>pf_target = generic_be_target, pf_addr = (\<lambda>bs. length bs), pf_simdutf8 = utf8_valid\<rparr>"

lemma std_platform_ok [simp]: "platform_ok std_platform"
  by (simp add: platform_ok_def std_platform_def phase_kept_def generic_be_target_def)

section \<open>Opcodes and headers\<close>

definition SMALL_MESSAGE_THRESHOLD :: nat where "SMALL_MESSAGE_THRESHOLD = 125"
definition MEDIUM_MESSAGE_THRESHOLD :: nat where "MEDIUM_MESSAGE_THRESHOLD = 65535"

lemmas thresholds = SMALL_MESSAGE_THRESHOLD_def MEDIUM_MESSAGE_THRESHOLD_def

datatype opcode = OpContinuation | OpText | OpBinary | OpClose | OpPing | OpPong

fun opcode_byte :: "opcode \<Rightarrow> byte" where
  "opcode_byte OpContinuation = 0x0"
| "opcode_byte OpText = 0x1"
| "opcode_byte OpBinary = 0x2"
| "opcode_byte OpClose = 0x8"
| "opcode_byte OpPing = 0x9"
| "opcode_byte OpPong = 0xA"

definition opcode_from_u8 :: "byte \<Rightarrow> opcode option" where
  "opcode_from_u8 b =
     (if b = 0x0 then Some OpContinuation
      else if b = 0x1 then Some OpText
      else if b = 0x2 then Some OpBinary
      else if b = 0x8 then Some OpClose
      else if b = 0x9 then Some OpPing
      else if b = 0xA then Some OpPong
      else None)"

definition is_control :: "opcode \<Rightarrow> bool" where
  "is_control op \<longleftrightarrow> opcode_byte op \<ge> 0x8"

definition is_data :: "opcode \<Rightarrow> bool" where
  "is_data op \<longleftrightarrow> opcode_byte op \<le> 0x2"

record frame_header =
  h_fin :: bool
  h_rsv1 :: bool
  h_rsv2 :: bool
  h_rsv3 :: bool
  h_opcode :: opcode
  h_masked :: bool
  h_payload_len :: u64
  h_mask :: "mask4 option"

definition header_size :: "frame_header \<Rightarrow> nat" where
  "header_size h =
     2 + (if unat (h_payload_len h) > MEDIUM_MESSAGE_THRESHOLD then 8
          else if unat (h_payload_len h) > SMALL_MESSAGE_THRESHOLD then 2 else 0)
       + (if h_masked h then 4 else 0)"

definition flag :: "bool \<Rightarrow> byte \<Rightarrow> byte" where
  "flag c b = (if c then b else 0)"

definition header_encode :: "frame_header \<Rightarrow> bytes \<Rightarrow> bytes" where
  "header_encode h buf =
     (let b0 = opcode_byte (h_opcode h) OR flag (h_fin h) 0x80 OR flag (h_rsv1 h) 0x40
                 OR flag (h_rsv2 h) 0x20 OR flag (h_rsv3 h) 0x10;
          mask_bit = flag (h_masked h) 0x80;
          buf = buf @ [b0];
          buf = (if unat (h_payload_len h) \<le> SMALL_MESSAGE_THRESHOLD
                 then buf @ [mask_bit OR ucast (h_payload_len h)]
                 else if unat (h_payload_len h) \<le> MEDIUM_MESSAGE_THRESHOLD
                 then buf @ [mask_bit OR 126] @ u16_to_be_bytes (ucast (h_payload_len h))
                 else buf @ [mask_bit OR 127] @ u64_to_be_bytes (h_payload_len h))
      in case h_mask h of Some m \<Rightarrow> buf @ mask_bytes m | None \<Rightarrow> buf)"

section \<open>Frames\<close>

record frame =
  f_header :: frame_header
  f_payload :: bytes

definition frame_new :: "opcode \<Rightarrow> bytes \<Rightarrow> bool \<Rightarrow> frame" where
  "frame_new op payload fin =
     \<lparr>f_header = \<lparr>h_fin = fin, h_rsv1 = False, h_rsv2 = False, h_rsv3 = False, h_opcode = op,
        h_masked = False, h_payload_len = of_nat (length payload), h_mask = None\<rparr>,
      f_payload = payload\<rparr>"

definition frame_text :: "bytes \<Rightarrow> frame" where "frame_text data = frame_new OpText data True"
definition frame_binary :: "bytes \<Rightarrow> frame" where "frame_binary data = frame_new OpBinary data True"
definition frame_ping :: "bytes \<Rightarrow> frame" where "frame_ping data = frame_new OpPing data True"
definition frame_pong :: "bytes \<Rightarrow> frame" where "frame_pong data = frame_new OpPong data True"

definition frame_close :: "u16 \<Rightarrow> bytes \<Rightarrow> frame" where
  "frame_close c r = frame_new OpClose (u16_to_be_bytes c @ r) True"

definition frame_close_empty :: frame where "frame_close_empty = frame_new OpClose [] True"

definition frame_is_control :: "frame \<Rightarrow> bool" where
  "frame_is_control f = is_control (h_opcode (f_header f))"

definition frame_is_final :: "frame \<Rightarrow> bool" where
  "frame_is_final f = h_fin (f_header f)"

definition frame_as_text :: "platform \<Rightarrow> frame \<Rightarrow> bytes ws_result" where
  "frame_as_text pf f =
     (if \<not> validate_utf8 (pf_simdutf8 pf) (f_payload f) then Err InvalidUtf8 else Ok (f_payload f))"

text \<open>
  \<^verbatim>\<open>String::from_utf8_lossy\<close> of the standard library: every maximal part that starts a
  sequence and cannot be continued becomes U+FFFD.
\<close>

definition replacement :: bytes where "replacement = [0xEF, 0xBF, 0xBD]"

function utf8_lossy :: "bytes \<Rightarrow> bytes \<Rightarrow> bytes" where
  "utf8_lossy p [] = (if p = [] then [] else replacement)"
| "utf8_lossy p (b # bs) =
     (case utf8_step p b of
        Some q \<Rightarrow> if q = [] then p @ [b] @ utf8_lossy [] bs else utf8_lossy q bs
      | None \<Rightarrow> if p = [] then replacement @ utf8_lossy [] bs else replacement @ utf8_lossy [] (b # bs))"
  by pat_completeness auto
termination
  by (relation "measures [\<lambda>(p, bs). length bs, \<lambda>(p, bs). length p]") auto

definition parse_close :: "frame \<Rightarrow> close_reason option" where
  "parse_close f =
     (if length (f_payload f) < 2 then None
      else Some (close_reason_new (u16_from_be_bytes (take 2 (f_payload f)))
                  (if length (f_payload f) > 2 then utf8_lossy [] (drop 2 (f_payload f)) else [])))"

section \<open>The encoder\<close>

text \<open>
  \<^verbatim>\<open>encode_frame_with_rsv\<close> reserves space behind the buffer, writes through a raw pointer into it and then
  extends the length of the buffer over it. The region is what \<^verbatim>\<open>reserve\<close> guarantees, no more; its bytes
  are uninitialised (\<^term>\<open>None\<close>) until a write at their offset. A write that leaves the region is an
  access out of bounds and has no result.
\<close>

type_synonym region = "byte option list"

definition write_at :: "nat \<Rightarrow> bytes \<Rightarrow> region \<Rightarrow> region option" where
  "write_at off bs r =
     (if off + length bs \<le> length r then Some (take off r @ map Some bs @ drop (off + length bs) r) else None)"

text \<open>The second byte and the extended length; the offset behind them.\<close>

definition write_length :: "byte \<Rightarrow> nat \<Rightarrow> region \<Rightarrow> (nat \<times> region) option" where
  "write_length mask_bit payload_len r =
     (if payload_len \<le> SMALL_MESSAGE_THRESHOLD
      then do { r \<leftarrow> write_at 1 [mask_bit OR of_nat payload_len] r; Some (2, r) }
      else if payload_len \<le> MEDIUM_MESSAGE_THRESHOLD
      then do { r \<leftarrow> write_at 1 [mask_bit OR 126] r;
                r \<leftarrow> write_at 2 (u16_to_be_bytes (of_nat payload_len)) r; Some (4, r) }
      else do { r \<leftarrow> write_at 1 [mask_bit OR 127] r;
                r \<leftarrow> write_at 2 (u64_to_be_bytes (of_nat payload_len)) r; Some (10, r) })"

text \<open>
  \<^verbatim>\<open>set_len\<close> exposes the bytes of the allocation up to the new length, here the first \<open>n\<close> of the region; a
  length behind the end of the allocation has no result.
\<close>

definition set_len :: "nat \<Rightarrow> region \<Rightarrow> region option" where
  "set_len n r = (if n \<le> length r then Some (take n r) else None)"

definition encode_region :: "bool \<Rightarrow> opcode \<Rightarrow> bytes \<Rightarrow> bool \<Rightarrow> mask4 option \<Rightarrow> bool \<Rightarrow> region option" where
  "encode_region le op payload fin mk rsv1 =
     (let payload_len = length payload;
          ext_len_size = (if payload_len > MEDIUM_MESSAGE_THRESHOLD then 8
                          else if payload_len > SMALL_MESSAGE_THRESHOLD then 2 else 0);
          mask_size = (if mk \<noteq> None then 4 else 0);
          header_size = 2 + ext_len_size + mask_size;
          total_size = header_size + payload_len;
          b0 = opcode_byte op OR flag fin 0x80 OR flag rsv1 0x40
      in do {
           r \<leftarrow> write_at 0 [b0] (replicate total_size None);
           (offset, r) \<leftarrow> write_length (flag (mk \<noteq> None) 0x80) payload_len r;
           r \<leftarrow> (case mk of
                   Some m \<Rightarrow> do { r \<leftarrow> write_at offset (mask_bytes m) r;
                                  write_at (offset + 4) (encode_payload_masked_inline le payload m) r }
                 | None \<Rightarrow> write_at offset payload r);
           set_len total_size r })"

text \<open>
  The bytes of the buffer after the call. They are defined when no write left the region and every exposed
  byte was written; the lemmas on the encoder in \<open>WS_Codec\<close> show that both always hold.
\<close>

definition encode_frame_with_rsv ::
  "platform \<Rightarrow> bytes \<Rightarrow> opcode \<Rightarrow> bytes \<Rightarrow> bool \<Rightarrow> mask4 option \<Rightarrow> bool \<Rightarrow> bytes" where
  "encode_frame_with_rsv pf buf op payload fin mk rsv1 =
     buf @ map the (the (encode_region (little_endian (pf_target pf)) op payload fin mk rsv1))"

definition encode_frame :: "platform \<Rightarrow> bytes \<Rightarrow> opcode \<Rightarrow> bytes \<Rightarrow> bool \<Rightarrow> mask4 option \<Rightarrow> bytes" where
  "encode_frame pf buf op payload fin mk = encode_frame_with_rsv pf buf op payload fin mk False"

definition encode_frame_header_with_rsv ::
  "bytes \<Rightarrow> opcode \<Rightarrow> nat \<Rightarrow> bool \<Rightarrow> mask4 option \<Rightarrow> bool \<Rightarrow> bytes" where
  "encode_frame_header_with_rsv buf op payload_len fin mk rsv1 =
     header_encode \<lparr>h_fin = fin, h_rsv1 = rsv1, h_rsv2 = False, h_rsv3 = False, h_opcode = op,
        h_masked = (mk \<noteq> None), h_payload_len = of_nat payload_len, h_mask = mk\<rparr> buf"

definition encode_frame_header :: "bytes \<Rightarrow> opcode \<Rightarrow> nat \<Rightarrow> bool \<Rightarrow> mask4 option \<Rightarrow> bytes" where
  "encode_frame_header buf op payload_len fin mk = encode_frame_header_with_rsv buf op payload_len fin mk False"

end
