(* ===== verification/WS_Parser.thy ===== *)
theory WS_Parser
  imports WS_Frame
begin

text \<open>
  The incremental frame parser of \<^verbatim>\<open>src/frame.rs\<close>. Its five waiting states are one
  definition each, \<^verbatim>\<open>parse_slow\<close> loops over them, and the two fast paths are in
  \<^verbatim>\<open>parse\<close> and \<^verbatim>\<open>parse_after_complete_data_miss\<close>. An \<^verbatim>\<open>unwrap\<close> of \<^verbatim>\<open>None\<close>, an index
  out of range and an underflow of \<^verbatim>\<open>usize\<close> are \<^term>\<open>Panic\<close>.
\<close>

section \<open>State\<close>

datatype parse_state = Header | ExtendedLen16 | ExtendedLen64 | Mask | Payload | FrameTooLarge_st

record frame_parser =
  p_state :: parse_state
  header_buf :: bytes
  header_len :: nat
  p_header :: "frame_header option"
  max_frame_size :: nat
  expect_masked :: bool
  allow_rsv1 :: bool
  payload_ready :: nat

record PendingPayload =
  pp_opcode :: opcode
  pp_fin :: bool
  pp_rsv1 :: bool
  pp_ready :: nat
  pp_total :: nat

definition parser_new :: "nat \<Rightarrow> bool \<Rightarrow> frame_parser" where
  "parser_new m expect =
     \<lparr>p_state = Header, header_buf = replicate 14 0, header_len = 0, p_header = None, max_frame_size = m,
      expect_masked = expect, allow_rsv1 = False, payload_ready = 0\<rparr>"

definition parser_with_compression :: "nat \<Rightarrow> bool \<Rightarrow> frame_parser" where
  "parser_with_compression m expect =
     \<lparr>p_state = Header, header_buf = replicate 14 0, header_len = 0, p_header = None, max_frame_size = m,
      expect_masked = expect, allow_rsv1 = True, payload_ready = 0\<rparr>"

definition pending_payload :: "frame_parser \<Rightarrow> PendingPayload option" where
  "pending_payload p =
     (if p_state p \<noteq> Payload then None
      else case p_header p of
        None \<Rightarrow> None
      | Some h \<Rightarrow> Some \<lparr>pp_opcode = h_opcode h, pp_fin = h_fin h, pp_rsv1 = h_rsv1 h,
                   pp_ready = payload_ready p, pp_total = unat (h_payload_len h)\<rparr>)"

definition set_max_frame_size :: "frame_parser \<Rightarrow> nat \<Rightarrow> frame_parser" where
  "set_max_frame_size p m =
     (let p = p\<lparr>max_frame_size := m\<rparr> in
      case p_header p of
        Some h \<Rightarrow> if unat (h_payload_len h) > m then p\<lparr>p_state := FrameTooLarge_st\<rparr> else p
      | None \<Rightarrow> p)"

definition set_compression :: "frame_parser \<Rightarrow> bool \<Rightarrow> frame_parser" where
  "set_compression p enabled = p\<lparr>allow_rsv1 := enabled\<rparr>"

definition parser_reset :: "frame_parser \<Rightarrow> frame_parser" where
  "parser_reset p = p\<lparr>p_state := Header, header_len := 0, p_header := None, payload_ready := 0\<rparr>"

section \<open>The states of the slow path\<close>

text \<open>One turn of the loop returns from the function or goes on with a new state.\<close>

datatype turn = Return "frame option ws_result" | Continue

type_synonym parser_turn = "turn \<times> frame_parser \<times> bytes"

definition bit_fin :: "byte \<Rightarrow> bool" where "bit_fin b0 \<longleftrightarrow> b0 AND 0x80 \<noteq> 0"
definition bit_rsv1 :: "byte \<Rightarrow> bool" where "bit_rsv1 b0 \<longleftrightarrow> b0 AND 0x40 \<noteq> 0"
definition bit_rsv2 :: "byte \<Rightarrow> bool" where "bit_rsv2 b0 \<longleftrightarrow> b0 AND 0x20 \<noteq> 0"
definition bit_rsv3 :: "byte \<Rightarrow> bool" where "bit_rsv3 b0 \<longleftrightarrow> b0 AND 0x10 \<noteq> 0"
definition bit_masked :: "byte \<Rightarrow> bool" where "bit_masked b1 \<longleftrightarrow> b1 AND 0x80 \<noteq> 0"

text \<open>The checks on the first two bytes, in the order of the \<^verbatim>\<open>Header\<close> state.\<close>

definition check_base :: "frame_parser \<Rightarrow> byte \<Rightarrow> byte \<Rightarrow> opcode ws_result" where
  "check_base p b0 b1 =
     (if bit_rsv1 b0 \<and> \<not> allow_rsv1 p then Err (Protocol_err ''RSV1 must be 0 (compression not negotiated)'')
      else if bit_rsv2 b0 \<or> bit_rsv3 b0 then Err (Protocol_err ''RSV2 and RSV3 must be 0'')
      else case opcode_from_u8 (b0 AND 0x0F) of
        None \<Rightarrow> Err (InvalidFrame ''invalid opcode'')
      | Some op \<Rightarrow>
          if bit_rsv1 b0 \<and> op \<notin> {OpText, OpBinary} then Err (Protocol_err ''RSV1 on control or continuation frame'')
          else if is_control op \<and> \<not> bit_fin b0 then Err (Protocol_err ''control frame must not be fragmented'')
          else if expect_masked p \<and> \<not> bit_masked b1 then Err (Protocol_err ''client frames must be masked'')
          else if \<not> expect_masked p \<and> bit_masked b1 then Err (Protocol_err ''server frames must not be masked'')
          else Ok op)"

definition check_len16 :: "u64 \<Rightarrow> unit ws_result" where
  "check_len16 len = (if unat len < 126 then Err (Protocol_err ''payload length not minimal'') else Ok ())"

definition check_len64 :: "u64 \<Rightarrow> unit ws_result" where
  "check_len64 len =
     (if len \<le> 0xFFFF then Err (Protocol_err ''payload length not minimal'')
      else if drop_bit 63 len \<noteq> 0 then Err (Protocol_err ''payload length MSB must be 0'')
      else Ok ())"

definition check_size :: "frame_parser \<Rightarrow> opcode \<Rightarrow> u64 \<Rightarrow> unit ws_result" where
  "check_size p op len =
     (if is_control op \<and> unat len > 125 then Err (Protocol_err ''control frame too large'')
      else if unat len > max_frame_size p then Err FrameTooLarge
      else Ok ())"

definition header_of :: "byte \<Rightarrow> byte \<Rightarrow> opcode \<Rightarrow> u64 \<Rightarrow> mask4 option \<Rightarrow> frame_header" where
  "header_of b0 b1 op len mk =
     \<lparr>h_fin = bit_fin b0, h_rsv1 = bit_rsv1 b0, h_rsv2 = bit_rsv2 b0, h_rsv3 = bit_rsv3 b0, h_opcode = op,
      h_masked = bit_masked b1, h_payload_len = len, h_mask = mk\<rparr>"

definition mask_of :: "bytes \<Rightarrow> nat \<Rightarrow> mask4" where
  "mask_of buf i = (buf ! i, buf ! (i + 1), buf ! (i + 2), buf ! (i + 3))"

definition unmask :: "platform \<Rightarrow> mask4 option \<Rightarrow> bytes \<Rightarrow> bytes" where
  "unmask pf mk payload =
     (case mk of Some m \<Rightarrow> apply_mask (pf_target pf) (pf_addr pf payload) payload m | None \<Rightarrow> payload)"

text \<open>
  The rest of the \<^verbatim>\<open>Header\<close> state, once the length is known and \<^verbatim>\<open>header_size\<close> bytes hold it.
\<close>

definition header_with_length ::
  "platform \<Rightarrow> frame_parser \<Rightarrow> bytes \<Rightarrow> opcode \<Rightarrow> u64 \<Rightarrow> nat \<Rightarrow> parser_turn" where
  "header_with_length pf p buf op len header_sz =
     (let b0 = buf ! 0; b1 = buf ! 1; masked = bit_masked b1 in
      case check_size p op len of
        Err e \<Rightarrow> (Return (Err e), p, buf)
      | Panic \<Rightarrow> (Return Panic, p, buf)
      | Ok _ \<Rightarrow>
          let total_header = header_sz + (if masked then 4 else 0) in
          if length buf < total_header then
            let to_copy = min (length buf) 14 in
            (Return (Ok None),
             p\<lparr>header_buf := copy_from_slice (header_buf p) 0 (take to_copy buf), header_len := to_copy,
               p_header := Some (header_of b0 b1 op len None), p_state := Mask\<rparr>,
             drop to_copy buf)
          else
            let mk = (if masked then Some (mask_of buf header_sz) else None);
                buf = drop total_header buf;
                header = header_of b0 b1 op len mk;
                payload_len = unat len
            in if length buf \<ge> payload_len
               then (Return (Ok (Some \<lparr>f_header = header, f_payload = unmask pf mk (take payload_len buf)\<rparr>)),
                     p, drop payload_len buf)
               else (Continue, p\<lparr>p_header := Some header, p_state := Payload\<rparr>, buf))"

definition save_base :: "frame_parser \<Rightarrow> byte \<Rightarrow> byte \<Rightarrow> parse_state \<Rightarrow> frame_parser" where
  "save_base p b0 b1 st = p\<lparr>header_buf := (header_buf p)[0 := b0, 1 := b1], header_len := 2, p_state := st\<rparr>"

text \<open>An extended length in \<open>n\<close> header bytes: saved for later, or read and checked.\<close>

definition header_extended ::
  "platform \<Rightarrow> frame_parser \<Rightarrow> bytes \<Rightarrow> opcode \<Rightarrow> nat \<Rightarrow> parse_state \<Rightarrow> (bytes \<Rightarrow> u64) \<Rightarrow> (u64 \<Rightarrow> unit ws_result) \<Rightarrow> parser_turn" where
  "header_extended pf p buf op n st read check =
     (if length buf < n then (Return (Ok None), save_base p (buf ! 0) (buf ! 1) st, drop 2 buf)
      else let len = read (take (n - 2) (drop 2 buf)) in
        case check len of
          Err e \<Rightarrow> (Return (Err e), p, buf)
        | Panic \<Rightarrow> (Return Panic, p, buf)
        | Ok _ \<Rightarrow> header_with_length pf p buf op len n)"

definition step_header :: "platform \<Rightarrow> frame_parser \<Rightarrow> bytes \<Rightarrow> parser_turn" where
  "step_header pf p buf =
     (if length buf < 2 then (Return (Ok None), p, buf)
      else let b0 = buf ! 0; b1 = buf ! 1 in
        case check_base p b0 b1 of
          Err e \<Rightarrow> (Return (Err e), p, buf)
        | Panic \<Rightarrow> (Return Panic, p, buf)
        | Ok op \<Rightarrow>
            let len_byte = b1 AND 0x7F in
            if len_byte \<le> 125 then header_with_length pf p buf op (ucast len_byte) 2
            else if len_byte = 126
            then header_extended pf p buf op 4 ExtendedLen16 (\<lambda>bs. ucast (u16_from_be_bytes bs)) check_len16
            else header_extended pf p buf op 10 ExtendedLen64 u64_from_be_bytes check_len64)"

text \<open>Copying what has arrived of the header, up to \<^verbatim>\<open>target_len\<close> bytes of it.\<close>

definition save_header_bytes :: "frame_parser \<Rightarrow> bytes \<Rightarrow> frame_parser" where
  "save_header_bytes p bs =
     p\<lparr>header_buf := copy_from_slice (header_buf p) (header_len p) bs, header_len := header_len p + length bs\<rparr>"

definition parse_header_with_len :: "frame_parser \<Rightarrow> u64 \<Rightarrow> frame_parser ws_result" where
  "parse_header_with_len p len =
     (let b0 = header_buf p ! 0; b1 = header_buf p ! 1 in
      case opcode_from_u8 (b0 AND 0x0F) of
        None \<Rightarrow> Err (InvalidFrame ''invalid opcode'')
      | Some op \<Rightarrow> map_result (\<lambda>_. p\<lparr>p_header := Some (header_of b0 b1 op len None)\<rparr>) (check_size p op len))"

text \<open>The two states that wait for an extended length differ in its width and its checks.\<close>

definition step_extended ::
  "frame_parser \<Rightarrow> bytes \<Rightarrow> nat \<Rightarrow> (bytes \<Rightarrow> u64) \<Rightarrow> (u64 \<Rightarrow> unit ws_result) \<Rightarrow> parser_turn" where
  "step_extended p buf target_len read check =
     (if header_len p > target_len then (Return Panic, p, buf)
      else let needed = target_len - header_len p in
        if length buf < needed then (Return (Ok None), save_header_bytes p buf, [])
        else
          let p = save_header_bytes p (take needed buf); buf = drop needed buf;
              len = read (take (target_len - 2) (drop 2 (header_buf p)))
          in case check len of
               Err e \<Rightarrow> (Return (Err e), p, buf)
             | Panic \<Rightarrow> (Return Panic, p, buf)
             | Ok _ \<Rightarrow>
                 (case parse_header_with_len p len of
                    Err e \<Rightarrow> (Return (Err e), p, buf)
                  | Panic \<Rightarrow> (Return Panic, p, buf)
                  | Ok p \<Rightarrow>
                      (case p_header p of
                         None \<Rightarrow> (Return Panic, p, buf)
                       | Some h \<Rightarrow> (Continue, p\<lparr>p_state := (if h_masked h then Mask else Payload)\<rparr>, buf))))"

definition step_len16 :: "frame_parser \<Rightarrow> bytes \<Rightarrow> parser_turn" where
  "step_len16 p buf = step_extended p buf 4 (\<lambda>bs. ucast (u16_from_be_bytes bs)) check_len16"

definition step_len64 :: "frame_parser \<Rightarrow> bytes \<Rightarrow> parser_turn" where
  "step_len64 p buf = step_extended p buf 10 u64_from_be_bytes check_len64"

definition step_mask :: "frame_parser \<Rightarrow> bytes \<Rightarrow> parser_turn" where
  "step_mask p buf =
     (case p_header p of
        None \<Rightarrow> (Return Panic, p, buf)
      | Some h \<Rightarrow>
          let header_base = (if unat (h_payload_len h) > MEDIUM_MESSAGE_THRESHOLD then 10
                             else if unat (h_payload_len h) > SMALL_MESSAGE_THRESHOLD then 4 else 2);
              target_len = header_base + 4
          in if header_len p > target_len then (Return Panic, p, buf)
             else let needed = target_len - header_len p in
               if length buf < needed then (Return (Ok None), save_header_bytes p buf, [])
               else let p = save_header_bytes p (take needed buf) in
                 (Continue,
                  p\<lparr>p_header := Some (h\<lparr>h_mask := Some (mask_of (header_buf p) header_base)\<rparr>), p_state := Payload\<rparr>,
                  drop needed buf))"

text \<open>Unmasking, with the key at its phase, what has arrived beyond the first \<open>ready\<close> bytes.\<close>

definition unmask_from :: "platform \<Rightarrow> mask4 option \<Rightarrow> nat \<Rightarrow> bytes \<Rightarrow> bytes" where
  "unmask_from pf mk ready buf =
     (case mk of
        Some m \<Rightarrow> take ready buf
          @ apply_mask_offset (pf_target pf) (pf_addr pf (drop ready buf)) (drop ready buf) m ready
      | None \<Rightarrow> buf)"

definition step_payload :: "platform \<Rightarrow> frame_parser \<Rightarrow> bytes \<Rightarrow> parser_turn" where
  "step_payload pf p buf =
     (case p_header p of
        None \<Rightarrow> (Return Panic, p, buf)
      | Some h \<Rightarrow>
          let payload_len = unat (h_payload_len h) in
          if length buf < payload_len then
            let available = length buf; ready = payload_ready p in
            if available > ready
            then (Return (Ok None), p\<lparr>payload_ready := available\<rparr>, unmask_from pf (h_mask h) ready buf)
            else (Return (Ok None), p, buf)
          else
            let ready = payload_ready p; payload = take payload_len buf;
                payload = (if ready < payload_len then unmask_from pf (h_mask h) ready payload else payload)
            in (Return (Ok (Some \<lparr>f_header = h, f_payload = payload\<rparr>)), parser_reset p, drop payload_len buf))"

definition parse_step :: "platform \<Rightarrow> frame_parser \<Rightarrow> bytes \<Rightarrow> parser_turn" where
  "parse_step pf p buf =
     (case p_state p of
        FrameTooLarge_st \<Rightarrow> (Return (Err FrameTooLarge), p, buf)
      | Header \<Rightarrow> step_header pf p buf
      | ExtendedLen16 \<Rightarrow> step_len16 p buf
      | ExtendedLen64 \<Rightarrow> step_len64 p buf
      | Mask \<Rightarrow> step_mask p buf
      | Payload \<Rightarrow> step_payload pf p buf)"

text \<open>A turn that goes on does so in a later state, so the loop ends.\<close>

fun state_rank :: "parse_state \<Rightarrow> nat" where
  "state_rank Header = 3"
| "state_rank ExtendedLen16 = 3"
| "state_rank ExtendedLen64 = 3"
| "state_rank Mask = 2"
| "state_rank Payload = 1"
| "state_rank FrameTooLarge_st = 0"

lemma parse_step_rank:
  "parse_step pf p buf = (Continue, p', buf') \<Longrightarrow> state_rank (p_state p') < state_rank (p_state p)"
  by (auto simp: parse_step_def step_header_def header_extended_def header_with_length_def step_len16_def step_len64_def
      step_extended_def step_mask_def step_payload_def Let_def save_header_bytes_def
      split: parse_state.splits result.splits if_splits option.splits)

function parse_slow :: "platform \<Rightarrow> frame_parser \<Rightarrow> bytes \<Rightarrow> frame option ws_result \<times> frame_parser \<times> bytes" where
  "parse_slow pf p buf =
     (case parse_step pf p buf of
        (Return r, p', buf') \<Rightarrow> (r, p', buf')
      | (Continue, p', buf') \<Rightarrow> parse_slow pf p' buf')"
  by pat_completeness auto
termination
  by (relation "measure (\<lambda>(pf, p, buf). state_rank (p_state p))") (auto dest: parse_step_rank [OF sym])

declare parse_slow.simps [simp del]

section \<open>The fast paths\<close>

definition try_parse_complete_unmasked_data :: "frame_parser \<Rightarrow> bytes \<Rightarrow> (opcode \<times> bytes) option \<times> bytes" where
  "try_parse_complete_unmasked_data p buf =
     (if p_state p \<noteq> Header \<or> expect_masked p \<or> length buf < 2 then (None, buf)
      else let b0 = buf ! 0; b1 = buf ! 1 in
        if b0 \<notin> {0x81, 0x82} then (None, buf)
        else case (if b1 \<le> 125 then Some (2, unat b1)
                   else if b1 = 126 \<and> length buf \<ge> 4 then
                     let len = unat (u16_from_be_bytes (take 2 (drop 2 buf)))
                     in if len < 126 then None else Some (4, len)
                   else None) of
          None \<Rightarrow> (None, buf)
        | Some (hlen, payload_len) \<Rightarrow>
            if payload_len > max_frame_size p \<or> length buf < hlen + payload_len then (None, buf)
            else let buf = drop hlen buf
              in (Some (if b0 = 0x81 then OpText else OpBinary, take payload_len buf), drop payload_len buf))"

definition quick_rsv_bad :: "frame_parser \<Rightarrow> byte \<Rightarrow> bool" where
  "quick_rsv_bad p b0 \<longleftrightarrow>
     (bit_rsv1 b0 \<and> (\<not> allow_rsv1 p \<or> b0 AND 0x0F \<notin> {0x1, 0x2})) \<or> bit_rsv2 b0 \<or> bit_rsv3 b0"

text \<open>
  One of the two inline paths for a complete small frame; \<^term>\<open>None\<close> falls through. The header
  has \<open>head\<close> bytes, a key included when the frame is masked.
\<close>

definition small_frame ::
  "platform \<Rightarrow> frame_parser \<Rightarrow> bytes \<Rightarrow> bool \<Rightarrow> (frame option ws_result \<times> frame_parser \<times> bytes) option" where
  "small_frame pf p buf masked =
     (let b0 = buf ! 0; b1 = buf ! 1; len_byte = b1 AND 0x7F; head = (if masked then 6 else 2) in
      if len_byte \<le> 125 \<and> bit_masked b1 = masked then
        let payload_len = unat len_byte in
        if length buf \<ge> head + payload_len then
          if quick_rsv_bad p b0 then Some (parse_slow pf p buf)
          else case opcode_from_u8 (b0 AND 0x0F) of
            None \<Rightarrow> None
          | Some op \<Rightarrow>
              if is_control op \<and> \<not> bit_fin b0
              then Some (Err (Protocol_err ''control frame must not be fragmented''), p, buf)
              else if payload_len > max_frame_size p then Some (Err FrameTooLarge, p, buf)
              else
                let mk = (if masked then Some (mask_of buf 2) else None); body = drop head buf
                in Some (Ok (Some \<lparr>f_header = header_of b0 b1 op (of_nat payload_len) mk,
                                   f_payload = unmask pf mk (take payload_len body)\<rparr>), p, drop payload_len body)
        else None
      else None)"

definition parse_after_complete_data_miss ::
  "platform \<Rightarrow> frame_parser \<Rightarrow> bytes \<Rightarrow> frame option ws_result \<times> frame_parser \<times> bytes" where
  "parse_after_complete_data_miss pf p buf =
     (case (if p_state p = Header \<and> \<not> expect_masked p \<and> length buf \<ge> 2 then small_frame pf p buf False else None) of
        Some r \<Rightarrow> r
      | None \<Rightarrow>
          (case (if p_state p = Header \<and> expect_masked p \<and> length buf \<ge> 6 then small_frame pf p buf True else None) of
             Some r \<Rightarrow> r
           | None \<Rightarrow> parse_slow pf p buf))"

definition parse :: "platform \<Rightarrow> frame_parser \<Rightarrow> bytes \<Rightarrow> frame option ws_result \<times> frame_parser \<times> bytes" where
  "parse pf p buf =
     (case try_parse_complete_unmasked_data p buf of
        (Some (op, payload), buf') \<Rightarrow>
          (Ok (Some \<lparr>f_header = \<lparr>h_fin = True, h_rsv1 = False, h_rsv2 = False, h_rsv3 = False, h_opcode = op,
                       h_masked = False, h_payload_len = of_nat (length payload), h_mask = None\<rparr>,
                     f_payload = payload\<rparr>), p, buf')
      | (None, buf') \<Rightarrow> parse_after_complete_data_miss pf p buf')"

end
