(* ===== verification/WS_Incremental.thy ===== *)
theory WS_Incremental
  imports WS_Error
begin

text \<open>
  Incremental decoders in general. A decoder is called with a state and a buffer and gives an
  item, asks for more input, or fails; a reference scanner says what the first item of a byte
  string is. The locale \<open>scanner\<close> has the laws of the reference, and \<open>incremental_decoder\<close> is the
  contract between the two, with a relation that tells which bytes a state and a buffer stand for. Its lemmas say that draining the
  decoder after each piece of input gives the items of the whole input, however it was cut, and
  that a decoder that has failed fails in the same way from then on.
\<close>

datatype 'a scan = More | Bad error | Got 'a nat

section \<open>The items of an input\<close>

function items_of :: "('i list \<Rightarrow> 'a scan) \<Rightarrow> 'i list \<Rightarrow> 'a list \<times> error option \<times> 'i list" where
  "items_of spec raw =
     (case spec raw of
        More \<Rightarrow> ([], None, raw)
      | Bad e \<Rightarrow> ([], Some e, raw)
      | Got v n \<Rightarrow>
          if n = 0 \<or> length raw < n then ([], None, raw)
          else (let (vs, e, rest) = items_of spec (drop n raw) in (v # vs, e, rest)))"
  by pat_completeness auto
termination
  by (relation "measure (\<lambda>(spec, raw). length raw)") auto

declare items_of.simps [simp del]

section \<open>Draining a decoder\<close>

type_synonym ('s, 'i, 'a) decoder = "'s \<Rightarrow> 'i list \<Rightarrow> 'a option ws_result \<times> 's \<times> 'i list"

partial_function (option) drain ::
  "('s, 'i, 'a) decoder \<Rightarrow> 's \<Rightarrow> 'i list \<Rightarrow> ('a list \<times> error option \<times> 's \<times> 'i list) option" where
  "drain step s buf =
     (case step s buf of
        (Ok (Some v), s', buf') \<Rightarrow>
          Option.bind (drain step s' buf') (\<lambda>(vs, e, s'', buf''). Some (v # vs, e, s'', buf''))
      | (Ok None, s', buf') \<Rightarrow> Some ([], None, s', buf')
      | (Err e, s', buf') \<Rightarrow> Some ([], Some e, s', buf')
      | (Panic, _, _) \<Rightarrow> None)"

text \<open>The input arrives in pieces; after each the decoder is drained, up to the first failure.\<close>

fun feed :: "('s, 'i, 'a) decoder \<Rightarrow> 's \<Rightarrow> 'i list \<Rightarrow> 'i list list \<Rightarrow> ('a list \<times> error option \<times> 's \<times> 'i list) option" where
  "feed step s buf [] = Some ([], None, s, buf)"
| "feed step s buf (c # cs) =
     Option.bind (drain step s (buf @ c)) (\<lambda>(vs, e, s', buf').
       if e \<noteq> None then Some (vs, e, s', buf')
       else Option.bind (feed step s' buf' cs) (\<lambda>(ws, e', s'', buf''). Some (vs @ ws, e', s'', buf'')))"

text \<open>Single calls, each after the arrival of one more piece, going on whatever they return.\<close>

fun call_results :: "('s, 'i, 'a) decoder \<Rightarrow> 's \<Rightarrow> 'i list \<Rightarrow> 'i list list \<Rightarrow> 'a option ws_result list" where
  "call_results step s buf [] = []"
| "call_results step s buf (c # cs) =
     (case step s (buf @ c) of (r, s', buf') \<Rightarrow> r # call_results step s' buf' cs)"

section \<open>Scanners\<close>

text \<open>What a scanner has decided is not changed by more input, and it makes progress.\<close>

locale scanner =
  fixes spec :: "'i list \<Rightarrow> 'a scan"
  assumes spec_append: "spec raw \<noteq> More \<Longrightarrow> spec (raw @ x) = spec raw"
    and spec_progress: "spec raw = Got v n \<Longrightarrow> 0 < n \<and> n \<le> length raw"
begin

lemma items_More: "spec raw = More \<Longrightarrow> items_of spec raw = ([], None, raw)"
  by (simp add: items_of.simps [of spec raw])

lemma items_Bad: "spec raw = Bad e \<Longrightarrow> items_of spec raw = ([], Some e, raw)"
  by (simp add: items_of.simps [of spec raw])

lemma items_Got:
  "spec raw = Got v n \<Longrightarrow> items_of spec raw = (let (vs, e, rest) = items_of spec (drop n raw) in (v # vs, e, rest))"
  using spec_progress [of raw v n] by (subst items_of.simps) auto

text \<open>Induction over the items of an input.\<close>

lemma scan_induct [case_names More Bad Got]:
  assumes "\<And>raw. spec raw = More \<Longrightarrow> P raw" "\<And>raw e. spec raw = Bad e \<Longrightarrow> P raw"
    "\<And>raw v n. spec raw = Got v n \<Longrightarrow> n \<le> length raw \<Longrightarrow> P (drop n raw) \<Longrightarrow> P raw"
  shows "P raw"
proof (induction raw rule: length_induct)
  case (1 raw)
  show ?case
  proof (cases "spec raw")
    case (Got v n)
    then have "length (drop n raw) < length raw" "n \<le> length raw" using spec_progress [OF Got] by auto
    then show ?thesis using assms(3) [OF Got] 1 by blast
  qed (use assms in auto)
qed

lemma items_append:
  "items_of spec raw = (vs, e, rest) \<Longrightarrow>
     items_of spec (raw @ x) = (case e of Some e \<Rightarrow> (vs, Some e, rest @ x)
        | None \<Rightarrow> (let (ws, e', rest') = items_of spec (rest @ x) in (vs @ ws, e', rest')))"
proof (induction raw arbitrary: vs e rest rule: scan_induct)
  case (More raw)
  then show ?case by (simp add: items_More)
next
  case (Bad raw e')
  then have "spec (raw @ x) = Bad e'" using spec_append [of raw x] by simp
  then show ?case using Bad by (auto simp: items_Bad)
next
  case (Got raw v n)
  then have gx: "spec (raw @ x) = Got v n" using spec_append [of raw x] by simp
  obtain ws where ws: "items_of spec (drop n raw) = (ws, e, rest)" "vs = v # ws"
    using Got(4) items_Got [OF Got(1)] by (cases "items_of spec (drop n raw)") auto
  show ?case using Got(3) [OF ws(1)] items_Got [OF gx] Got(2) ws(2)
    by (auto simp: Let_def split: option.split prod.split)
qed

lemma items_rest: "items_of spec raw = (vs, None, rest) \<Longrightarrow> items_of spec rest = ([], None, rest)"
proof (induction raw arbitrary: vs rule: scan_induct)
  case (Got raw v n)
  then show ?case using items_Got [OF Got(1)] by (cases "items_of spec (drop n raw)") auto
qed (auto simp: items_More items_Bad)

lemma items_failed: "items_of spec raw = (vs, Some e, rest) \<Longrightarrow> spec rest = Bad e"
proof (induction raw arbitrary: vs rule: scan_induct)
  case (Got raw v n)
  then show ?case using items_Got [OF Got(1)] by (cases "items_of spec (drop n raw)") auto
qed (auto simp: items_More items_Bad)

end

section \<open>Decoders\<close>

locale incremental_decoder = scanner spec for spec :: "'i list \<Rightarrow> 'a scan" +
  fixes step :: "('s, 'i, 'a) decoder"
    and rel :: "'s \<Rightarrow> 'i list \<Rightarrow> 'i list \<Rightarrow> bool"
  assumes rel_append: "rel s buf raw \<Longrightarrow> rel s (buf @ x) (raw @ x)"
    and step_More: "rel s buf raw \<Longrightarrow> spec raw = More \<Longrightarrow> \<exists>s' buf'. step s buf = (Ok None, s', buf') \<and> rel s' buf' raw"
    and step_Bad: "rel s buf raw \<Longrightarrow> spec raw = Bad e \<Longrightarrow> \<exists>s' buf'. step s buf = (Err e, s', buf') \<and> rel s' buf' raw"
    and step_Got: "rel s buf raw \<Longrightarrow> spec raw = Got v n \<Longrightarrow>
      \<exists>s' buf'. step s buf = (Ok (Some v), s', buf') \<and> rel s' buf' (drop n raw)"
begin

lemma drain_items:
  "rel s buf raw \<Longrightarrow> items_of spec raw = (vs, e, rest) \<Longrightarrow>
     \<exists>s' buf'. drain step s buf = Some (vs, e, s', buf') \<and> rel s' buf' rest"
proof (induction raw arbitrary: s buf vs e rest rule: scan_induct)
  case (More raw)
  then show ?case using step_More [OF More(2,1)] items_More [OF More(1)] by (auto simp: drain.simps [of step s buf])
next
  case (Bad raw e)
  then show ?case using step_Bad [OF Bad(2,1)] items_Bad [OF Bad(1)] by (auto simp: drain.simps [of step s buf])
next
  case (Got raw v n)
  obtain s' buf' where s: "step s buf = (Ok (Some v), s', buf')" "rel s' buf' (drop n raw)"
    using step_Got [OF Got(4,1)] by blast
  obtain ws where ws: "items_of spec (drop n raw) = (ws, e, rest)" "vs = v # ws"
    using Got(5) items_Got [OF Got(1)] by (cases "items_of spec (drop n raw)") auto
  from Got(3) [OF s(2) ws(1)] show ?case using s(1) ws(2) by (auto simp: drain.simps [of step s buf])
qed

text \<open>The pieces do not matter, only the input does.\<close>

lemma feed_items:
  "rel s buf raw \<Longrightarrow> items_of spec raw = ([], None, raw) \<Longrightarrow> items_of spec (raw @ concat cs) = (vs, e, rest) \<Longrightarrow>
     \<exists>s' buf' rest'. feed step s buf cs = Some (vs, e, s', buf') \<and> rel s' buf' rest'
       \<and> (case e of None \<Rightarrow> rest' = rest | Some e \<Rightarrow> spec rest' = Bad e)"
proof (induction cs arbitrary: s buf raw vs e rest)
  case Nil
  then show ?case by auto
next
  case (Cons c cs)
  obtain vs1 e1 rest1 where f1: "items_of spec (raw @ c) = (vs1, e1, rest1)" by (cases "items_of spec (raw @ c)") auto
  obtain s1 buf1 where d: "drain step s (buf @ c) = Some (vs1, e1, s1, buf1)" "rel s1 buf1 rest1"
    using drain_items [OF rel_append [OF Cons.prems(1)] f1] by blast
  have app: "items_of spec ((raw @ c) @ concat cs) = (vs, e, rest)" using Cons.prems(3) by simp
  show ?case
  proof (cases e1)
    case (Some e')
    then have "spec rest1 = Bad e'" using items_failed f1 by blast
    then show ?thesis using Some d items_append [OF f1, of "concat cs"] app by auto
  next
    case None
    obtain ws where g: "items_of spec (rest1 @ concat cs) = (ws, e, rest)" "vs = vs1 @ ws"
      using items_append [OF f1, of "concat cs"] app None by (cases "items_of spec (rest1 @ concat cs)") auto
    have "items_of spec rest1 = ([], None, rest1)" using items_rest [of "raw @ c"] f1 None by blast
    from Cons.IH [OF d(2) this g(1)] show ?thesis using d None g(2) by auto
  qed
qed

lemma failed_again:
  "rel s buf raw \<Longrightarrow> spec raw = Bad e \<Longrightarrow> call_results step s buf cs = replicate (length cs) (Err e)"
proof (induction cs arbitrary: s buf raw)
  case (Cons c cs)
  have bad: "spec (raw @ c) = Bad e" using Cons.prems(2) spec_append [of raw c] by simp
  obtain s' buf' where "step s (buf @ c) = (Err e, s', buf')" "rel s' buf' (raw @ c)"
    using step_Bad [OF rel_append [OF Cons.prems(1)] bad] by blast
  then show ?case using Cons.IH [OF _ bad] by simp
qed simp

end

end
