(* ===== verification/WS_Parser_Refine.thy ===== *)
theory WS_Parser_Refine
  imports WS_Parser WS_Incremental
begin

text \<open>
  The parser of \<open>WS_Parser\<close> against a reference. \<open>frame_spec\<close> reads one frame from the front of a
  byte string in one go, with no state and no buffer; \<open>parser_rel\<close> says which bytes a parser in
  the middle of a frame has taken. Each state of \<^verbatim>\<open>parse_slow\<close> agrees with the reference under
  this relation (\<open>step_header_agrees\<close>, \<open>step_extended_agrees\<close>, \<open>step_mask_agrees\<close>,
  \<open>step_payload_agrees\<close>), so the loop does (\<open>parse_slow_agrees\<close>), and the two fast paths in
  front of it give what it gives (\<open>parse_is_slow\<close>).
\<close>

section \<open>The reference parser\<close>

definition extended_spec :: "frame_parser \<Rightarrow> bytes \<Rightarrow> opcode \<Rightarrow> nat \<Rightarrow> (bytes \<Rightarrow> u64) \<Rightarrow> (u64 \<Rightarrow> unit ws_result) \<Rightarrow> (opcode \<times> u64) scan" where
  "extended_spec p raw op n read check =
     (if length raw < n then More
      else let len = read (take (n - 2) (drop 2 raw)) in
        case check len of
          Err e \<Rightarrow> Bad e
        | _ \<Rightarrow> (case check_size p op len of Err e \<Rightarrow> Bad e | _ \<Rightarrow> Got (op, len) n))"

definition length_spec :: "frame_parser \<Rightarrow> bytes \<Rightarrow> (opcode \<times> u64) scan" where
  "length_spec p raw =
     (if length raw < 2 then More
      else case check_base p (raw ! 0) (raw ! 1) of
        Err e \<Rightarrow> Bad e
      | Panic \<Rightarrow> More
      | Ok op \<Rightarrow>
          let len_byte = raw ! 1 AND 0x7F in
          if len_byte \<le> 125 then extended_spec p raw op 2 (\<lambda>_. ucast len_byte) (\<lambda>_. Ok ())
          else if len_byte = 126 then extended_spec p raw op 4 (\<lambda>bs. ucast (u16_from_be_bytes bs)) check_len16
          else extended_spec p raw op 10 u64_from_be_bytes check_len64)"

definition header_spec :: "frame_parser \<Rightarrow> bytes \<Rightarrow> frame_header scan" where
  "header_spec p raw =
     (case length_spec p raw of
        More \<Rightarrow> More
      | Bad e \<Rightarrow> Bad e
      | Got (op, len) n \<Rightarrow>
          if bit_masked (raw ! 1) then
            if length raw < n + 4 then More
            else Got (header_of (raw ! 0) (raw ! 1) op len (Some (mask_of raw n))) (n + 4)
          else Got (header_of (raw ! 0) (raw ! 1) op len None) n)"

definition unmask_ref :: "mask4 option \<Rightarrow> nat \<Rightarrow> bytes \<Rightarrow> bytes" where
  "unmask_ref mk k bs = (case mk of Some m \<Rightarrow> mask_from m k bs | None \<Rightarrow> bs)"

definition frame_spec :: "frame_parser \<Rightarrow> bytes \<Rightarrow> frame scan" where
  "frame_spec p raw =
     (case header_spec p raw of
        More \<Rightarrow> More
      | Bad e \<Rightarrow> Bad e
      | Got h n \<Rightarrow>
          let len = unat (h_payload_len h) in
          if length raw < n + len then More
          else Got \<lparr>f_header = h, f_payload = unmask_ref (h_mask h) 0 (take len (drop n raw))\<rparr> (n + len))"

definition same_limits :: "frame_parser \<Rightarrow> frame_parser \<Rightarrow> bool" where
  "same_limits p q \<longleftrightarrow> max_frame_size p = max_frame_size q \<and> expect_masked p = expect_masked q
     \<and> allow_rsv1 p = allow_rsv1 q"

lemma same_limits_refl [simp]: "same_limits p p"
  by (simp add: same_limits_def)

lemma same_limits_trans: "same_limits p q \<Longrightarrow> same_limits q r \<Longrightarrow> same_limits p r"
  by (simp add: same_limits_def)

lemma check_base_cong: "same_limits p q \<Longrightarrow> check_base p = check_base q"
  by (rule ext)+ (auto simp: check_base_def same_limits_def split: option.split)

lemma check_size_cong: "same_limits p q \<Longrightarrow> check_size p = check_size q"
  by (rule ext)+ (simp add: check_size_def same_limits_def)

lemma extended_spec_cong: assumes "same_limits p q" shows "extended_spec p = extended_spec q"
  by (rule ext)+ (unfold extended_spec_def check_size_cong [OF assms], rule refl)

lemma length_spec_cong: assumes "same_limits p q" shows "length_spec p = length_spec q"
  by (rule ext) (unfold length_spec_def check_base_cong [OF assms] extended_spec_cong [OF assms], rule refl)

lemma header_spec_cong: assumes "same_limits p q" shows "header_spec p = header_spec q"
  by (rule ext) (unfold header_spec_def length_spec_cong [OF assms], rule refl)

lemma frame_spec_cong: assumes "same_limits p q" shows "frame_spec p = frame_spec q"
  by (rule ext) (unfold frame_spec_def header_spec_cong [OF assms], rule refl)

lemma check_never_panics [simp]:
  "check_base p b0 b1 \<noteq> Panic" "check_len16 len \<noteq> Panic" "check_len64 len \<noteq> Panic" "check_size p op len \<noteq> Panic"
  by (simp_all add: check_base_def check_len16_def check_len64_def check_size_def split: option.split)

text \<open>More input never changes what has been decided.\<close>

lemma nth_0_1_append: "2 \<le> length raw \<Longrightarrow> (raw @ x) ! 0 = raw ! 0 \<and> (raw @ x) ! 1 = raw ! 1"
  by (auto simp: nth_append)

lemma extended_spec_append:
  "n \<le> length raw \<Longrightarrow> 2 \<le> n \<Longrightarrow> extended_spec p (raw @ x) op n read check = extended_spec p raw op n read check"
  by (simp add: extended_spec_def)

lemma extended_spec_Got: "extended_spec p raw op n read check = Got v k \<Longrightarrow> k = n \<and> n \<le> length raw"
  by (auto simp: extended_spec_def Let_def split: if_splits result.splits)

lemma extended_spec_decided: "extended_spec p raw op n read check \<noteq> More \<Longrightarrow> n \<le> length raw"
  by (auto simp: extended_spec_def split: if_splits)

lemma length_spec_append: "length_spec p raw \<noteq> More \<Longrightarrow> length_spec p (raw @ x) = length_spec p raw"
proof -
  assume a: "length_spec p raw \<noteq> More"
  then have l: "2 \<le> length raw" by (auto simp: length_spec_def split: if_splits)
  show ?thesis
    using a l nth_0_1_append [OF l]
    by (auto simp: length_spec_def Let_def extended_spec_append dest: extended_spec_decided split: result.splits if_splits)
qed

lemma low7_u64: "unat (ucast (b AND 0x7F) :: u64) = unat (b AND 0x7F)" for b :: byte
proof -
  have "unat (b AND 0x7F) mod 18446744073709551616 = unat (b AND 0x7F)"
    using unat_byte_less [of "b AND 0x7F"] by (intro mod_less) linarith
  then show ?thesis by (simp add: unsigned_ucast_eq take_bit_eq_mod)
qed

lemma unat_ucast_u16: "unat (ucast w :: u64) = unat w" for w :: u16
proof -
  have "unat w < 65536" using unsigned_less [of w, where ?'a = nat] by simp
  then show ?thesis by (simp add: unsigned_ucast_eq take_bit_eq_mod)
qed

lemma check_len64_Ok: "check_len64 len = Ok () \<Longrightarrow> 65535 < unat len"
  by (auto simp: check_len64_def word_le_nat_alt split: if_splits)

lemma length_spec_Got:
  assumes "length_spec p raw = Got (op, len) n"
  shows "n \<le> length raw" "2 \<le> n" "check_base p (raw ! 0) (raw ! 1) = Ok op"
    "check_size p op len = Ok ()"
    "n = (if unat len > MEDIUM_MESSAGE_THRESHOLD then 10 else if unat len > SMALL_MESSAGE_THRESHOLD then 4 else 2)"
proof -
  from assms obtain op' where l: "2 \<le> length raw" and b: "check_base p (raw ! 0) (raw ! 1) = Ok op'"
    by (auto simp: length_spec_def split: if_splits result.splits)
  let ?k = "raw ! 1 AND 0x7F"
  consider (small) "?k \<le> 125" | (mid) "\<not> ?k \<le> 125" "?k = 126" | (big) "\<not> ?k \<le> 125" "?k \<noteq> 126" by blast
  then have "n \<le> length raw \<and> 2 \<le> n \<and> op' = op \<and> check_size p op len = Ok () \<and>
    n = (if unat len > MEDIUM_MESSAGE_THRESHOLD then 10 else if unat len > SMALL_MESSAGE_THRESHOLD then 4 else 2)"
  proof cases
    case small
    then have "unat (ucast ?k :: u64) \<le> 125" by (simp only: low7_u64) (simp add: word_le_nat_alt)
    then show ?thesis using assms l b small
      by (auto simp: length_spec_def extended_spec_def Let_def thresholds split: result.splits if_splits)
  next
    case mid
    have "\<not> 65535 < unat (ucast (u16_from_be_bytes bs) :: u64)" for bs
      using unsigned_less [of "u16_from_be_bytes bs", where ?'a = nat] by (simp add: unat_ucast_u16)
    then show ?thesis using assms l b mid
      by (auto simp: length_spec_def extended_spec_def Let_def thresholds check_len16_def split: result.splits if_splits)
  next
    case big
    then show ?thesis using assms l b
      by (auto simp: length_spec_def extended_spec_def Let_def thresholds dest!: check_len64_Ok split: result.splits if_splits)
  qed
  with b show "n \<le> length raw" "2 \<le> n" "check_base p (raw ! 0) (raw ! 1) = Ok op" "check_size p op len = Ok ()"
    "n = (if unat len > MEDIUM_MESSAGE_THRESHOLD then 10 else if unat len > SMALL_MESSAGE_THRESHOLD then 4 else 2)"
    by auto
qed

lemma mask_of_append: "n + 4 \<le> length raw \<Longrightarrow> mask_of (raw @ x) n = mask_of raw n"
  by (simp add: mask_of_def nth_append)

lemma header_spec_append: "header_spec p raw \<noteq> More \<Longrightarrow> header_spec p (raw @ x) = header_spec p raw"
proof -
  assume a: "header_spec p raw \<noteq> More"
  then have ls: "length_spec p (raw @ x) = length_spec p raw"
    by (intro length_spec_append) (auto simp: header_spec_def)
  show ?thesis
  proof (cases "length_spec p raw")
    case (Got v n)
    obtain op len where v: "v = (op, len)" by force
    note g = length_spec_Got [OF Got [unfolded v]]
    have nth: "(raw @ x) ! 0 = raw ! 0" "(raw @ x) ! Suc 0 = raw ! Suc 0" using g(1,2) by (auto simp: nth_append)
    show ?thesis using a g by (auto simp: header_spec_def ls Got v nth mask_of_append split: if_splits)
  qed (use a ls in \<open>auto simp: header_spec_def\<close>)
qed

lemma header_spec_Got: "header_spec p raw = Got h n \<Longrightarrow> n \<le> length raw"
  by (auto simp: header_spec_def split: scan.splits if_splits dest: length_spec_Got(1))

text \<open>A decided prefix decides alone.\<close>

lemma length_spec_take: "length_spec p raw = Got v n \<Longrightarrow> length_spec p (take n raw) = Got v n"
proof -
  assume a: "length_spec p raw = Got v n"
  obtain op len where v: "v = (op, len)" by force
  note g = length_spec_Got [OF a [unfolded v]]
  have "length_spec p (take n raw) \<noteq> More"
    using a g(1,2) unfolding length_spec_def
    by (auto simp: extended_spec_def Let_def drop_take min_absorb1 split: if_splits result.splits)
  then show ?thesis using length_spec_append [of p "take n raw" "drop n raw"] a by simp
qed

lemma header_spec_take: "header_spec p raw = Got h n \<Longrightarrow> header_spec p (take n raw) = Got h n"
proof -
  assume a: "header_spec p raw = Got h n"
  then obtain op len k where k: "length_spec p raw = Got (op, len) k"
    by (auto simp: header_spec_def split: scan.splits if_splits)
  have kn: "k \<le> n" "2 \<le> k" "bit_masked (raw ! 1) \<Longrightarrow> k + 4 \<le> n" "n \<le> length raw"
    using a k length_spec_Got(2) [OF k] header_spec_Got [OF a] by (auto simp: header_spec_def split: if_splits)
  have "length_spec p (take n raw) = Got (op, len) k"
    using length_spec_take [OF k] length_spec_append [of p "take k raw" "take (n - k) (drop k raw)"] kn
    by (simp flip: take_add)
  then have "header_spec p (take n raw) \<noteq> More" using kn by (auto simp: header_spec_def)
  then show ?thesis using header_spec_append [of p "take n raw" "drop n raw"] a by simp
qed

lemma frame_spec_append: "frame_spec p raw \<noteq> More \<Longrightarrow> frame_spec p (raw @ x) = frame_spec p raw"
proof -
  assume a: "frame_spec p raw \<noteq> More"
  then have hs: "header_spec p (raw @ x) = header_spec p raw"
    by (intro header_spec_append) (auto simp: frame_spec_def)
  then show ?thesis using a
    by (auto simp: frame_spec_def Let_def split: scan.splits if_splits)
qed

lemma frame_spec_Got: "frame_spec p raw = Got f n \<Longrightarrow> n \<le> length raw \<and> 2 \<le> n"
  by (auto simp: frame_spec_def header_spec_def Let_def split: scan.splits if_splits dest: length_spec_Got(2))
section \<open>The parser and the bytes it stands for\<close>

text \<open>
  \<open>parser_rel p buf raw\<close>: with the parser in state \<open>p\<close> and \<open>buf\<close> in the caller's buffer, \<open>raw\<close> is
  what has arrived of the current frame and after it. Saved header bytes come first; the first
  \<^verbatim>\<open>payload_ready\<close> bytes of the buffer are already unmasked.
\<close>

definition saved :: "frame_parser \<Rightarrow> bytes" where
  "saved p = take (header_len p) (header_buf p)"

abbreviation hb0 :: "frame_parser \<Rightarrow> byte" where "hb0 p \<equiv> header_buf p ! 0"
abbreviation hb1 :: "frame_parser \<Rightarrow> byte" where "hb1 p \<equiv> header_buf p ! 1"

definition parser_rel :: "frame_parser \<Rightarrow> bytes \<Rightarrow> bytes \<Rightarrow> bool" where
  "parser_rel p buf raw \<longleftrightarrow> length (header_buf p) = 14 \<and>
     (case p_state p of
        Header \<Rightarrow> raw = buf \<and> p_header p = None \<and> payload_ready p = 0
      | ExtendedLen16 \<Rightarrow> raw = saved p @ buf \<and> p_header p = None \<and> payload_ready p = 0
          \<and> 2 \<le> header_len p \<and> header_len p \<le> 4 \<and> is_Ok (check_base p (hb0 p) (hb1 p)) \<and> hb1 p AND 0x7F = 126
      | ExtendedLen64 \<Rightarrow> raw = saved p @ buf \<and> p_header p = None \<and> payload_ready p = 0
          \<and> 2 \<le> header_len p \<and> header_len p \<le> 10 \<and> is_Ok (check_base p (hb0 p) (hb1 p))
          \<and> \<not> hb1 p AND 0x7F \<le> 125 \<and> hb1 p AND 0x7F \<noteq> 126
      | Mask \<Rightarrow> raw = saved p @ buf \<and> payload_ready p = 0 \<and> bit_masked (hb1 p)
          \<and> (\<exists>op len n. p_header p = Some (header_of (hb0 p) (hb1 p) op len None)
               \<and> length_spec p (take n (header_buf p)) = Got (op, len) n \<and> n \<le> header_len p \<and> header_len p \<le> n + 4)
      | Payload \<Rightarrow> (\<exists>h hb. p_header p = Some h \<and> header_spec p hb = Got h (length hb)
          \<and> payload_ready p \<le> unat (h_payload_len h) \<and> payload_ready p \<le> length buf
          \<and> raw = hb @ unmask_ref (h_mask h) 0 (take (payload_ready p) buf) @ drop (payload_ready p) buf)
      | FrameTooLarge_st \<Rightarrow> False)"

text \<open>A parser that waits has unmasked all it holds of the payload, or has no complete header yet.\<close>

definition settled :: "frame_parser \<Rightarrow> bytes \<Rightarrow> bytes \<Rightarrow> bool" where
  "settled p buf raw \<longleftrightarrow> (if p_state p = Payload then payload_ready p = length buf else header_spec p raw = More)"

definition agrees :: "frame_parser \<Rightarrow> bytes \<Rightarrow> frame option ws_result \<times> frame_parser \<times> bytes \<Rightarrow> bool" where
  "agrees p raw = (\<lambda>(r, p', buf'). same_limits p p' \<and>
     (case frame_spec p raw of
        More \<Rightarrow> r = Ok None \<and> parser_rel p' buf' raw \<and> settled p' buf' raw
      | Bad e \<Rightarrow> r = Err e \<and> parser_rel p' buf' raw
      | Got f n \<Rightarrow> r = Ok (Some f) \<and> p_state p' = Header \<and> parser_rel p' buf' (drop n raw)))"

definition turn_agrees :: "frame_parser \<Rightarrow> bytes \<Rightarrow> parser_turn \<Rightarrow> bool" where
  "turn_agrees p raw = (\<lambda>(t, p', buf').
     case t of Return r \<Rightarrow> agrees p raw (r, p', buf')
             | Continue \<Rightarrow> same_limits p p' \<and> parser_rel p' buf' raw)"

lemmas agree_defs = turn_agrees_def agrees_def

lemma turn_waits:
  assumes "header_spec p raw = More" "same_limits p q" "parser_rel q b raw" "p_state q \<noteq> Payload"
  shows "turn_agrees p raw (Return (Ok None), q, b)"
  using assms header_spec_cong [OF assms(2)] by (simp add: agree_defs frame_spec_def settled_def)

lemma unmask_eq: "phase_kept (pf_target pf) \<Longrightarrow> unmask pf mk bs = unmask_ref mk 0 bs"
  by (simp add: unmask_def unmask_ref_def apply_mask_eq split: option.split)

lemma unmask_from_eq:
  "phase_kept (pf_target pf) \<Longrightarrow> unmask_from pf mk k bs = take k bs @ unmask_ref mk k (drop k bs)"
  by (simp add: unmask_from_def unmask_ref_def apply_mask_offset_eq split: option.split)

lemma unmask_ref_append: "unmask_ref mk k (xs @ ys) = unmask_ref mk k xs @ unmask_ref mk (k + length xs) ys"
  by (simp add: unmask_ref_def mask_from_append split: option.split)

lemma unmask_ref_simps [simp]:
  "length (unmask_ref mk k xs) = length xs" "unmask_ref mk k [] = []"
  "unmask_ref mk k (unmask_ref mk k xs) = xs"
  by (simp_all add: unmask_ref_def split: option.split)

lemma step_payload_agrees:
  assumes rel: "parser_rel p buf raw" and st: "p_state p = Payload" and pf: "phase_kept (pf_target pf)"
  shows "turn_agrees p raw (step_payload pf p buf)"
proof -
  obtain h hb where h: "p_header p = Some h" "header_spec p hb = Got h (length hb)" "length (header_buf p) = 14"
    "payload_ready p \<le> unat (h_payload_len h)" "payload_ready p \<le> length buf"
    and raw: "raw = hb @ unmask_ref (h_mask h) 0 (take (payload_ready p) buf) @ drop (payload_ready p) buf"
    using rel st by (auto simp: parser_rel_def)
  define k len where k: "k = payload_ready p" and len: "len = unat (h_payload_len h)"
  have hs: "header_spec p raw = Got h (length hb)"
    unfolding raw using header_spec_append [of p hb] h(2) by simp
  have lraw: "length raw = length hb + length buf" using h by (simp add: raw)
  show ?thesis
  proof (cases "length buf < len")
    case True
    then have spec: "frame_spec p raw = More" using hs lraw by (simp add: frame_spec_def len)
    show ?thesis
    proof (cases "k < length buf")
      case True
      define buf' where "buf' = unmask_from pf (h_mask h) k buf"
      have b': "buf' = take k buf @ unmask_ref (h_mask h) k (drop k buf)" "length buf' = length buf"
        using pf True by (simp_all add: buf'_def unmask_from_eq)
      have "hb @ unmask_ref (h_mask h) 0 buf' = raw"
        using True unfolding b'(1) raw k [symmetric] by (simp add: unmask_ref_append)
      moreover have "same_limits p (p\<lparr>payload_ready := length buf\<rparr>)" by (simp add: same_limits_def)
      moreover have "header_spec (p\<lparr>payload_ready := length buf\<rparr>) hb = Got h (length hb)"
        using h(2) calculation(2) header_spec_cong by metis
      ultimately have "parser_rel (p\<lparr>payload_ready := length buf\<rparr>) buf' raw"
        using h st b'(2) \<open>length buf < len\<close> by (auto simp: parser_rel_def len)
      then show ?thesis
        using h(1) True \<open>length buf < len\<close> spec st b'(2)
        by (simp add: step_payload_def agree_defs same_limits_def settled_def flip: k len buf'_def)
    next
      case False
      then show ?thesis using h(1,5) rel \<open>length buf < len\<close> spec st
        by (simp add: step_payload_def agree_defs settled_def flip: k len)
    qed
  next
    case False
    have drop: "drop (length hb) raw = unmask_ref (h_mask h) 0 (take k buf) @ drop k buf"
      by (simp add: raw k)
    have kk: "k \<le> len" "k \<le> length buf" using h by (simp_all add: k len)
    have tk: "take len (drop (length hb) raw) = unmask_ref (h_mask h) 0 (take k buf) @ take (len - k) (drop k buf)"
      unfolding drop using kk by (simp add: min_absorb2)
    have pay: "unmask_ref (h_mask h) 0 (take len (drop (length hb) raw)) = take k buf @ unmask_ref (h_mask h) k (drop k (take len buf))"
      unfolding tk using kk by (simp add: unmask_ref_append drop_take)
    have rest: "drop (length hb + len) raw = drop len buf"
      unfolding raw using kk by (simp flip: k)
    have spec: "frame_spec p raw = Got \<lparr>f_header = h, f_payload = take k buf @ unmask_ref (h_mask h) k (drop k (take len buf))\<rparr> (length hb + len)"
      using hs lraw False pay by (simp add: frame_spec_def flip: len)
    have "(if k < len then unmask_from pf (h_mask h) k (take len buf) else take len buf)
        = take k buf @ unmask_ref (h_mask h) k (drop k (take len buf))"
      using kk pf by (auto simp: unmask_from_eq min_absorb1)
    then have "step_payload pf p buf = (Return (Ok (Some \<lparr>f_header = h, f_payload = take k buf @ unmask_ref (h_mask h) k (drop k (take len buf))\<rparr>)),
       parser_reset p, drop len buf)"
      using h(1) False by (simp add: step_payload_def Let_def flip: k len)
    then show ?thesis using spec h(3) rest
      by (simp add: agree_defs parser_rel_def parser_reset_def same_limits_def)
  qed
qed
lemma take_save_header_bytes:
  "length (header_buf p) = 14 \<Longrightarrow> header_len p + length bs \<le> 14 \<Longrightarrow>
     saved (save_header_bytes p bs) = saved p @ bs \<and> length (header_buf (save_header_bytes p bs)) = 14
     \<and> header_len (save_header_bytes p bs) = header_len p + length bs"
  using take_copy_from_slice [of "header_len p" "header_buf p" bs]
  by (simp add: saved_def save_header_bytes_def)

lemma save_header_bytes_simps [simp]:
  "p_state (save_header_bytes p bs) = p_state p" "p_header (save_header_bytes p bs) = p_header p"
  "payload_ready (save_header_bytes p bs) = payload_ready p" "same_limits p (save_header_bytes p bs)"
  "same_limits (save_header_bytes p bs) p"
  by (simp_all add: save_header_bytes_def same_limits_def)

lemma take_header_buf_save:
  "length (header_buf p) = 14 \<Longrightarrow> n \<le> header_len p \<Longrightarrow> header_len p \<le> 14 \<Longrightarrow>
     take n (header_buf (save_header_bytes p bs)) = take n (header_buf p)"
  by (simp add: save_header_bytes_def copy_from_slice_def)

lemma nth_header_buf_save [simp]:
  "length (header_buf p) = 14 \<Longrightarrow> i < header_len p \<Longrightarrow> header_len p \<le> 14 \<Longrightarrow>
     header_buf (save_header_bytes p bs) ! i = header_buf p ! i"
  by (simp add: save_header_bytes_def)

lemma nth_take_01: "2 \<le> n \<Longrightarrow> take n xs ! 0 = xs ! 0 \<and> take n xs ! Suc 0 = xs ! Suc 0"
  by simp

text \<open>In the \<^verbatim>\<open>Mask\<close> state: the length is known and the key is not complete.\<close>

lemma mask_rel:
  assumes "parser_rel p buf raw" and "p_state p = Mask"
  obtains op len n where "p_header p = Some (header_of (hb0 p) (hb1 p) op len None)"
    "length_spec p (take n (header_buf p)) = Got (op, len) n" "n \<le> header_len p" "header_len p \<le> n + 4" "2 \<le> n" "n \<le> 10"
    "bit_masked (hb1 p)" "raw = saved p @ buf" "length (header_buf p) = 14" "payload_ready p = 0"
    "step_mask p buf =
      (if length buf < n + 4 - header_len p then (Return (Ok None), save_header_bytes p buf, [])
       else let q = save_header_bytes p (take (n + 4 - header_len p) buf) in
         (Continue, q\<lparr>p_header := Some ((header_of (hb0 p) (hb1 p) op len None)\<lparr>h_mask := Some (mask_of (header_buf q) n)\<rparr>),
            p_state := Payload\<rparr>, drop (n + 4 - header_len p) buf))"
proof -
  obtain op len n where h: "p_header p = Some (header_of (hb0 p) (hb1 p) op len None)"
    and ls: "length_spec p (take n (header_buf p)) = Got (op, len) n"
    and n: "n \<le> header_len p" "header_len p \<le> n + 4"
    and m: "bit_masked (hb1 p)" "raw = saved p @ buf" "length (header_buf p) = 14" "payload_ready p = 0"
    using assms by (auto simp: parser_rel_def)
  note g = length_spec_Got [OF ls]
  have n10: "2 \<le> n" "n \<le> 10" using g(2,5) by (auto simp: thresholds split: if_splits)
  have base: "(if unat (h_payload_len (header_of (hb0 p) (hb1 p) op len None)) > MEDIUM_MESSAGE_THRESHOLD then 10
      else if unat (h_payload_len (header_of (hb0 p) (hb1 p) op len None)) > SMALL_MESSAGE_THRESHOLD then 4 else 2) = n"
    using g(5) by (simp add: header_of_def)
  show ?thesis
    by (rule that [OF h ls n n10 m]) (unfold step_mask_def h option.case Let_def base, use n in simp)
qed

lemma saved_prefix:
  "n \<le> header_len p \<Longrightarrow> saved p = take n (header_buf p) @ drop n (saved p)"
  by (simp add: saved_def) (metis append_take_drop_id min.absorb1 take_take)

lemma step_mask_short:
  assumes rel: "parser_rel p buf raw" and st: "p_state p = Mask" and short: "fst (step_mask p buf) \<noteq> Continue"
  shows "turn_agrees p raw (step_mask p buf)"
  using rel st
proof (cases rule: mask_rel)
  case (1 op len n)
  have True: "length buf < n + 4 - header_len p" using short 1(11) by (simp add: Let_def split: if_splits)
  have sv: "saved (save_header_bytes p buf) = saved p @ buf" "length (header_buf (save_header_bytes p buf)) = 14"
    "header_len (save_header_bytes p buf) = header_len p + length buf"
    using take_save_header_bytes [of p buf] 1(3-6,9) True by simp_all
  have hl: "header_len p \<le> 14" using 1(4,6) by simp
  have "length_spec (save_header_bytes p buf) (take n (header_buf (save_header_bytes p buf))) = Got (op, len) n"
    using 1(2) take_header_buf_save [OF 1(9,3) hl] length_spec_cong [of "save_header_bytes p buf" p] by simp
  then have "parser_rel (save_header_bytes p buf) [] raw"
    using st 1(1,3-10) sv True hl unfolding parser_rel_def
    by (simp, intro exI [of _ op] exI [of _ len] conjI refl exI [of _ n]) simp_all
  moreover have "header_spec p raw = More"
  proof -
    have raw: "raw = take n (header_buf p) @ (drop n (saved p) @ buf)" using saved_prefix [OF 1(3)] 1(8) by simp
    then have "length_spec p raw = Got (op, len) n"
      using length_spec_append [of p "take n (header_buf p)"] 1(2) by simp
    moreover have "raw ! Suc 0 = hb1 p" using raw 1(5,9) by (simp add: nth_append)
    moreover have "length raw < n + 4" using True 1(3,8,9) by (simp add: saved_def)
    ultimately show ?thesis using 1(7) by (simp add: header_spec_def)
  qed
  ultimately show ?thesis using 1(11) True st by (simp add: turn_waits)
qed

lemma step_mask_full:
  assumes rel: "parser_rel p buf raw" and st: "p_state p = Mask" and full: "fst (step_mask p buf) = Continue"
  shows "turn_agrees p raw (step_mask p buf)"
  using rel st
proof (cases rule: mask_rel)
  case (1 op len n)
  define need where "need = n + 4 - header_len p"
  define q where "q = save_header_bytes p (take need buf)"
  define h where "h = (header_of (hb0 p) (hb1 p) op len None)\<lparr>h_mask := Some (mask_of (header_buf q) n)\<rparr>"
  define q' where "q' = q\<lparr>p_header := Some h, p_state := Payload\<rparr>"
  have fit: "need \<le> length buf" using full 1(11) by (simp add: need_def split: if_splits)
  have step: "step_mask p buf = (Continue, q', drop need buf)"
    using 1(11) fit unfolding need_def [symmetric] by (simp add: q'_def q_def h_def Let_def)
  have sv: "saved q = saved p @ take need buf" "length (header_buf q) = 14" "header_len q = n + 4"
    using take_save_header_bytes [of p "take need buf"] 1(4,6,9) fit by (simp_all add: q_def need_def)
  define hb where "hb = take (n + 4) (header_buf q)"
  have hbs: "hb = saved q" "length hb = n + 4" using sv(2,3) 1(6) by (simp_all add: hb_def saved_def)
  have hl: "header_len p \<le> 14" "0 < header_len p" "Suc 0 < header_len p" using 1(3-6) by simp_all
  have hb01: "hb ! 0 = hb0 p" "hb ! Suc 0 = hb1 p" using hl 1(9) by (simp_all add: hb_def q_def)
  have mk: "mask_of hb n = mask_of (header_buf q) n" by (simp add: mask_of_def hb_def)
  have "hb = take n (header_buf p) @ (drop n (saved p) @ take need buf)" using saved_prefix [OF 1(3)] sv(1) hbs(1) by simp
  then have "length_spec p hb = Got (op, len) n" using length_spec_append [of p "take n (header_buf p)"] 1(2) by simp
  then have hs: "header_spec p hb = Got h (length hb)"
    using 1(7) hb01 hbs(2) mk by (simp add: header_spec_def header_of_def h_def)
  have lim: "same_limits p q'" by (simp add: q'_def q_def same_limits_def save_header_bytes_def)
  have "payload_ready q' = 0" "length (header_buf q') = 14" "p_state q' = Payload" "p_header q' = Some h"
    using 1(10) sv by (simp_all add: q'_def q_def)
  moreover have "raw = hb @ drop need buf" using 1(8) sv hbs(1) by simp
  ultimately have "parser_rel q' (drop need buf) raw"
    using hs header_spec_cong [OF lim] by (auto simp: parser_rel_def)
  then show ?thesis using step lim by (simp add: agree_defs)
qed

lemma step_mask_agrees:
  "parser_rel p buf raw \<Longrightarrow> p_state p = Mask \<Longrightarrow> turn_agrees p raw (step_mask p buf)"
  using step_mask_short step_mask_full by blast

lemma is_OkE: "is_Ok r \<Longrightarrow> (\<And>x. r = Ok x \<Longrightarrow> P) \<Longrightarrow> P"
  by (cases r) auto

text \<open>
  Both states that wait for an extended length, with the width, the reader and the check as
  parameters: they go on exactly when the reference parser has a length.
\<close>

definition extended_wait :: "frame_parser \<Rightarrow> bytes \<Rightarrow> bytes \<Rightarrow> nat \<Rightarrow> opcode \<Rightarrow> bool" where
  "extended_wait p buf raw target op \<longleftrightarrow> length (header_buf p) = 14 \<and> 2 \<le> header_len p \<and> header_len p \<le> target
     \<and> 4 \<le> target \<and> target \<le> 10 \<and> raw = saved p @ buf \<and> p_header p = None \<and> payload_ready p = 0
     \<and> check_base p (hb0 p) (hb1 p) = Ok op"

text \<open>Completing the header bytes: what the saved bytes are then.\<close>

lemma extended_complete:
  assumes w: "extended_wait p buf raw target op" and fit: "target - header_len p \<le> length buf"
  defines "need \<equiv> target - header_len p"
  defines "q \<equiv> save_header_bytes p (take need buf)"
  shows "saved q = take target (header_buf q)" "length (header_buf q) = 14" "header_len q = target"
    "raw = saved q @ drop need buf" "hb0 q = hb0 p" "hb1 q = hb1 p" "length (saved q) = target"
    "saved q ! 0 = hb0 p" "saved q ! 1 = hb1 p" "same_limits p q" "payload_ready q = 0"
proof -
  have a: "length (header_buf p) = 14" "2 \<le> header_len p" "header_len p \<le> target" "target \<le> 10" "raw = saved p @ buf"
    using w by (auto simp: extended_wait_def)
  have ln: "length (take need buf) = need" "header_len p + need = target" using fit a by (auto simp: need_def)
  have sv: "saved q = saved p @ take need buf" "length (header_buf q) = 14" "header_len q = target"
    using take_save_header_bytes [of p "take need buf"] a ln by (simp_all add: q_def)
  then show "length (header_buf q) = 14" "header_len q = target" "saved q = take target (header_buf q)"
    "raw = saved q @ drop need buf" using a by (simp_all add: saved_def)
  show "length (saved q) = target" using sv(2,3) a by (simp add: saved_def)
  show h: "hb0 q = hb0 p" "hb1 q = hb1 p" using a by (simp_all add: q_def)
  show "saved q ! 0 = hb0 p" "saved q ! 1 = hb1 p" using h sv(3) a by (simp_all add: saved_def)
  show "same_limits p q" "payload_ready q = 0" using w by (simp_all add: q_def extended_wait_def)
qed

lemma step_extended_short:
  assumes w: "extended_wait p buf raw target op" and short: "length buf < target - header_len p"
    and spec: "length_spec p raw = extended_spec p raw op target read check"
    and rel: "\<And>q b. p_state q = p_state p \<Longrightarrow> extended_wait q b (saved q @ b) target op \<Longrightarrow> hb1 q = hb1 p \<Longrightarrow>
      parser_rel q b (saved q @ b)"
    and st: "p_state p \<noteq> Payload"
  shows "turn_agrees p raw (step_extended p buf target read check)"
proof -
  let ?q = "save_header_bytes p buf"
  have a: "length (header_buf p) = 14" "2 \<le> header_len p" "header_len p \<le> target" "target \<le> 10" "raw = saved p @ buf"
    "check_base p (hb0 p) (hb1 p) = Ok op"
    using w by (auto simp: extended_wait_def)
  have "length raw < target" using a short by (simp add: saved_def)
  then have more: "header_spec p raw = More" using spec by (simp add: extended_spec_def header_spec_def)
  have sv: "saved ?q = raw" "length (header_buf ?q) = 14" "header_len ?q = header_len p + length buf"
    using take_save_header_bytes [of p buf] a short by simp_all
  have hb: "hb0 ?q = hb0 p" "hb1 ?q = hb1 p" using a by simp_all
  have "check_base ?q (hb0 p) (hb1 p) = Ok op" using a(6) check_base_cong [of p ?q] by simp
  then have "extended_wait ?q [] (saved ?q @ []) target op"
    using w sv hb short by (simp add: extended_wait_def del: One_nat_def)
  then have "parser_rel ?q [] raw" using rel [of ?q "[]"] sv hb by simp
  then show ?thesis using short a more st by (simp add: step_extended_def turn_waits Let_def)
qed

lemma parse_header_with_len_eq:
  assumes "check_base p (hb0 p) (hb1 p) = Ok op" "same_limits p q" "hb0 q = hb0 p" "hb1 q = hb1 p"
  shows "parse_header_with_len q len =
    map_result (\<lambda>_. q\<lparr>p_header := Some (header_of (hb0 p) (hb1 p) op len None)\<rparr>) (check_size p op len)"
proof -
  have "opcode_from_u8 (hb0 p AND 0x0F) = Some op"
    using assms(1) by (auto simp: check_base_def split: if_splits option.splits)
  then show ?thesis using assms(3,4) check_size_cong [OF assms(2)] by (simp add: parse_header_with_len_def Let_def)
qed

text \<open>With the length accepted, the parser waits for the key or for the payload.\<close>

lemma extended_go_on:
  assumes q: "saved q = take target (header_buf q)" "length (header_buf q) = 14" "header_len q = target"
    "payload_ready q = 0" "length (saved q) = target" "2 \<le> target"
    and got: "length_spec q (saved q) = Got (op, len) target"
    and q': "q' = q\<lparr>p_header := Some (header_of (hb0 q) (hb1 q) op len None),
        p_state := (if bit_masked (hb1 q) then Mask else Payload)\<rparr>"
  shows "parser_rel q' b (saved q @ b)"
proof (cases "bit_masked (hb1 q)")
  case True
  have lim: "same_limits q q'" by (simp add: q' same_limits_def)
  have "length_spec q' (take target (header_buf q')) = Got (op, len) target"
    using got length_spec_cong [OF lim] q(1) by (simp add: q')
  then show ?thesis
    using True q unfolding parser_rel_def
    by (simp add: q' saved_def, intro exI [of _ op] exI [of _ len] conjI refl exI [of _ target]) simp_all
next
  case False
  have lim: "same_limits q q'" by (simp add: q' same_limits_def)
  have "saved q ! 0 = hb0 q" "saved q ! Suc 0 = hb1 q" using q(1,6) by simp_all
  then have "header_spec q' (saved q) = Got (header_of (hb0 q) (hb1 q) op len None) (length (saved q))"
    using got False q(5) length_spec_cong [OF lim] by (simp add: header_spec_def)
  then show ?thesis using False q by (auto simp: parser_rel_def q' intro: exI [of _ "saved q"])
qed

lemma step_extended_full:
  assumes w: "extended_wait p buf raw target op" and fit: "target - header_len p \<le> length buf"
    and spec: "\<And>q xs. same_limits p q \<Longrightarrow> 2 \<le> length xs \<Longrightarrow> xs ! 0 = hb0 p \<Longrightarrow> xs ! 1 = hb1 p \<Longrightarrow>
      length_spec q xs = extended_spec p xs op target read check"
    and rel: "\<And>q b. p_state q = p_state p \<Longrightarrow> extended_wait q b (saved q @ b) target op \<Longrightarrow> hb1 q = hb1 p \<Longrightarrow>
      parser_rel q b (saved q @ b)"
    and nopanic: "\<And>len. check len \<noteq> Panic"
  shows "turn_agrees p raw (step_extended p buf target read check)"
proof -
  define need where "need = target - header_len p"
  define q where "q = save_header_bytes p (take need buf)"
  define len where "len = read (take (target - 2) (drop 2 (header_buf q)))"
  define q' where "q' = q\<lparr>p_header := Some (header_of (hb0 q) (hb1 q) op len None),
        p_state := (if bit_masked (hb1 q) then Mask else Payload)\<rparr>"
  note c = extended_complete [OF w fit, folded need_def, folded q_def]
  have t: "4 \<le> target" "header_len p \<le> target" "check_base p (hb0 p) (hb1 p) = Ok op" using w by (auto simp: extended_wait_def)
  have rd: "take (target - 2) (drop 2 (saved q)) = take (target - 2) (drop 2 (header_buf q))"
    using t by (simp add: c(1) drop_take)
  have ls: "length_spec q (saved q) = (case check len of Err e \<Rightarrow> Bad e
      | _ \<Rightarrow> (case check_size p op len of Err e \<Rightarrow> Bad e | _ \<Rightarrow> Got (op, len) target))"
    using spec [OF c(10), of "saved q"] c(7-9) t(1) unfolding extended_spec_def Let_def rd len_def [symmetric] by simp
  have raws: "length_spec p raw = length_spec q (saved q)" if "length_spec q (saved q) \<noteq> More"
    using length_spec_append [OF that, of "drop need buf"] length_spec_cong [OF c(10)] c(4) by simp
  have "extended_wait q (drop need buf) (saved q @ drop need buf) target op"
    using w c t check_base_cong [OF c(10)] by (simp add: extended_wait_def q_def)
  from rel [OF _ this] c(4,6) have relq: "parser_rel q (drop need buf) raw" by (simp add: q_def)
  note ph = parse_header_with_len_eq [OF t(3) c(10,5,6), of len]
  have step: "step_extended p buf target read check =
     (case check len of Err e \<Rightarrow> (Return (Err e), q, drop need buf) | Panic \<Rightarrow> (Return Panic, q, drop need buf)
      | Ok _ \<Rightarrow> (case check_size p op len of Err e \<Rightarrow> (Return (Err e), q, drop need buf)
                | Panic \<Rightarrow> (Return Panic, q, drop need buf) | Ok _ \<Rightarrow> (Continue, q', drop need buf)))"
    using fit t unfolding step_extended_def Let_def need_def [symmetric] q_def [symmetric] len_def [symmetric] ph q'_def c(5,6)
    by (auto simp: header_of_def split: result.split)
  show ?thesis
  proof (cases "check len")
    case (Err e)
    then show ?thesis using step raws ls c(10) relq by (simp add: agree_defs frame_spec_def header_spec_def)
  next
    case Panic
    then show ?thesis using nopanic by blast
  next
    case (Ok u)
    show ?thesis
    proof (cases "check_size p op len")
      case (Err e)
      then show ?thesis using step raws ls c(10) relq Ok by (simp add: agree_defs frame_spec_def header_spec_def)
    next
      case Panic
      then show ?thesis by simp
    next
      case (Ok v)
      then have "length_spec q (saved q) = Got (op, len) target" using ls \<open>check len = Ok u\<close> by simp
      from extended_go_on [OF c(1-3,11,7) _ this q'_def, of "drop need buf"] t(1) c(4)
      have "parser_rel q' (drop need buf) raw" by simp
      moreover have "same_limits p q'" using c(10) by (simp add: q'_def same_limits_def)
      ultimately show ?thesis using step Ok \<open>check len = Ok u\<close> by (simp add: agree_defs)
    qed
  qed
qed

lemma step_extended_agrees:
  assumes w: "extended_wait p buf raw target op"
    and spec: "\<And>q xs. same_limits p q \<Longrightarrow> 2 \<le> length xs \<Longrightarrow> xs ! 0 = hb0 p \<Longrightarrow> xs ! 1 = hb1 p \<Longrightarrow>
      length_spec q xs = extended_spec p xs op target read check"
    and rel: "\<And>q b. p_state q = p_state p \<Longrightarrow> extended_wait q b (saved q @ b) target op \<Longrightarrow> hb1 q = hb1 p \<Longrightarrow>
      parser_rel q b (saved q @ b)"
    and nopanic: "\<And>len. check len \<noteq> Panic" and st: "p_state p \<noteq> Payload"
  shows "turn_agrees p raw (step_extended p buf target read check)"
proof (cases "length buf < target - header_len p")
  case True
  have "raw ! 0 = hb0 p" "raw ! 1 = hb1 p" "2 \<le> length raw"
    using w by (auto simp: extended_wait_def saved_def nth_append)
  then show ?thesis by (intro step_extended_short [OF w True _ rel st] spec) simp_all
next
  case False
  then show ?thesis by (intro step_extended_full [OF w _ spec rel nopanic]) simp_all
qed

lemma step_len16_agrees:
  assumes rel: "parser_rel p buf raw" and st: "p_state p = ExtendedLen16"
  shows "turn_agrees p raw (step_len16 p buf)"
proof -
  from rel st obtain op where w: "extended_wait p buf raw 4 op" and k: "hb1 p AND 0x7F = 126"
    by (auto simp: parser_rel_def extended_wait_def elim: is_OkE)
  then have op: "check_base p (hb0 p) (hb1 p) = Ok op" by (simp add: extended_wait_def)
  show ?thesis unfolding step_len16_def
  proof (rule step_extended_agrees [OF w])
    show "length_spec q xs = extended_spec p xs op 4 (\<lambda>bs. ucast (u16_from_be_bytes bs)) check_len16"
      if "same_limits p q" "2 \<le> length xs" "xs ! 0 = hb0 p" "xs ! 1 = hb1 p" for q xs
      using that op k by (simp add: length_spec_def check_base_cong [symmetric] extended_spec_cong [symmetric])
    show "parser_rel q b (saved q @ b)" if "p_state q = p_state p" "extended_wait q b (saved q @ b) 4 op" "hb1 q = hb1 p" for q b
      using that st k by (simp add: parser_rel_def extended_wait_def)
  qed (simp_all add: st)
qed

lemma step_len64_agrees:
  assumes rel: "parser_rel p buf raw" and st: "p_state p = ExtendedLen64"
  shows "turn_agrees p raw (step_len64 p buf)"
proof -
  from rel st obtain op where w: "extended_wait p buf raw 10 op" and k: "\<not> hb1 p AND 0x7F \<le> 125" "hb1 p AND 0x7F \<noteq> 126"
    by (auto simp: parser_rel_def extended_wait_def elim: is_OkE)
  then have op: "check_base p (hb0 p) (hb1 p) = Ok op" by (simp add: extended_wait_def)
  show ?thesis unfolding step_len64_def
  proof (rule step_extended_agrees [OF w])
    show "length_spec q xs = extended_spec p xs op 10 u64_from_be_bytes check_len64"
      if "same_limits p q" "2 \<le> length xs" "xs ! 0 = hb0 p" "xs ! 1 = hb1 p" for q xs
      using that op k by (simp add: length_spec_def check_base_cong [symmetric] extended_spec_cong [symmetric])
    show "parser_rel q b (saved q @ b)" if "p_state q = p_state p" "extended_wait q b (saved q @ b) 10 op" "hb1 q = hb1 p" for q b
      using that st k by (simp add: parser_rel_def extended_wait_def)
  qed (simp_all add: st)
qed

text \<open>
  The tail of the \<^verbatim>\<open>Header\<close> state: the header is short of its key, short of its payload, or the
  frame is complete.
\<close>

lemma header_wants_key:
  assumes st: "p_state p = Header" and p0: "length (header_buf p) = 14" "p_header p = None" "payload_ready p = 0"
    and got: "length_spec p buf = Got (op, len) n" and m: "bit_masked (buf ! 1)" and short: "length buf < n + 4"
  defines "q \<equiv> p\<lparr>header_buf := copy_from_slice (header_buf p) 0 buf, header_len := length buf,
          p_header := Some (header_of (buf ! 0) (buf ! 1) op len None), p_state := Mask\<rparr>"
  shows "parser_rel q [] buf \<and> header_spec p buf = More \<and> same_limits p q"
proof -
  note g = length_spec_Got [OF got]
  have n: "2 \<le> n" "n \<le> 10" "n \<le> length buf" using g by (auto split: if_splits)
  have lim: "same_limits p q" by (simp add: q_def same_limits_def)
  have hb: "length (header_buf q) = 14" "take (length buf) (header_buf q) = buf" "header_len q = length buf"
    using short n p0 take_copy_from_slice [of 0 "header_buf p" buf] by (simp_all add: q_def copy_from_slice_def)
  have q01: "header_buf q ! 0 = buf ! 0" "header_buf q ! Suc 0 = buf ! Suc 0"
    using n by (auto simp: q_def copy_from_slice_def nth_append)
  have "take n (header_buf q) = take n buf" using hb(2) n(3) by (metis min.absorb1 take_take)
  then have "length_spec q (take n (header_buf q)) = Got (op, len) n"
    using length_spec_take [OF got] length_spec_cong [OF lim] by simp
  then have "parser_rel q [] buf"
    using hb q01 m n short p0 unfolding parser_rel_def
    by (simp add: q_def saved_def, intro exI [of _ op] exI [of _ len] conjI refl exI [of _ n]) simp_all
  then show ?thesis using got m short lim by (simp add: header_spec_def)
qed

lemma header_with_length_agrees:
  assumes rel: "parser_rel p buf raw" and st: "p_state p = Header" and pf: "phase_kept (pf_target pf)"
    and n: "2 \<le> n" "n \<le> 10" "n \<le> length buf"
    and ls: "length_spec p buf = (case check_size p op len of Err e \<Rightarrow> Bad e | _ \<Rightarrow> Got (op, len) n)"
  shows "turn_agrees p raw (header_with_length pf p buf op len n)"
proof -
  have raw: "raw = buf" and p0: "length (header_buf p) = 14" "p_header p = None" "payload_ready p = 0"
    using rel st by (auto simp: parser_rel_def)
  let ?m = "bit_masked (buf ! 1)"
  define total where "total = n + (if ?m then 4 else 0)"
  define mk where "mk = (if ?m then Some (mask_of buf n) else None)"
  define h where "h = header_of (buf ! 0) (buf ! 1) op len mk"
  note fold = total_def [symmetric] mk_def [symmetric] h_def [symmetric]
  have got: "length_spec p buf = Got (op, len) n" if "check_size p op len = Ok ()" using ls that by simp
  consider (err) e where "check_size p op len = Err e" | (key) "check_size p op len = Ok ()" "length buf < total"
    | (wait) "check_size p op len = Ok ()" "\<not> length buf < total" "length buf < total + unat len"
    | (full) "check_size p op len = Ok ()" "\<not> length buf < total + unat len"
    using check_never_panics(4) [of p op len] by (cases "check_size p op len") auto
  then show ?thesis
  proof cases
    case err
    then show ?thesis using ls rel by (simp add: header_with_length_def agree_defs frame_spec_def header_spec_def raw)
  next
    case key
    then have m: ?m "length buf < n + 4" using n by (auto simp: total_def split: if_splits)
    then have "min (length buf) 14 = length buf" using n by simp
    then show ?thesis
      using key header_wants_key [OF st p0 got [OF key(1)] m]
      unfolding header_with_length_def Let_def fold by (simp add: turn_waits raw)
  next
    case wait
    define q where "q = p\<lparr>p_header := Some h, p_state := Payload\<rparr>"
    have step: "header_with_length pf p buf op len n = (Continue, q, drop total buf)"
      using wait unfolding header_with_length_def Let_def fold q_def by auto
    have hs: "header_spec p buf = Got h total"
      using got wait by (auto simp: header_spec_def total_def h_def mk_def split: if_splits)
    have lim: "same_limits p q" by (simp add: q_def same_limits_def)
    have "header_spec q (take total buf) = Got h (length (take total buf))"
      using header_spec_take [OF hs] header_spec_cong [OF lim] wait by simp
    moreover have "p_state q = Payload" "p_header q = Some h" "payload_ready q = 0" "length (header_buf q) = 14"
      using p0 by (simp_all add: q_def)
    ultimately have "parser_rel q (drop total buf) raw"
      unfolding parser_rel_def raw by (auto intro!: exI [of _ "take total buf"])
    then show ?thesis using step lim by (simp add: agree_defs)
  next
    case full
    have "header_spec p buf = Got h total"
      using got full by (auto simp: header_spec_def total_def h_def mk_def split: if_splits)
    then have "frame_spec p raw = Got \<lparr>f_header = h, f_payload = unmask_ref mk 0 (take (unat len) (drop total buf))\<rparr> (total + unat len)"
      using full by (simp add: frame_spec_def raw h_def header_of_def Let_def)
    moreover have "header_with_length pf p buf op len n =
      (Return (Ok (Some \<lparr>f_header = h, f_payload = unmask_ref mk 0 (take (unat len) (drop total buf))\<rparr>)),
       p, drop (total + unat len) buf)"
      using full unmask_eq [OF pf] unfolding header_with_length_def Let_def fold by (auto simp: add.commute)
    ultimately show ?thesis using p0 st by (simp add: agree_defs parser_rel_def raw)
  qed
qed

lemma take_2_nth: "2 \<le> length xs \<Longrightarrow> take 2 xs = [xs ! 0, xs ! 1]"
  by (cases xs; cases "tl xs") auto

lemma save_base_rel:
  assumes rel: "parser_rel p buf raw" and st: "p_state p = Header" and two: "2 \<le> length buf"
    and ok: "check_base p (buf ! 0) (buf ! 1) = Ok op"
    and k: "st' = ExtendedLen16 \<and> buf ! 1 AND 0x7F = 126
      \<or> st' = ExtendedLen64 \<and> \<not> buf ! 1 AND 0x7F \<le> 125 \<and> buf ! 1 AND 0x7F \<noteq> 126"
  defines "q \<equiv> save_base p (buf ! 0) (buf ! 1) st'"
  shows "parser_rel q (drop 2 buf) raw \<and> same_limits p q"
proof -
  have raw: "raw = buf" and p0: "length (header_buf p) = 14" "p_header p = None" "payload_ready p = 0"
    using rel st by (auto simp: parser_rel_def)
  have lim: "same_limits p q" by (simp add: q_def save_base_def same_limits_def)
  have hb: "header_buf q ! 0 = buf ! 0" "header_buf q ! Suc 0 = buf ! Suc 0" "header_len q = 2" "length (header_buf q) = 14"
    "p_header q = None" "payload_ready q = 0" "p_state q = st'"
    using p0 by (simp_all add: q_def save_base_def)
  have "saved q = take 2 buf" using hb two take_2_nth [of buf] take_2_nth [of "header_buf q"] by (simp add: saved_def)
  then show ?thesis using k hb ok lim check_base_cong [OF lim] by (auto simp: parser_rel_def raw)
qed

lemma header_extended_agrees:
  assumes rel: "parser_rel p buf raw" and st: "p_state p = Header" and pf: "phase_kept (pf_target pf)"
    and two: "2 \<le> length buf" and ok: "check_base p (buf ! 0) (buf ! 1) = Ok op" and n: "2 \<le> n" "n \<le> 10"
    and k: "st' = ExtendedLen16 \<and> buf ! 1 AND 0x7F = 126
      \<or> st' = ExtendedLen64 \<and> \<not> buf ! 1 AND 0x7F \<le> 125 \<and> buf ! 1 AND 0x7F \<noteq> 126"
    and ls: "length_spec p buf = extended_spec p buf op n read check" and nopanic: "\<And>len. check len \<noteq> Panic"
  shows "turn_agrees p raw (header_extended pf p buf op n st' read check)"
proof -
  have raw: "raw = buf" using rel st by (auto simp: parser_rel_def)
  let ?len = "read (take (n - 2) (drop 2 buf))"
  consider (short) "length buf < n" | (err) e where "\<not> length buf < n" "check ?len = Err e"
    | (go) "\<not> length buf < n" "check ?len = Ok ()"
    using nopanic [of ?len] by (cases "check ?len") auto
  then show ?thesis
  proof cases
    case short
    then have "header_spec p raw = More" by (simp add: header_spec_def ls raw extended_spec_def)
    then show ?thesis
      using short save_base_rel [OF rel st two ok k] k by (auto simp: header_extended_def save_base_def intro!: turn_waits)
  next
    case err
    then have "frame_spec p raw = Bad e" by (simp add: frame_spec_def header_spec_def ls raw extended_spec_def)
    then show ?thesis using err rel by (simp add: header_extended_def agree_defs Let_def)
  next
    case go
    then have "length_spec p buf = (case check_size p op ?len of Err e \<Rightarrow> Bad e | _ \<Rightarrow> Got (op, ?len) n)"
      by (simp add: ls extended_spec_def Let_def)
    then show ?thesis using go header_with_length_agrees [OF rel st pf n] by (simp add: header_extended_def Let_def)
  qed
qed

lemma step_header_agrees:
  assumes rel: "parser_rel p buf raw" and st: "p_state p = Header" and pf: "phase_kept (pf_target pf)"
  shows "turn_agrees p raw (step_header pf p buf)"
proof (cases "length buf < 2 \<or> \<not> is_Ok (check_base p (buf ! 0) (buf ! 1))")
  case True
  have raw: "raw = buf" using rel st by (auto simp: parser_rel_def)
  show ?thesis
    using True rel st check_never_panics(1) [of p "buf ! 0" "buf ! 1"]
    by (cases "check_base p (buf ! 0) (buf ! 1)")
      (auto simp: step_header_def agree_defs settled_def frame_spec_def header_spec_def length_spec_def raw Let_def)
next
  case False
  then obtain op where two: "2 \<le> length buf" and ok: "check_base p (buf ! 0) (buf ! 1) = Ok op" by (auto elim: is_OkE)
  let ?k = "buf ! 1 AND 0x7F"
  consider (small) "?k \<le> 125" | (mid) "\<not> ?k \<le> 125" "?k = 126" | (big) "\<not> ?k \<le> 125" "?k \<noteq> 126" by blast
  then show ?thesis
  proof cases
    case small
    have "length_spec p buf = (case check_size p op (ucast ?k) of Err e \<Rightarrow> Bad e | _ \<Rightarrow> Got (op, ucast ?k) 2)"
      using two ok small by (simp add: length_spec_def extended_spec_def Let_def del: One_nat_def)
    then have "turn_agrees p raw (header_with_length pf p buf op (ucast ?k) 2)"
      by (intro header_with_length_agrees [OF rel st pf]) (use two in simp_all)
    then show ?thesis using two ok small by (simp add: step_header_def Let_def del: One_nat_def)
  next
    case mid
    then have "turn_agrees p raw (header_extended pf p buf op 4 ExtendedLen16 (\<lambda>bs. ucast (u16_from_be_bytes bs)) check_len16)"
      by (intro header_extended_agrees [OF rel st pf two ok]) (use two ok in \<open>simp_all add: length_spec_def\<close>)
    then show ?thesis using two ok mid by (simp add: step_header_def Let_def)
  next
    case big
    then have "turn_agrees p raw (header_extended pf p buf op 10 ExtendedLen64 u64_from_be_bytes check_len64)"
      by (intro header_extended_agrees [OF rel st pf two ok]) (use two ok in \<open>simp_all add: length_spec_def\<close>)
    then show ?thesis using two ok big by (simp add: step_header_def Let_def)
  qed
qed

lemma parse_step_agrees:
  assumes "parser_rel p buf raw" and "phase_kept (pf_target pf)"
  shows "turn_agrees p raw (parse_step pf p buf)"
  using assms step_header_agrees step_len16_agrees step_len64_agrees step_mask_agrees step_payload_agrees
  by (cases "p_state p") (auto simp: parse_step_def parser_rel_def)

text \<open>The loop agrees with the reference parser: it never panics and returns what it says.\<close>

lemma parse_slow_agrees:
  "parser_rel p buf raw \<Longrightarrow> phase_kept (pf_target pf) \<Longrightarrow> agrees p raw (parse_slow pf p buf)"
proof (induction pf p buf rule: parse_slow.induct)
  case (1 pf p buf)
  obtain t p' buf' where s: "parse_step pf p buf = (t, p', buf')" by (cases "parse_step pf p buf") auto
  have ta: "turn_agrees p raw (t, p', buf')" using parse_step_agrees [OF 1(2,3)] s by simp
  show ?case
  proof (cases t)
    case (Return r)
    then show ?thesis using ta s by (subst parse_slow.simps) (simp add: turn_agrees_def)
  next
    case Continue
    then have lim: "same_limits p p'" and rel: "parser_rel p' buf' raw" using ta by (simp_all add: turn_agrees_def)
    have "agrees p' raw (parse_slow pf p' buf')"
      by (rule 1(1)) (use s Continue rel 1(3) in auto)
    then have "agrees p raw (parse_slow pf p' buf')"
      using frame_spec_cong [OF lim] lim by (auto simp: agrees_def intro: same_limits_trans)
    then show ?thesis using s Continue by (subst parse_slow.simps) simp
  qed
qed

lemma is_control_simps [simp]:
  "\<not> is_control OpContinuation" "\<not> is_control OpText" "\<not> is_control OpBinary"
  "is_control OpClose" "is_control OpPing" "is_control OpPong"
  by (simp_all add: is_control_def word_le_nat_alt)

section \<open>The fast paths compute what the slow path computes\<close>

lemma opcode_from_u8_data: "opcode_from_u8 v = Some op \<Longrightarrow> op \<in> {OpText, OpBinary} \<longleftrightarrow> v \<in> {0x1, 0x2}"
  by (auto simp: opcode_from_u8_def split: if_splits)

lemma of_nat_unat_ucast: "(of_nat (unat w) :: u64) = ucast w" for w :: byte
  by simp

lemma parse_slow_Return:
  "parse_step pf p buf = (Return r, p', buf') \<Longrightarrow> parse_slow pf p buf = (r, p', buf')"
  by (subst parse_slow.simps) simp

lemma quick_check_base:
  assumes "\<not> quick_rsv_bad p b0" "opcode_from_u8 (b0 AND 0x0F) = Some op" "bit_masked b1 = expect_masked p"
  shows "check_base p b0 b1 =
    (if is_control op \<and> \<not> bit_fin b0 then Err (Protocol_err ''control frame must not be fragmented'') else Ok op)"
  using assms opcode_from_u8_data [OF assms(2)] by (auto simp: quick_rsv_bad_def check_base_def)

lemma small_frame_slow:
  assumes "small_frame pf p buf masked = Some r" "p_state p = Header" "expect_masked p = masked"
    "2 \<le> length buf"
  shows "r = parse_slow pf p buf"
proof -
  let ?b0 = "buf ! 0" and ?b1 = "buf ! 1"
  let ?k = "?b1 AND 0x7F"
  define head where "head = (if masked then 6 else 2 :: nat)"
  have c: "?k \<le> 125" "bit_masked ?b1 = masked" "head + unat ?k \<le> length buf"
    using assms(1) by (auto simp: small_frame_def Let_def head_def split: if_splits)
  show ?thesis
  proof (cases "quick_rsv_bad p ?b0")
    case True
    then show ?thesis using assms(1) c by (auto simp: small_frame_def Let_def head_def split: if_splits)
  next
    case False
    obtain op where op: "opcode_from_u8 (?b0 AND 0x0F) = Some op"
      using assms(1) False c by (auto simp: small_frame_def Let_def split: if_splits option.splits)
    note cb = quick_check_base [OF False op, of ?b1]
    define mk where "mk = (if masked then Some (mask_of buf 2) else None)"
    have r: "r = (if is_control op \<and> \<not> bit_fin ?b0 then (Err (Protocol_err ''control frame must not be fragmented''), p, buf)
       else if unat ?k > max_frame_size p then (Err FrameTooLarge, p, buf)
       else (Ok (Some \<lparr>f_header = header_of ?b0 ?b1 op (ucast ?k) mk,
               f_payload = unmask pf mk (take (unat ?k) (drop head buf))\<rparr>), p, drop (unat ?k) (drop head buf)))"
      using assms(1) False c op unfolding small_frame_def Let_def head_def [symmetric] mk_def [symmetric]
      by (auto simp: of_nat_unat_ucast split: if_splits)
    have k125: "\<not> 125 < unat (ucast ?k :: u64)" using c(1) by (simp only: low7_u64) (simp add: word_le_nat_alt)
    have cs: "check_size p op (ucast ?k) = (if unat ?k > max_frame_size p then Err FrameTooLarge else Ok ())"
      using k125 by (simp only: check_size_def low7_u64) simp
    have tot: "(2 + (if bit_masked ?b1 then 4 else 0) :: nat) = head" using c(2) by (simp add: head_def)
    have mk': "(if bit_masked ?b1 then Some (mask_of buf 2) else None) = mk" using c(2) by (simp add: mk_def)
    have "parse_step pf p buf = (Return (fst r), fst (snd r), snd (snd r))"
    proof (cases "is_control op \<and> \<not> bit_fin ?b0")
      case True
      then show ?thesis using assms(2-4) c cb r by (simp add: parse_step_def step_header_def)
    next
      case False
      have "step_header pf p buf = header_with_length pf p buf op (ucast ?k) 2"
        using assms(3,4) c cb False by (simp add: step_header_def Let_def del: One_nat_def)
      moreover have "header_with_length pf p buf op (ucast ?k) 2 = (Return (fst r), fst (snd r), snd (snd r))"
        using c(3) False unfolding header_with_length_def Let_def tot mk' cs r low7_u64 by auto
      ultimately show ?thesis using assms(2) by (simp add: parse_step_def)
    qed
    then show ?thesis using parse_slow_Return by fastforce
  qed
qed

lemma low_byte: "b \<le> 127 \<Longrightarrow> b AND 0x7F = b \<and> \<not> bit_masked b" for b :: byte
proof -
  assume "b \<le> 127"
  then have n: "unat b < 2 ^ 7" by (simp add: word_le_nat_alt)
  have "unat (b AND 0x7F) = unat b AND mask 7" by (simp add: unsigned_and_eq mask_eq_exp_minus_1)
  also have "\<dots> = unat b" using n by (simp add: take_bit_nat_eq_self flip: take_bit_eq_mask)
  finally have e: "b AND 0x7F = b" by (simp add: word_unat_eq_iff)
  then have "b AND 0x80 = (b AND 0x7F) AND 0x80" by simp
  also have "\<dots> = 0" by (simp add: and.assoc)
  finally show ?thesis using e by (simp add: bit_masked_def)
qed

lemma check_base_complete:
  assumes "b0 = 0x81 \<or> b0 = 0x82" "\<not> expect_masked p" "\<not> bit_masked b1"
  shows "check_base p b0 b1 = Ok (if b0 = 0x81 then OpText else OpBinary)"
    "bit_fin b0 \<and> \<not> bit_rsv1 b0 \<and> \<not> bit_rsv2 b0 \<and> \<not> bit_rsv3 b0"
  using assms
  by (auto simp: check_base_def bit_rsv1_def bit_rsv2_def bit_rsv3_def bit_fin_def opcode_from_u8_def is_control_def)

text \<open>A complete unmasked data frame: what the short check reads is what the slow path reads.\<close>

lemma complete_small_step:
  assumes "\<not> expect_masked p" "2 \<le> length buf" "buf ! 0 = 0x81 \<or> buf ! 0 = 0x82" "buf ! 1 \<le> 125"
  shows "\<not> bit_masked (buf ! 1)"
    "step_header pf p buf = header_with_length pf p buf (if buf ! 0 = 0x81 then OpText else OpBinary) (of_nat (unat (buf ! 1))) 2"
proof -
  have low: "buf ! 1 AND 0x7F = buf ! 1" "\<not> bit_masked (buf ! 1)" using assms low_byte [of "buf ! 1"] by (auto simp: word_le_nat_alt)
  show "\<not> bit_masked (buf ! 1)" by (rule low(2))
  show "step_header pf p buf = header_with_length pf p buf (if buf ! 0 = 0x81 then OpText else OpBinary) (of_nat (unat (buf ! 1))) 2"
    using assms low check_base_complete(1) [OF assms(3,1) low(2)]
    by (simp add: step_header_def Let_def of_nat_unat_ucast del: One_nat_def)
qed

lemma complete_medium_step:
  assumes "\<not> expect_masked p" "4 \<le> length buf" "buf ! 0 = 0x81 \<or> buf ! 0 = 0x82" "buf ! 1 = 126"
  defines "len \<equiv> unat (u16_from_be_bytes (take 2 (drop 2 buf)))"
  assumes "126 \<le> len"
  shows "\<not> bit_masked (buf ! 1)"
    "step_header pf p buf = header_with_length pf p buf (if buf ! 0 = 0x81 then OpText else OpBinary) (of_nat len) 4"
proof -
  have low: "buf ! 1 AND 0x7F = 126" "\<not> bit_masked (buf ! 1)" using assms low_byte [of "buf ! 1"] by simp_all
  show "\<not> bit_masked (buf ! 1)" by (rule low(2))
  have u: "(of_nat len :: u64) = ucast (u16_from_be_bytes (take 2 (drop 2 buf)))" by (simp add: len_def)
  have "check_len16 (of_nat len) = Ok ()" using assms(6) unfolding u by (simp add: check_len16_def unat_ucast_u16 len_def)
  then show "step_header pf p buf = header_with_length pf p buf (if buf ! 0 = 0x81 then OpText else OpBinary) (of_nat len) 4"
    using assms(1-3) low check_base_complete(1) [OF assms(3,1) low(2)] unfolding u
    by (simp add: step_header_def header_extended_def Let_def del: One_nat_def)
qed

lemma complete_data_step:
  assumes "try_parse_complete_unmasked_data p buf = (Some (op, payload), buf')"
  shows "parse_step pf p buf = (Return (Ok (Some (frame_new op payload True))), p, buf')"
proof -
  let ?b0 = "buf ! 0" and ?b1 = "buf ! 1"
  have a: "p_state p = Header" "\<not> expect_masked p" "2 \<le> length buf" "?b0 = 0x81 \<or> ?b0 = 0x82"
    using assms by (auto simp: try_parse_complete_unmasked_data_def Let_def split: if_splits)
  define len16 where "len16 = unat (u16_from_be_bytes (take 2 (drop 2 buf)))"
  consider (small) "?b1 \<le> 125" | (mid) "\<not> ?b1 \<le> 125" "?b1 = 126" "4 \<le> length buf" "126 \<le> len16"
    using assms a by (auto simp: try_parse_complete_unmasked_data_def Let_def len16_def split: if_splits)
  then obtain hlen plen where hp: "(hlen, plen) = (if ?b1 \<le> 125 then (2, unat ?b1) else (4, len16))"
    and nm: "\<not> bit_masked ?b1" and plen: "plen < 65536"
    and step: "step_header pf p buf = header_with_length pf p buf (if ?b0 = 0x81 then OpText else OpBinary) (of_nat plen) hlen"
  proof cases
    case small
    have "unat ?b1 < 65536" using unat_byte_less [of ?b1] by linarith
    then show ?thesis using that [of 2 "unat ?b1"] small complete_small_step [OF a(2-4) small] by simp
  next
    case mid
    have "len16 < 65536"
      unfolding len16_def using unsigned_less [of "u16_from_be_bytes (take 2 (drop 2 buf))", where ?'a = nat] by simp
    then show ?thesis
      using that [of 4 len16] mid complete_medium_step [OF a(2) mid(3) a(4) mid(2) mid(4) [unfolded len16_def]]
      by (simp add: len16_def)
  qed
  have up: "unat (of_nat plen :: u64) = plen" using plen by (simp add: unat_of_nat)
  have res: "plen \<le> max_frame_size p" "hlen + plen \<le> length buf" "payload = take plen (drop hlen buf)"
    "buf' = drop plen (drop hlen buf)" "op = (if ?b0 = 0x81 then OpText else OpBinary)"
    using assms a hp by (auto simp: try_parse_complete_unmasked_data_def Let_def len16_def split: if_splits)
  have cs: "check_size p op (of_nat plen) = Ok ()"
    using res(1,5) up by (simp add: check_size_def)
  have "header_with_length pf p buf op (of_nat plen) hlen = (Return (Ok (Some (frame_new op payload True))), p, buf')"
    using res nm cs check_base_complete(2) [OF a(4,2) nm] up
    by (simp add: header_with_length_def Let_def unmask_def frame_new_def header_of_def)
  then show ?thesis using a step res(5) by (simp add: parse_step_def)
qed

lemma parse_is_slow: "parse pf p buf = parse_slow pf p buf"
proof -
  obtain res buf' where t: "try_parse_complete_unmasked_data p buf = (res, buf')" by force
  show ?thesis
  proof (cases res)
    case (Some v)
    then obtain op payload where v: "v = (op, payload)" by force
    from complete_data_step [of p buf op payload buf' pf] t Some v
    have "parse_slow pf p buf = (Ok (Some (frame_new op payload True)), p, buf')"
      by (intro parse_slow_Return) simp
    then show ?thesis using t Some v by (simp add: parse_def frame_new_def)
  next
    case None
    then have "buf' = buf"
      using t by (auto simp: try_parse_complete_unmasked_data_def Let_def split: if_splits option.splits)
    moreover have "parse_after_complete_data_miss pf p buf = parse_slow pf p buf"
      using small_frame_slow [of pf p buf False] small_frame_slow [of pf p buf True]
      by (auto simp: parse_after_complete_data_miss_def split: option.splits if_splits)
    ultimately show ?thesis using t None by (simp add: parse_def)
  qed
qed

end
