(* ===== verification/WS_Codec.thy ===== *)
theory WS_Codec
  imports WS_Parser_Refine
begin

text \<open>
  Encoder and parser together. \<open>frame_bytes\<close> is the wire form of a frame; the encoders of
  frame.rs write it (\<open>encode_frame_with_rsv_eq\<close>), and the reference parser accepts the wire forms of
  the frames its limits allow and nothing else (\<open>frame_spec_iff\<close>). The parser is an
  \<open>incremental_decoder\<close> for the reference parser, so what it gives depends on the bytes received
  and not on how the transport cut them.
\<close>

section \<open>Headers on the wire\<close>

lemma flag_simps [simp]: "flag True b = b" "flag False b = 0"
  by (simp_all add: flag_def)

definition first_byte :: "frame_header \<Rightarrow> byte" where
  "first_byte h = opcode_byte (h_opcode h) OR flag (h_fin h) 0x80 OR flag (h_rsv1 h) 0x40
     OR flag (h_rsv2 h) 0x20 OR flag (h_rsv3 h) 0x10"

lemma first_byte_bits:
  "bit_fin (first_byte h) = h_fin h" "bit_rsv1 (first_byte h) = h_rsv1 h" "bit_rsv2 (first_byte h) = h_rsv2 h"
  "bit_rsv3 (first_byte h) = h_rsv3 h" "first_byte h AND 0x0F = opcode_byte (h_opcode h)"
  by (cases "h_opcode h"; cases "h_fin h"; cases "h_rsv1 h"; cases "h_rsv2 h"; cases "h_rsv3 h";
      simp add: first_byte_def bit_fin_def bit_rsv1_def bit_rsv2_def bit_rsv3_def)+

lemma opcode_byte_roundtrip [simp]: "opcode_from_u8 (opcode_byte op) = Some op"
  by (cases op) (simp_all add: opcode_from_u8_def)

lemma opcode_from_u8_byte: "opcode_from_u8 v = Some op \<Longrightarrow> v = opcode_byte op"
  by (auto simp: opcode_from_u8_def split: if_splits)

lemma byte_and_255: "b AND 0xFF = b" for b :: byte
proof -
  have "unat (b AND 0xFF) = unat b AND Bit_Operations.mask 8" by (simp add: unsigned_and_eq mask_eq_exp_minus_1)
  also have "\<dots> = take_bit 8 (unat b)" by (rule take_bit_eq_mask [symmetric])
  also have "\<dots> = unat b" by (rule take_bit_nat_eq_self) (simp add: unat_byte_less)
  finally show ?thesis by (simp add: word_unat_eq_iff)
qed

lemma and_power_of_two: "b AND 2 ^ n = (if bit b n then 2 ^ n else 0)" for b :: byte
  by (rule bit_eqI) (auto simp: bit_and_iff bit_exp_iff)

lemma single_bit:
  "b AND 0x80 = flag (bit_fin b) 0x80" "b AND 0x40 = flag (bit_rsv1 b) 0x40"
  "b AND 0x20 = flag (bit_rsv2 b) 0x20" "b AND 0x10 = flag (bit_rsv3 b) 0x10" "b AND 0x80 = flag (bit_masked b) 0x80"
  using and_power_of_two [of b 7] and_power_of_two [of b 6] and_power_of_two [of b 5] and_power_of_two [of b 4]
  by (auto simp: bit_fin_def bit_rsv1_def bit_rsv2_def bit_rsv3_def bit_masked_def flag_def)

lemma first_byte_decode:
  assumes "opcode_from_u8 (b AND 0x0F) = Some (h_opcode h)" "bit_fin b = h_fin h" "bit_rsv1 b = h_rsv1 h"
    "bit_rsv2 b = h_rsv2 h" "bit_rsv3 b = h_rsv3 h"
  shows "b = first_byte h"
proof -
  have "b = b AND (0x0F OR 0x80 OR 0x40 OR 0x20 OR 0x10)" using byte_and_255 [of b] by simp
  also have "\<dots> = (b AND 0x0F) OR (b AND 0x80) OR (b AND 0x40) OR (b AND 0x20) OR (b AND 0x10)"
    by (simp only: bit.conj_disj_distrib)
  also have "\<dots> = first_byte h"
    using opcode_from_u8_byte [OF assms(1)] assms(2-5) single_bit(1-4) [of b] by (simp add: first_byte_def)
  finally show ?thesis .
qed

lemma second_byte_bits:
  assumes "w \<le> 127"
  shows "(flag m 0x80 OR w) AND 0x7F = w" "bit_masked (flag m 0x80 OR w) = m"
proof -
  have w: "w AND 0x7F = w" "w AND 0x80 = 0" using low_byte [OF assms] by (auto simp: bit_masked_def)
  have "(flag m 0x80 OR w) AND 0x7F = (flag m 0x80 AND 0x7F) OR (w AND 0x7F)" by (rule bit.conj_disj_distrib2)
  then show "(flag m 0x80 OR w) AND 0x7F = w" using w by (cases m) simp_all
  have "(flag m 0x80 OR w) AND 0x80 = (flag m 0x80 AND 0x80) OR (w AND 0x80)" by (rule bit.conj_disj_distrib2)
  then show "bit_masked (flag m 0x80 OR w) = m" using w by (cases m) (simp_all add: bit_masked_def)
qed

lemma second_byte_decode: "b = flag (bit_masked b) 0x80 OR (b AND 0x7F)"
proof -
  have "b = b AND (0x80 OR 0x7F)" using byte_and_255 [of b] by simp
  also have "\<dots> = (b AND 0x80) OR (b AND 0x7F)" by (simp only: bit.conj_disj_distrib)
  finally show ?thesis using single_bit(5) [of b] by simp
qed

text \<open>The bytes of a header in the three length classes.\<close>

definition length_bytes :: "bool \<Rightarrow> u64 \<Rightarrow> bytes" where
  "length_bytes masked len =
     (if unat len \<le> SMALL_MESSAGE_THRESHOLD then [flag masked 0x80 OR ucast len]
      else if unat len \<le> MEDIUM_MESSAGE_THRESHOLD then (flag masked 0x80 OR 126) # u16_to_be_bytes (ucast len)
      else (flag masked 0x80 OR 127) # u64_to_be_bytes len)"

definition key_bytes :: "mask4 option \<Rightarrow> bytes" where
  "key_bytes mk = (case mk of Some m \<Rightarrow> mask_bytes m | None \<Rightarrow> [])"

lemma header_encode_bytes:
  "header_encode h buf = buf @ first_byte h # length_bytes (h_masked h) (h_payload_len h) @ key_bytes (h_mask h)"
  by (simp add: header_encode_def Let_def first_byte_def length_bytes_def key_bytes_def split: option.split)

lemma length_key_bytes [simp]: "length (key_bytes mk) = (if mk = None then 0 else 4)"
  by (auto simp: key_bytes_def split: option.split)

lemma length_length_bytes:
  "Suc (length (length_bytes m len)) =
     (if unat len > MEDIUM_MESSAGE_THRESHOLD then 10 else if unat len > SMALL_MESSAGE_THRESHOLD then 4 else 2)"
  by (simp add: length_bytes_def thresholds)

lemma header_encode_size:
  "(h_mask h \<noteq> None) = h_masked h \<Longrightarrow> length (header_encode h buf) = length buf + header_size h"
  using length_length_bytes [of "h_masked h" "h_payload_len h"]
  by (auto simp: header_encode_bytes header_size_def split: if_splits)

text \<open>The headers a parser with these limits accepts.\<close>

definition header_ok :: "frame_parser \<Rightarrow> frame_header \<Rightarrow> bool" where
  "header_ok p h \<longleftrightarrow> \<not> h_rsv2 h \<and> \<not> h_rsv3 h
     \<and> (h_rsv1 h \<longrightarrow> allow_rsv1 p \<and> h_opcode h \<in> {OpText, OpBinary})
     \<and> (is_control (h_opcode h) \<longrightarrow> h_fin h \<and> unat (h_payload_len h) \<le> 125)
     \<and> h_masked h = expect_masked p \<and> (h_mask h \<noteq> None) = h_masked h
     \<and> unat (h_payload_len h) \<le> max_frame_size p \<and> unat (h_payload_len h) < 2 ^ 63"

lemma check_base_ok:
  "check_base p b0 b1 = Ok op \<longleftrightarrow>
     opcode_from_u8 (b0 AND 0x0F) = Some op \<and> \<not> bit_rsv2 b0 \<and> \<not> bit_rsv3 b0
     \<and> (bit_rsv1 b0 \<longrightarrow> allow_rsv1 p \<and> op \<in> {OpText, OpBinary}) \<and> (is_control op \<longrightarrow> bit_fin b0)
     \<and> bit_masked b1 = expect_masked p"
  by (auto simp: check_base_def split: option.splits)

lemma check_size_ok:
  "check_size p op len = Ok u \<longleftrightarrow> (is_control op \<longrightarrow> unat len \<le> 125) \<and> unat len \<le> max_frame_size p"
  by (auto simp: check_size_def)

lemma drop_bit_63: "drop_bit 63 len = 0 \<longleftrightarrow> unat len < 2 ^ 63" for len :: u64
  by (simp add: word_unat_eq_iff unsigned_drop_bit_eq drop_bit_eq_div take_bit_eq_mod div_eq_0_iff unat_div)

lemma check_len64_ok: "check_len64 len = Ok u \<longleftrightarrow> 65535 < unat len \<and> unat len < 2 ^ 63"
  by (auto simp: check_len64_def drop_bit_63 word_le_nat_alt)

lemma check_len16_ok: "check_len16 len = Ok u \<longleftrightarrow> 126 \<le> unat len"
  by (auto simp: check_len16_def)

lemma ucast_small: "unat len \<le> 125 \<Longrightarrow> (ucast (ucast len :: byte) :: u64) = len \<and> (ucast len :: byte) \<le> 125" for len :: u64
  by (simp add: word_unat_eq_iff word_le_nat_alt unsigned_ucast_eq take_bit_eq_mod unat_mod)

lemma ucast_medium: "unat len \<le> 65535 \<Longrightarrow> (ucast (ucast len :: u16) :: u64) = len" for len :: u64
  by (simp add: word_unat_eq_iff unsigned_ucast_eq take_bit_eq_mod unat_mod)

lemma length_spec_encode:
  assumes "header_ok p h"
  shows "length_spec p (first_byte h # length_bytes (h_masked h) (h_payload_len h) @ rest)
    = Got (h_opcode h, h_payload_len h) (Suc (length (length_bytes (h_masked h) (h_payload_len h))))"
proof -
  let ?len = "h_payload_len h"
  have fb: "check_base p (first_byte h) b1 = Ok (h_opcode h)" if "bit_masked b1 = h_masked h" for b1
    using assms that by (auto simp: check_base_ok first_byte_bits header_ok_def)
  have cs: "check_size p (h_opcode h) ?len = Ok ()" using assms by (auto simp: check_size_ok header_ok_def)
  have l63: "unat ?len < 2 ^ 63" using assms by (simp add: header_ok_def)
  consider (small) "unat ?len \<le> 125" | (mid) "125 < unat ?len" "unat ?len \<le> 65535" | (big) "65535 < unat ?len" by linarith
  then show ?thesis
  proof cases
    case small
    have w: "(ucast ?len :: byte) \<le> 127" using ucast_small [OF small] by (auto simp: word_le_nat_alt)
    show ?thesis using small fb second_byte_bits [OF w] ucast_small [OF small] cs
      by (simp add: length_spec_def extended_spec_def length_bytes_def thresholds)
  next
    case mid
    have w: "(126 :: byte) \<le> 127" by simp
    show ?thesis using mid fb second_byte_bits [OF w] cs ucast_medium [OF mid(2)]
      by (simp add: length_spec_def extended_spec_def length_bytes_def thresholds Let_def check_len16_def)
  next
    case big
    have w: "(127 :: byte) \<le> 127" by simp
    have c: "check_len64 ?len = Ok ()" using big l63 by (simp add: check_len64_ok)
    show ?thesis using big fb second_byte_bits [OF w] cs c
      by (simp add: length_spec_def extended_spec_def length_bytes_def thresholds Let_def)
  qed
qed

lemma length_bytes_masked: "bit_masked ((length_bytes m len) ! 0) = m"
  using second_byte_bits [of "ucast len" m] second_byte_bits [of 126 m] second_byte_bits [of 127 m] ucast_small [of len]
  by (auto simp: length_bytes_def thresholds word_le_nat_alt)

lemma length_mask_bytes [simp]: "length (mask_bytes m) = 4"
  by (cases m) simp

text \<open>The reference parser reads back an encoded header, and accepts nothing else.\<close>

lemma header_spec_encode:
  assumes "header_ok p h"
  shows "header_spec p (header_encode h [] @ rest) = Got h (header_size h)"
proof -
  let ?lb = "length_bytes (h_masked h) (h_payload_len h)"
  let ?raw = "first_byte h # ?lb @ key_bytes (h_mask h) @ rest"
  have raw: "header_encode h [] @ rest = ?raw" by (simp add: header_encode_bytes)
  have hm: "(h_mask h \<noteq> None) = h_masked h" using assms by (simp add: header_ok_def)
  have lb: "length ?lb \<noteq> 0" by (simp add: length_bytes_def)
  have ls: "length_spec p ?raw = Got (h_opcode h, h_payload_len h) (Suc (length ?lb))"
    using length_spec_encode [OF assms, of "key_bytes (h_mask h) @ rest"] by simp
  have b1: "bit_masked (?raw ! 1) = h_masked h"
    using length_bytes_masked [of "h_masked h" "h_payload_len h"] lb by (simp add: nth_append)
  have sz: "header_size h = Suc (length ?lb) + (if h_masked h then 4 else 0)"
    using header_encode_size [OF hm, of "[]"] hm by (cases "h_mask h = None") (auto simp: header_encode_bytes)
  have hd: "header_of (first_byte h) (?raw ! 1) (h_opcode h) (h_payload_len h) (h_mask h) = h"
    using b1 by (simp add: header_of_def first_byte_bits)
  show ?thesis
  proof (cases "h_mask h")
    case None
    then show ?thesis using ls b1 hm sz hd unfolding raw by (simp add: header_spec_def)
  next
    case (Some m)
    have "mask_of ?raw (Suc (length ?lb)) = m"
      using Some by (cases m) (simp add: mask_of_def key_bytes_def nth_append)
    then show ?thesis using ls b1 hm sz hd Some unfolding raw by (simp add: header_spec_def key_bytes_def)
  qed
qed

lemma u16_u64_bytes: "length bs = 2 \<Longrightarrow> u16_to_be_bytes (ucast (ucast (u16_from_be_bytes bs) :: u64)) = bs"
proof -
  assume l: "length bs = 2"
  have "(ucast (ucast w :: u64) :: u16) = w" for w :: u16
    using unsigned_less [of w, where ?'a = nat] unat_ucast_u16 [of w]
    by (simp add: word_unat_eq_iff [of "ucast (ucast w :: u64)"] unsigned_ucast_eq [of "ucast w :: u64"] take_bit_eq_mod)
  then show ?thesis using u16_to_from_be_bytes [OF l] by simp
qed

lemma ucast_byte_u64: "(ucast (ucast b :: u64) :: byte) = b" for b :: byte
proof -
  have "unat b mod 18446744073709551616 = unat b" using unat_byte_less [of b] by (intro mod_less) linarith
  then have "unat (ucast b :: u64) = unat b" by (simp add: unsigned_ucast_eq take_bit_eq_mod)
  then show ?thesis
    using unat_byte_less [of b]
    by (simp add: word_unat_eq_iff [of "ucast (ucast b :: u64)"] unsigned_ucast_eq [of "ucast b :: u64"] take_bit_eq_mod)
qed

lemma u64_to_from_be_bytes: "length bs = 8 \<Longrightarrow> u64_to_be_bytes (u64_from_be_bytes bs) = bs"
  by (metis be_bytes_be_nat u64_to_be_bytes_def unat_u64_from_be_bytes)

lemma Cons2: "2 \<le> length raw \<Longrightarrow> raw = raw ! 0 # raw ! 1 # drop 2 raw"
  by (cases raw; cases "tl raw") auto

lemma length_spec_bytes:
  assumes "length_spec p raw = Got (op, len) n"
  shows "take (n - 1) (drop 1 raw) = length_bytes (bit_masked (raw ! 1)) len" "unat len < 2 ^ 63"
proof -
  note g = length_spec_Got [OF assms]
  have l2: "2 \<le> length raw" using g by linarith
  let ?b1 = "raw ! 1"
  let ?k = "?b1 AND 0x7F"
  have b1: "?b1 = flag (bit_masked ?b1) 0x80 OR ?k" by (rule second_byte_decode)
  have d1: "drop 1 raw = ?b1 # drop 2 raw" using Cons2 [OF l2] by (metis drop0 drop_Suc_Cons One_nat_def)
  consider (small) "?k \<le> 125" | (mid) "\<not> ?k \<le> 125" "?k = 126" | (big) "\<not> ?k \<le> 125" "?k \<noteq> 126" by blast
  then have "take (n - 1) (drop 1 raw) = length_bytes (bit_masked ?b1) len \<and> unat len < 2 ^ 63"
  proof cases
    case small
    then have e: "len = ucast ?k" "n = 2"
      using assms g(3) l2 by (auto simp: length_spec_def extended_spec_def Let_def split: if_splits result.splits)
    have u: "unat len = unat ?k" unfolding e by (rule low7_u64)
    have k: "unat ?k \<le> 125" using small by (simp add: word_le_nat_alt)
    have "(ucast len :: byte) = ?k" unfolding e by (rule ucast_byte_u64)
    then show ?thesis using e k u b1 d1 by (simp add: length_bytes_def thresholds)
  next
    case mid
    then have e: "len = ucast (u16_from_be_bytes (take 2 (drop 2 raw)))" "n = 4" "4 \<le> length raw" "126 \<le> unat len"
      using assms g(3) l2 by (auto simp: length_spec_def extended_spec_def Let_def check_len16_ok split: if_splits result.splits)
    have u: "unat len \<le> 65535"
      unfolding e unat_ucast_u16 using unsigned_less [of "u16_from_be_bytes (take 2 (drop 2 raw))", where ?'a = nat] by simp
    have "u16_to_be_bytes (ucast len) = take 2 (drop 2 raw)"
      unfolding e(1) using e(3) by (intro u16_u64_bytes) simp
    then show ?thesis using e(2,4) u b1 d1 mid(2) by (simp add: length_bytes_def thresholds)
  next
    case big
    have "unat ?k \<le> 127" using word_and_le1 [of ?b1 "0x7F"] by (simp add: word_le_nat_alt)
    then have k: "?k = 127" using big by (auto simp: word_le_nat_alt word_unat_eq_iff)
    from big have e: "len = u64_from_be_bytes (take 8 (drop 2 raw))" "n = 10" "10 \<le> length raw" "65535 < unat len" "unat len < 2 ^ 63"
      using assms g(3) l2 by (auto simp: length_spec_def extended_spec_def Let_def check_len64_ok split: if_splits result.splits)
    have "u64_to_be_bytes len = take 8 (drop 2 raw)"
      unfolding e(1) using e(3) by (intro u64_to_from_be_bytes) simp
    then show ?thesis using e(2,4,5) b1 d1 k by (simp add: length_bytes_def thresholds)
  qed
  then show "take (n - 1) (drop 1 raw) = length_bytes (bit_masked (raw ! 1)) len" "unat len < 2 ^ 63" by auto
qed

lemma header_spec_canonical:
  assumes "header_spec p raw = Got h n"
  shows "header_ok p h" "take n raw = header_encode h []" "n = header_size h"
proof -
  obtain op len k where k: "length_spec p raw = Got (op, len) k"
    using assms by (auto simp: header_spec_def split: scan.splits if_splits)
  note g = length_spec_Got [OF k] and lb = length_spec_bytes [OF k]
  let ?b0 = "raw ! 0" and ?b1 = "raw ! 1"
  let ?mk = "if bit_masked ?b1 then Some (mask_of raw k) else None"
  have h: "h = header_of ?b0 ?b1 op len ?mk" and n: "n = k + (if bit_masked ?b1 then 4 else 0)" "n \<le> length raw"
    using assms k header_spec_Got [OF assms] by (auto simp: header_spec_def split: if_splits)
  have cb: "opcode_from_u8 (?b0 AND 0x0F) = Some op" "\<not> bit_rsv2 ?b0" "\<not> bit_rsv3 ?b0"
    "bit_rsv1 ?b0 \<longrightarrow> allow_rsv1 p \<and> op \<in> {OpText, OpBinary}" "is_control op \<longrightarrow> bit_fin ?b0" "bit_masked ?b1 = expect_masked p"
    using g(3) by (auto simp: check_base_ok)
  have cs: "is_control op \<longrightarrow> unat len \<le> 125" "unat len \<le> max_frame_size p" using g(4) by (auto simp: check_size_ok)
  show ok: "header_ok p h"
    using cb cs lb(2) by (simp add: header_ok_def h header_of_def mask_of_def)
  have "?b0 = first_byte h"
    by (rule first_byte_decode) (use cb(1) in \<open>simp_all add: h header_of_def\<close>)
  moreover have "take k raw = ?b0 # take (k - 1) (drop 1 raw)"
    using g(1,2) by (cases raw; cases k) auto
  moreover have "take n raw = take k raw @ take (n - k) (drop k raw)" using n(1) by (simp flip: take_add)
  moreover have "take (n - k) (drop k raw) = key_bytes ?mk"
  proof (cases "bit_masked ?b1")
    case True
    then have "k + 4 \<le> length raw" using n by simp
    then have "take 4 (drop k raw) = [raw ! k, raw ! (k + 1), raw ! (k + 2), raw ! (k + 3)]"
      by (intro nth_equalityI) (auto simp: less_Suc_eq numeral_eq_Suc)
    then show ?thesis using True n(1) by (simp add: key_bytes_def mask_of_def)
  qed (use n(1) in \<open>simp add: key_bytes_def\<close>)
  ultimately show enc: "take n raw = header_encode h []"
    using lb(1) by (simp add: header_encode_bytes h header_of_def)
  have "(h_mask h \<noteq> None) = h_masked h" using ok by (simp add: header_ok_def)
  from header_encode_size [OF this, of "[]"] enc [symmetric] n(2) show "n = header_size h" by simp
qed

lemma header_spec_iff:
  "header_spec p raw = Got h n \<longleftrightarrow> header_ok p h \<and> n = header_size h \<and> (\<exists>rest. raw = header_encode h [] @ rest)"
proof
  assume a: "header_spec p raw = Got h n"
  then have "raw = header_encode h [] @ drop n raw" using header_spec_canonical(2) [OF a] by (metis append_take_drop_id)
  then show "header_ok p h \<and> n = header_size h \<and> (\<exists>rest. raw = header_encode h [] @ rest)"
    using header_spec_canonical [OF a] by blast
qed (auto simp: header_spec_encode)

text \<open>A frame on the wire: its header, its masked payload.\<close>

definition frame_bytes :: "frame \<Rightarrow> bytes" where
  "frame_bytes f = header_encode (f_header f) [] @ unmask_ref (h_mask (f_header f)) 0 (f_payload f)"

definition frame_ok :: "frame_parser \<Rightarrow> frame \<Rightarrow> bool" where
  "frame_ok p f \<longleftrightarrow> header_ok p (f_header f) \<and> unat (h_payload_len (f_header f)) = length (f_payload f)"

lemma frame_spec_iff:
  "frame_spec p raw = Got f n \<longleftrightarrow> frame_ok p f \<and> n = length (frame_bytes f) \<and> (\<exists>rest. raw = frame_bytes f @ rest)"
proof
  assume a: "frame_spec p raw = Got f n"
  define h where "h = f_header f"
  define len where "len = unat (h_payload_len h)"
  obtain k where hs: "header_spec p raw = Got h k" and n: "n = k + len" "n \<le> length raw"
    and pay: "f_payload f = unmask_ref (h_mask h) 0 (take len (drop k raw))"
    using a by (auto simp: frame_spec_def Let_def h_def len_def split: scan.splits if_splits)
  obtain rest where raw: "raw = header_encode h [] @ rest" and ok: "header_ok p h" and k: "k = header_size h"
    using hs by (auto simp: header_spec_iff)
  have hk: "length (header_encode h []) = k" using header_encode_size [of h "[]"] ok k by (simp add: header_ok_def)
  have fb: "frame_bytes f = header_encode h [] @ take len rest"
    using pay hk by (simp add: frame_bytes_def raw flip: h_def)
  have "len \<le> length rest" using n raw hk by simp
  then have "length (f_payload f) = len" "length (frame_bytes f) = n" using pay hk raw fb n by simp_all
  moreover have "raw = frame_bytes f @ drop len rest" using raw fb by simp
  ultimately show "frame_ok p f \<and> n = length (frame_bytes f) \<and> (\<exists>rest. raw = frame_bytes f @ rest)"
    using ok by (auto simp: frame_ok_def h_def len_def)
next
  assume a: "frame_ok p f \<and> n = length (frame_bytes f) \<and> (\<exists>rest. raw = frame_bytes f @ rest)"
  define h where "h = f_header f"
  obtain rest where raw: "raw = header_encode h [] @ unmask_ref (h_mask h) 0 (f_payload f) @ rest"
    using a by (auto simp: frame_bytes_def h_def)
  have ok: "header_ok p h" "unat (h_payload_len h) = length (f_payload f)" using a by (auto simp: frame_ok_def h_def)
  have hk: "length (header_encode h []) = header_size h" using header_encode_size [of h "[]"] ok by (simp add: header_ok_def)
  have hs: "header_spec p raw = Got h (header_size h)" unfolding raw by (rule header_spec_encode [OF ok(1)])
  show "frame_spec p raw = Got f n"
    using a hs hk ok(2) by (simp add: frame_spec_def raw frame_bytes_def flip: h_def)
qed

section \<open>The encoder\<close>

definition encoded_frame :: "opcode \<Rightarrow> bytes \<Rightarrow> bool \<Rightarrow> mask4 option \<Rightarrow> bool \<Rightarrow> frame" where
  "encoded_frame op payload fin mk rsv1 =
     \<lparr>f_header = \<lparr>h_fin = fin, h_rsv1 = rsv1, h_rsv2 = False, h_rsv3 = False, h_opcode = op,
        h_masked = (mk \<noteq> None), h_payload_len = of_nat (length payload), h_mask = mk\<rparr>,
      f_payload = payload\<rparr>"

lemma write_at_end:
  "off = length xs \<Longrightarrow> k = length bs + j \<Longrightarrow>
     write_at off bs (map Some xs @ replicate k None) = Some (map Some (xs @ bs) @ replicate j None)"
  by (simp add: write_at_def)

lemma u64_len: "n < 2 ^ 64 \<Longrightarrow> unat (of_nat n :: u64) = n"
  by (simp add: unat_of_nat)

lemma ucast_of_nat_word:
  "(ucast (of_nat n :: u64) :: byte) = of_nat n" "(ucast (of_nat n :: u64) :: u16) = of_nat n"
  by (rule bit_word_eqI, auto simp: bit_simps)+

lemma write_length_eq:
  assumes "len < 2 ^ 64" and "lb = length_bytes m (of_nat len)"
  shows "write_length (flag m 0x80) len (map Some [b0] @ replicate (length lb + j) None)
    = Some (Suc (length lb), map Some (b0 # lb) @ replicate j None)"
proof -
  have ul: "unat (of_nat len :: u64) = len" using assms(1) by (rule u64_len)
  have one: "write_at 1 [b] (map Some [b0] @ replicate (Suc k) None) = Some (map Some [b0, b] @ replicate k None)" for b k
    using write_at_end [of 1 "[b0]" "Suc k" "[b]" k] by simp
  have two: "write_at 2 bs (map Some [b0, b] @ replicate (length bs + j) None) = Some (map Some (b0 # b # bs) @ replicate j None)" for b bs
    using write_at_end [of 2 "[b0, b]" "length bs + j" bs j] by simp
  consider (small) "len \<le> 125" | (mid) "125 < len" "len \<le> 65535" | (big) "65535 < len" by linarith
  then show ?thesis
  proof cases
    case small
    then have lb: "lb = [flag m 0x80 OR of_nat len]"
      using ul assms(2) by (simp add: length_bytes_def thresholds ucast_of_nat_word)
    show ?thesis unfolding write_length_def lb using small one [of "flag m 0x80 OR of_nat len" j] by (simp add: thresholds)
  next
    case mid
    then have lb: "lb = (flag m 0x80 OR 126) # u16_to_be_bytes (of_nat len)"
      using ul assms(2) by (simp add: length_bytes_def thresholds ucast_of_nat_word)
    show ?thesis unfolding write_length_def lb
      using mid one [of "flag m 0x80 OR 126" "2 + j"] two [of "u16_to_be_bytes (of_nat len)" "flag m 0x80 OR 126"]
      by (simp add: thresholds numeral_3_eq_3)
  next
    case big
    then have lb: "lb = (flag m 0x80 OR 127) # u64_to_be_bytes (of_nat len)"
      using ul assms(2) by (simp add: length_bytes_def thresholds)
    show ?thesis unfolding write_length_def lb
      using big one [of "flag m 0x80 OR 127" "8 + j"] two [of "u64_to_be_bytes (of_nat len)" "flag m 0x80 OR 127"]
      by (simp add: thresholds)
  qed
qed

text \<open>The mask and the payload fill the rest.\<close>

lemma write_body:
  assumes "off = length xs" and "r = map Some xs @ replicate (length (key_bytes mk) + length payload) None"
  shows "(case mk of Some m \<Rightarrow> Option.bind (write_at off (mask_bytes m) r) (write_at (off + 4) (encode_payload_masked_inline le payload m))
      | None \<Rightarrow> write_at off payload r) = Some (map Some (xs @ key_bytes mk @ unmask_ref mk 0 payload))"
proof (cases mk)
  case None
  then show ?thesis using assms write_at_end [of off xs "length payload" payload 0]
    by (simp add: key_bytes_def unmask_ref_def)
next
  case (Some m)
  have "write_at off (mask_bytes m) r = Some (map Some (xs @ mask_bytes m) @ replicate (length payload) None)"
    using assms Some write_at_end [of off xs "4 + length payload" "mask_bytes m" "length payload"] by (simp add: key_bytes_def)
  moreover have "write_at (off + 4) (mask_from m 0 payload) (map Some (xs @ mask_bytes m) @ replicate (length payload) None)
      = Some (map Some ((xs @ mask_bytes m) @ mask_from m 0 payload))"
    using assms(1) write_at_end [of "off + 4" "xs @ mask_bytes m" "length payload" "mask_from m 0 payload" 0] by simp
  ultimately show ?thesis
    using Some by (simp add: encode_payload_masked_inline_eq key_bytes_def unmask_ref_def)
qed

lemma encode_region_eq:
  assumes "length payload < 2 ^ 64"
  shows "encode_region le op payload fin mk rsv1 = Some (map Some (frame_bytes (encoded_frame op payload fin mk rsv1)))"
proof -
  define b0 where "b0 = opcode_byte op OR flag fin 0x80 OR flag rsv1 0x40"
  define lb where "lb = length_bytes (mk \<noteq> None) (of_nat (length payload))"
  define j where "j = length (key_bytes mk) + length payload"
  have ul: "unat (of_nat (length payload) :: u64) = length payload" using assms by (rule u64_len)
  have total: "2 + (if length payload > MEDIUM_MESSAGE_THRESHOLD then 8 else if length payload > SMALL_MESSAGE_THRESHOLD then 2 else 0)
      + (if mk \<noteq> None then 4 else 0) + length payload = Suc (length lb + j)"
    using length_length_bytes [of "mk \<noteq> None" "of_nat (length payload)"]
    unfolding lb_def [symmetric] ul j_def by (cases mk) (auto split: if_splits)
  have w0: "write_at 0 [b0] (replicate (Suc (length lb + j)) None) = Some (map Some [b0] @ replicate (length lb + j) None)"
    using write_at_end [of 0 "[]" "Suc (length lb + j)" "[b0]"] by simp
  let ?bytes = "(b0 # lb) @ key_bytes mk @ unmask_ref mk 0 payload"
  let ?r = "map Some (b0 # lb) @ replicate j None"
  have body: "(case mk of Some m \<Rightarrow> Option.bind (write_at (Suc (length lb)) (mask_bytes m) ?r) (write_at (Suc (length lb) + 4) (encode_payload_masked_inline le payload m))
      | None \<Rightarrow> write_at (Suc (length lb)) payload ?r) = Some (map Some ?bytes)"
    by (rule write_body) (simp_all add: j_def)
  have "set_len (Suc (length lb + j)) (map Some ?bytes) = Some (map Some ?bytes)"
    by (cases mk) (simp_all add: set_len_def j_def key_bytes_def unmask_ref_def)
  then have "encode_region le op payload fin mk rsv1 = Some (map Some ?bytes)"
    unfolding encode_region_def Let_def total b0_def [symmetric] w0 write_length_eq [OF assms lb_def] bind.bind_lunit prod.case body .
  also have "(b0 # lb) @ key_bytes mk @ unmask_ref mk 0 payload = frame_bytes (encoded_frame op payload fin mk rsv1)"
    by (simp add: frame_bytes_def encoded_frame_def header_encode_bytes first_byte_def b0_def lb_def)
  finally show ?thesis .
qed

lemma encode_frame_with_rsv_eq:
  "length payload < 2 ^ 64 \<Longrightarrow>
     encode_frame_with_rsv pf buf op payload fin mk rsv1 = buf @ frame_bytes (encoded_frame op payload fin mk rsv1)"
  by (simp add: encode_frame_with_rsv_def encode_region_eq comp_def)

lemma encode_frame_header_eq:
  "encode_frame_header_with_rsv buf op (length payload) fin mk rsv1
     = buf @ header_encode (f_header (encoded_frame op payload fin mk rsv1)) []"
  by (simp add: encode_frame_header_with_rsv_def encoded_frame_def header_encode_bytes)

section \<open>The parser as an incremental decoder\<close>

definition fresh :: "nat \<Rightarrow> bool \<Rightarrow> bool \<Rightarrow> frame_parser" where
  "fresh m expect compressed = (if compressed then parser_with_compression m expect else parser_new m expect)"

lemma parser_rel_fresh: "parser_rel (fresh m expect compressed) [] []"
  by (simp add: parser_rel_def fresh_def parser_new_def parser_with_compression_def)

lemma parser_rel_append: "parser_rel p buf raw \<Longrightarrow> parser_rel p (buf @ x) (raw @ x)"
  by (cases "p_state p") (auto simp: parser_rel_def)

lemma parse_agrees: "parser_rel p buf raw \<Longrightarrow> phase_kept (pf_target pf) \<Longrightarrow> agrees p raw (parse pf p buf)"
  by (simp add: parse_is_slow parse_slow_agrees)

lemma frame_spec_Nil [simp]: "frame_spec p [] = More"
  by (simp add: frame_spec_def header_spec_def length_spec_def)

text \<open>What a state stands for: the bytes of the frame in progress, under the limits of \<open>p0\<close>.\<close>

definition parser_at :: "platform \<Rightarrow> frame_parser \<Rightarrow> frame_parser \<Rightarrow> bytes \<Rightarrow> bytes \<Rightarrow> bool" where
  "parser_at pf p0 p buf raw \<longleftrightarrow> phase_kept (pf_target pf) \<and> same_limits p0 p \<and> parser_rel p buf raw"

lemma parser_at_parse:
  assumes "parser_at pf p0 p buf raw"
  obtains r p' buf' where "parse pf p buf = (r, p', buf')"
    "case frame_spec p0 raw of More \<Rightarrow> r = Ok None \<and> parser_at pf p0 p' buf' raw
       | Bad e \<Rightarrow> r = Err e \<and> parser_at pf p0 p' buf' raw
       | Got f n \<Rightarrow> r = Ok (Some f) \<and> parser_at pf p0 p' buf' (drop n raw)"
proof -
  have a: "agrees p raw (parse pf p buf)" "frame_spec p0 = frame_spec p" "same_limits p0 p" "phase_kept (pf_target pf)"
    using assms parse_agrees frame_spec_cong [of p0 p] by (auto simp: parser_at_def)
  then show thesis
    using that by (cases "parse pf p buf") (fastforce simp: agrees_def parser_at_def intro: same_limits_trans split: scan.splits)
qed

interpretation frame_scanner: scanner "frame_spec p0" for p0
proof
  show "frame_spec p0 (raw @ x) = frame_spec p0 raw" if "frame_spec p0 raw \<noteq> More" for raw x
    using that by (rule frame_spec_append)
  show "0 < n \<and> n \<le> length raw" if "frame_spec p0 raw = Got f n" for raw f n
    using frame_spec_Got [OF that] by simp
qed

interpretation frame_decoder: incremental_decoder "frame_spec p0" "parse pf" "parser_at pf p0" for pf p0
proof
  show "parser_at pf p0 p (buf @ x) (raw @ x)" if "parser_at pf p0 p buf raw" for p buf raw x
    using that parser_rel_append by (auto simp: parser_at_def)
  show "\<exists>p' buf'. parse pf p buf = (Ok None, p', buf') \<and> parser_at pf p0 p' buf' raw"
    if "parser_at pf p0 p buf raw" "frame_spec p0 raw = More" for p buf raw
    by (rule parser_at_parse [OF that(1)]) (use that(2) in auto)
  show "\<exists>p' buf'. parse pf p buf = (Err e, p', buf') \<and> parser_at pf p0 p' buf' raw"
    if "parser_at pf p0 p buf raw" "frame_spec p0 raw = Bad e" for p buf raw e
    by (rule parser_at_parse [OF that(1)]) (use that(2) in auto)
  show "\<exists>p' buf'. parse pf p buf = (Ok (Some f), p', buf') \<and> parser_at pf p0 p' buf' (drop n raw)"
    if "parser_at pf p0 p buf raw" "frame_spec p0 raw = Got f n" for p buf raw f n
    by (rule parser_at_parse [OF that(1)]) (use that(2) in auto)
qed

lemma parser_at_fresh: "phase_kept (pf_target pf) \<Longrightarrow> parser_at pf (fresh m x c) (fresh m x c) [] []"
  by (simp add: parser_at_def parser_rel_fresh)

lemma feed_fresh:
  assumes "phase_kept (pf_target pf)" and "items_of (frame_spec (fresh m x c)) (concat cs) = (vs, e, rest)"
  shows "\<exists>p' buf' rest'. feed (parse pf) (fresh m x c) [] cs = Some (vs, e, p', buf')
       \<and> parser_at pf (fresh m x c) p' buf' rest'
       \<and> (case e of None \<Rightarrow> rest' = rest | Some e \<Rightarrow> frame_spec (fresh m x c) rest' = Bad e)"
  by (rule frame_decoder.feed_items [OF parser_at_fresh [OF assms(1)]])
    (use assms(2) in \<open>simp_all add: frame_scanner.items_More\<close>)

section \<open>A stream of encoded frames\<close>

type_synonym out_frame = "opcode \<times> bytes \<times> bool \<times> mask4 option \<times> bool"

primrec encode_all :: "platform \<Rightarrow> bytes \<Rightarrow> out_frame list \<Rightarrow> bytes" where
  "encode_all pf buf [] = buf"
| "encode_all pf buf (f # fs) =
     (case f of (op, payload, fin, mk, rsv1) \<Rightarrow> encode_all pf (encode_frame_with_rsv pf buf op payload fin mk rsv1) fs)"

definition out_frame :: "out_frame \<Rightarrow> frame" where
  "out_frame = (\<lambda>(op, payload, fin, mk, rsv1). encoded_frame op payload fin mk rsv1)"

text \<open>What a sender must respect: control frames are final and short, the key is there when the peer wants it.\<close>

definition sendable :: "frame_parser \<Rightarrow> out_frame \<Rightarrow> bool" where
  "sendable p = (\<lambda>(op, payload, fin, mk, rsv1).
     (rsv1 \<longrightarrow> allow_rsv1 p \<and> op \<in> {OpText, OpBinary}) \<and> (is_control op \<longrightarrow> fin \<and> length payload \<le> 125)
     \<and> (mk \<noteq> None) = expect_masked p \<and> length payload \<le> max_frame_size p \<and> length payload < 2 ^ 63)"

lemma sendable_frame_ok: "sendable p f \<Longrightarrow> frame_ok p (out_frame f)"
  by (auto simp: sendable_def out_frame_def frame_ok_def header_ok_def encoded_frame_def u64_len split: prod.splits)

lemma encode_all_bytes:
  "list_all (sendable p) fs \<Longrightarrow> encode_all pf buf fs = buf @ concat (map (frame_bytes \<circ> out_frame) fs)"
proof (induction fs arbitrary: buf)
  case (Cons f fs)
  then show ?case by (cases f) (simp add: sendable_def encode_frame_with_rsv_eq out_frame_def)
qed simp

lemma items_of_frames:
  "list_all (frame_ok p) fs \<Longrightarrow> items_of (frame_spec p) (concat (map frame_bytes fs)) = (fs, None, [])"
proof (induction fs)
  case Nil
  then show ?case by (simp add: frame_scanner.items_More)
next
  case (Cons f fs)
  then have "frame_spec p (concat (map frame_bytes (f # fs))) = Got f (length (frame_bytes f))"
    by (auto simp: frame_spec_iff)
  from frame_scanner.items_Got [OF this] show ?case using Cons by simp
qed

section \<open>Changing the limit\<close>

text \<open>
  A limit set in the middle of a frame takes effect at once: with the length of the frame known
  the parser fails or goes on, otherwise it meets the limit when the length arrives.
\<close>

definition limits_of :: "frame_parser \<Rightarrow> frame_parser \<Rightarrow> nat \<Rightarrow> bool" where
  "limits_of q p m \<longleftrightarrow> expect_masked q = expect_masked p \<and> allow_rsv1 q = allow_rsv1 p \<and> max_frame_size q = m"

lemma set_max_frame_size_limits: "limits_of (set_max_frame_size p m) p m"
  by (simp add: limits_of_def set_max_frame_size_def Let_def split: option.split)

lemma limits_check:
  assumes "limits_of q p m"
  shows "check_base q = check_base p"
    "check_size q op len = (if is_control op \<and> unat len > 125 then Err (Protocol_err ''control frame too large'')
       else if unat len > m then Err FrameTooLarge else Ok ())"
proof -
  have l: "expect_masked q = expect_masked p" "allow_rsv1 q = allow_rsv1 p" "max_frame_size q = m"
    using assms by (simp_all add: limits_of_def)
  show "check_base q = check_base p" by (intro ext) (unfold check_base_def l, rule refl)
  show "check_size q op len = (if is_control op \<and> unat len > 125 then Err (Protocol_err ''control frame too large'')
       else if unat len > m then Err FrameTooLarge else Ok ())" by (unfold check_size_def l, rule refl)
qed

lemma extended_spec_limit:
  assumes "limits_of q p m" "extended_spec p raw op k read check = Got (op', len) n"
  shows "extended_spec q raw op k read check = (if unat len > m then Bad FrameTooLarge else Got (op', len) n)"
proof -
  define v where "v = read (take (k - 2) (drop 2 raw))"
  have a: "\<not> length raw < k" "\<And>e. check v \<noteq> Err e" "check_size p op v = Ok ()" "op' = op" "len = v" "n = k"
    using assms(2) check_never_panics(4) [of p op v]
    by (auto simp: extended_spec_def Let_def split: if_splits result.splits simp flip: v_def)
  have c: "check_size q op v = (if unat v > m then Err FrameTooLarge else Ok ())"
    using a(3) by (auto simp: limits_check(2) [OF assms(1)] check_size_ok)
  show ?thesis
    using a unfolding extended_spec_def Let_def v_def [symmetric] c by (cases "check v") auto
qed

lemma length_spec_limit:
  assumes "limits_of q p m" "length_spec p raw = Got (op, len) n"
  shows "length_spec q raw = (if unat len > m then Bad FrameTooLarge else Got (op, len) n)"
proof -
  have l: "\<not> length raw < 2" and cb: "check_base p (raw ! 0) (raw ! 1) = Ok op"
    using length_spec_Got [OF assms(2)] by simp_all
  show ?thesis
    using assms(2) l cb extended_spec_limit [OF assms(1)] unfolding length_spec_def limits_check(1) [OF assms(1)] Let_def
    by (cases "raw ! 1 AND 0x7F \<le> 125"; cases "raw ! 1 AND 0x7F = 126") simp_all
qed

lemma header_spec_limit:
  assumes "limits_of q p m" "header_spec p raw = Got h n"
  shows "header_spec q raw = (if unat (h_payload_len h) > m then Bad FrameTooLarge else Got h n)"
proof -
  obtain op len k where k: "length_spec p raw = Got (op, len) k"
    using assms(2) by (auto simp: header_spec_def split: scan.splits if_splits)
  then have "h_payload_len h = len"
    using assms(2) by (auto simp: header_spec_def header_of_def split: if_splits)
  then show ?thesis using assms(2) length_spec_limit [OF assms(1) k] k by (auto simp: header_spec_def)
qed

definition limited :: "frame_parser \<Rightarrow> nat \<Rightarrow> bool" where
  "limited p m \<longleftrightarrow> (\<exists>h. p_header p = Some h \<and> m < unat (h_payload_len h))"

lemma set_max_frame_size_eq:
  "set_max_frame_size p m = (if limited p m then p\<lparr>max_frame_size := m, p_state := FrameTooLarge_st\<rparr> else p\<lparr>max_frame_size := m\<rparr>)"
  by (cases "p_header p") (simp_all add: set_max_frame_size_def limited_def Let_def)

lemma limited_spec:
  assumes "parser_rel p buf raw" "limited p m" "limits_of q p m"
  shows "frame_spec q raw = Bad FrameTooLarge"
proof -
  obtain h where h: "p_header p = Some h" "m < unat (h_payload_len h)" using assms(2) by (auto simp: limited_def)
  have "p_state p = Mask \<or> p_state p = Payload"
    using assms(1) h(1) by (cases "p_state p") (auto simp: parser_rel_def)
  then have "header_spec q raw = Bad FrameTooLarge"
  proof
    assume "p_state p = Mask"
    then obtain op len n where a: "raw = saved p @ buf" "h = header_of (hb0 p) (hb1 p) op len None"
      "length_spec p (take n (header_buf p)) = Got (op, len) n" "n \<le> header_len p"
      using assms(1) h(1) by (auto simp: parser_rel_def)
    have "length_spec q (take n (header_buf p)) = Bad FrameTooLarge"
      using length_spec_limit [OF assms(3) a(3)] h(2) a(2) by (simp add: header_of_def)
    moreover obtain x where "raw = take n (header_buf p) @ x"
      using a(1,4) by (metis append.assoc append_take_drop_id min.absorb1 saved_def take_take)
    ultimately have "length_spec q raw = Bad FrameTooLarge" using length_spec_append by (metis scan.distinct(1))
    then show ?thesis by (simp add: header_spec_def)
  next
    assume "p_state p = Payload"
    then obtain hb x where a: "header_spec p hb = Got h (length hb)" "raw = hb @ x"
      using assms(1) h(1) by (auto simp: parser_rel_def)
    have "header_spec q hb = Bad FrameTooLarge" using header_spec_limit [OF assms(3) a(1)] h(2) by simp
    then show ?thesis using header_spec_append [of q hb x] a(2) by simp
  qed
  then show ?thesis by (simp add: frame_spec_def)
qed

lemma parser_rel_limit:
  assumes "parser_rel p buf raw" "\<not> limited p m"
  shows "parser_rel (p\<lparr>max_frame_size := m\<rparr>) buf raw"
proof -
  let ?q = "p\<lparr>max_frame_size := m\<rparr>"
  have l: "limits_of ?q p m" by (simp add: limits_of_def)
  note lc = limits_check(1) [OF l]
  show ?thesis
  proof (cases "p_state p")
    case Mask
    then obtain op len n where a: "p_header p = Some (header_of (hb0 p) (hb1 p) op len None)"
      "length_spec p (take n (header_buf p)) = Got (op, len) n" "n \<le> header_len p" "header_len p \<le> n + 4"
      using assms(1) by (auto simp: parser_rel_def)
    have "\<not> m < unat len" using assms(2) a(1) by (simp add: limited_def header_of_def)
    then have "length_spec ?q (take n (header_buf p)) = Got (op, len) n" using length_spec_limit [OF l a(2)] by simp
    then show ?thesis using assms(1) Mask a unfolding parser_rel_def
      by (simp add: saved_def, intro exI [of _ op] exI [of _ len] conjI refl exI [of _ n]) simp_all
  next
    case Payload
    then obtain h hb where a: "p_header p = Some h" "header_spec p hb = Got h (length hb)"
      "payload_ready p \<le> unat (h_payload_len h)" "payload_ready p \<le> length buf"
      "raw = hb @ unmask_ref (h_mask h) 0 (take (payload_ready p) buf) @ drop (payload_ready p) buf" "length (header_buf p) = 14"
      using assms(1) by (auto simp: parser_rel_def)
    have "header_spec ?q hb = Got h (length hb)"
      using header_spec_limit [OF l a(2)] assms(2) a(1) by (simp add: limited_def)
    then show ?thesis using a Payload by (auto simp: parser_rel_def)
  qed (use assms(1) in \<open>simp_all add: parser_rel_def saved_def lc\<close>)
qed

definition outcome :: "frame scan \<Rightarrow> frame option ws_result" where
  "outcome s = (case s of More \<Rightarrow> Ok None | Bad e \<Rightarrow> Err e | Got f _ \<Rightarrow> Ok (Some f))"

lemma limit_outcome:
  assumes "parser_rel p buf raw" "phase_kept (pf_target pf)"
  shows "fst (parse pf (set_max_frame_size p m) buf) = outcome (frame_spec (set_max_frame_size p m) raw)"
proof (cases "limited p m")
  case True
  have st: "p_state (set_max_frame_size p m) = FrameTooLarge_st" using True by (simp add: set_max_frame_size_eq)
  then have "parse_step pf (set_max_frame_size p m) buf = (Return (Err FrameTooLarge), set_max_frame_size p m, buf)"
    by (simp add: parse_step_def)
  from parse_slow_Return [OF this] have "fst (parse pf (set_max_frame_size p m) buf) = Err FrameTooLarge"
    by (simp only: parse_is_slow fst_conv)
  then show ?thesis using limited_spec [OF assms(1) True set_max_frame_size_limits] by (simp add: outcome_def)
next
  case False
  then have "parser_rel (set_max_frame_size p m) buf raw"
    using parser_rel_limit [OF assms(1)] by (simp add: set_max_frame_size_eq)
  from parse_agrees [OF this assms(2)] show ?thesis
    unfolding agrees_def outcome_def
    by (cases "frame_spec (set_max_frame_size p m) raw"; cases "parse pf (set_max_frame_size p m) buf") simp_all
qed

lemma parser_rel_Nil: "parser_rel p buf [] \<Longrightarrow> p_state p = Header \<and> buf = []"
proof (cases "p_state p")
  case Mask
  assume "parser_rel p buf []"
  then obtain op len n where "length_spec p (take n (header_buf p)) = Got (op, len) n" "n \<le> header_len p" "header_len p = 0"
    using Mask by (auto simp: parser_rel_def saved_def)
  then show ?thesis by (auto dest: length_spec_Got)
qed (auto simp: parser_rel_def saved_def header_spec_def length_spec_def)

lemma items_of_frame_bytes:
  "items_of (frame_spec p) raw = (fs, e, rest) \<Longrightarrow>
     list_all (frame_ok p) fs \<and> raw = concat (map frame_bytes fs) @ rest \<and> frame_spec p rest = (case e of None \<Rightarrow> More | Some e \<Rightarrow> Bad e)"
proof (induction raw arbitrary: fs rule: frame_scanner.scan_induct [of p])
  case (Got raw f n)
  obtain gs where gs: "items_of (frame_spec p) (drop n raw) = (gs, e, rest)" "fs = f # gs"
    using Got(4) frame_scanner.items_Got [OF Got(1)] by (cases "items_of (frame_spec p) (drop n raw)") auto
  have "frame_ok p f" "raw = frame_bytes f @ drop n raw" using Got(1) by (auto simp: frame_spec_iff)
  moreover have "drop n raw = concat (map frame_bytes gs) @ rest" using Got(3) [OF gs(1)] by blast
  ultimately show ?case using Got(3) [OF gs(1)] gs(2) by simp
qed (auto simp: frame_scanner.items_More frame_scanner.items_Bad)

lemma fed_fresh:
  assumes "platform_ok pf" and f: "feed (parse pf) (fresh m x c) [] cs = Some (fs, e, p', buf')"
  obtains rest rest' where "items_of (frame_spec (fresh m x c)) (concat cs) = (fs, e, rest)"
    "parser_at pf (fresh m x c) p' buf' rest'"
    "case e of None \<Rightarrow> rest' = rest | Some e \<Rightarrow> frame_spec (fresh m x c) rest' = Bad e"
proof -
  obtain fs' e' rest where i: "items_of (frame_spec (fresh m x c)) (concat cs) = (fs', e', rest)"
    by (cases "items_of (frame_spec (fresh m x c)) (concat cs)") auto
  have "phase_kept (pf_target pf)" using assms(1) by (simp add: platform_ok_def)
  from feed_fresh [OF this i] f that i show thesis by auto
qed

lemma feed_std:
  assumes "items_of (frame_spec (fresh m x c)) (concat cs) = (fs, e, rest)"
  obtains p' buf' where "feed (parse std_platform) (fresh m x c) [] cs = Some (fs, e, p', buf')"
  using feed_fresh [OF _ assms, of std_platform] std_platform_ok unfolding platform_ok_def by blast

section \<open>Properties\<close>

text \<open>
  C5. The frame parser gives, for every way the transport cuts its input, the frames and the
  error of the reference parser on the whole input: it always returns, never panics, and
  neither the pieces nor the fast paths nor the unmasking in place make a difference.
\<close>

theorem parse_any_chunking:
  assumes "platform_ok pf"
  shows "\<exists>p' buf'. feed (parse pf) (fresh m x c) [] cs =
    (case items_of (frame_spec (fresh m x c)) (concat cs) of (fs, e, _) \<Rightarrow> Some (fs, e, p', buf'))"
proof -
  obtain fs e rest where i: "items_of (frame_spec (fresh m x c)) (concat cs) = (fs, e, rest)"
    by (cases "items_of (frame_spec (fresh m x c)) (concat cs)") auto
  from feed_fresh [OF _ i] assms show ?thesis by (fastforce simp: i platform_ok_def)
qed

theorem parse_any_chunking_witness:
  "platform_ok std_platform \<and> (\<exists>p' buf'. feed (parse std_platform) (fresh 100 False False) [] [[0x81], [1, 65, 0xFF], [7]] =
     Some ([frame_text [65]], Some (Protocol_err ''RSV1 must be 0 (compression not negotiated)''), p', buf'))"
proof -
  have "items_of (frame_spec (fresh 100 False False)) [0x81, 1, 65, 0xFF, 7] =
      ([frame_text [65]], Some (Protocol_err ''RSV1 must be 0 (compression not negotiated)''), [0xFF, 7])"
    by code_simp
  then show ?thesis
    using parse_any_chunking [of std_platform 100 False False "[[0x81], [1, 65, 0xFF], [7]]"] by simp
qed

text \<open>
  C6. Round trip of the codec: frames written one after the other by the encoder and received in
  arbitrary pieces are the frames the parser gives, in order, with nothing left over.
\<close>

theorem stream_roundtrip:
  assumes "platform_ok pf" "list_all (sendable (fresh m x c)) fs" "concat cs = encode_all pf [] fs"
  shows "\<exists>p'. feed (parse pf) (fresh m x c) [] cs = Some (map out_frame fs, None, p', []) \<and> p_state p' = Header"
proof -
  have "list_all (frame_ok (fresh m x c)) (map out_frame fs)"
    using assms(2) by (auto simp: list_all_iff sendable_frame_ok)
  from items_of_frames [OF this]
  have "items_of (frame_spec (fresh m x c)) (concat cs) = (map out_frame fs, None, [])"
    using assms(3) encode_all_bytes [OF assms(2)] by (simp add: comp_def)
  from feed_fresh [OF _ this, of pf] assms(1) show ?thesis
    by (auto simp: platform_ok_def parser_at_def dest: parser_rel_Nil)
qed

theorem stream_roundtrip_witness:
  "\<exists>p'. feed (parse std_platform) (fresh 100 True False) [] [encode_all std_platform [] [(OpText, [72, 105], True, Some (1, 2, 3, 4), False)]]
     = Some ([encoded_frame OpText [72, 105] True (Some (1, 2, 3, 4)) False], None, p', []) \<and> p_state p' = Header"
proof -
  let ?f = "(OpText, [72, 105], True, Some (1, 2, 3, 4), False)"
  have "sendable (fresh 100 True False) ?f" by (simp add: sendable_def fresh_def parser_new_def)
  then show ?thesis
    using stream_roundtrip [of std_platform 100 True False "[?f]" "[encode_all std_platform [] [?f]]"]
    by (simp add: out_frame_def)
qed

text \<open>
  C7. The parser accepts canonical wire forms only: what it has given and what it holds back are
  the bytes received, each frame is one that its limits allow (reserved bits, opcode, masking,
  control frames, minimal length, maximal length), encoded as the encoder would encode it.
\<close>

theorem accepted_frames_canonical:
  assumes "platform_ok pf" "feed (parse pf) (fresh m x c) [] cs = Some (fs, None, p', buf')"
  shows "list_all (frame_ok (fresh m x c)) fs \<and>
    (\<exists>rest. concat cs = concat (map frame_bytes fs) @ rest \<and> frame_spec (fresh m x c) rest = More)"
  by (rule fed_fresh [OF assms]) (auto dest: items_of_frame_bytes)

theorem accepted_frames_canonical_witness:
  "\<exists>p' buf'. feed (parse std_platform) (fresh 100 False False) [] [[0x82, 1], [9, 0x81]] = Some ([frame_binary [9]], None, p', buf')
    \<and> list_all (frame_ok (fresh 100 False False)) [frame_binary [9]]"
proof -
  have "items_of (frame_spec (fresh 100 False False)) (concat [[0x82, 1], [9, 0x81]]) = ([frame_binary [9]], None, [0x81])"
    by code_simp
  then obtain p' buf' where f: "feed (parse std_platform) (fresh 100 False False) [] [[0x82, 1], [9, 0x81]] = Some ([frame_binary [9]], None, p', buf')"
    by (rule feed_std)
  from accepted_frames_canonical [OF std_platform_ok f] f show ?thesis by blast
qed

text \<open>
  C10. The two fast paths in front of the state machine are an optimisation only: in every state,
  on every buffer, they give the result, the parser and the buffer of the slow path.
\<close>

theorem fast_paths_agree: "parse pf p buf = parse_slow pf p buf"
  by (rule parse_is_slow)

text \<open>
  C11. The encoder reserves the size of a frame, writes through a raw pointer and extends the buffer:
  no write leaves the memory that it reserved, the new length covers exactly that memory, every byte
  exposed has been written, and they are the header of the frame followed by the masked payload.
\<close>

theorem encode_region_initialised:
  assumes "length payload < 2 ^ 64"
  shows "\<exists>r. encode_region le op payload fin mk rsv1 = Some r \<and> None \<notin> set r \<and>
    map the r = encode_frame_header_with_rsv [] op (length payload) fin mk rsv1
      @ (case mk of None \<Rightarrow> payload | Some k \<Rightarrow> mask_from k 0 payload)"
  using encode_region_eq [OF assms, of le op fin mk rsv1]
  by (auto simp: comp_def encode_frame_header_eq frame_bytes_def encoded_frame_def unmask_ref_def split: option.split)

theorem encode_region_initialised_witness:
  "\<exists>r. encode_region True OpText [72, 105] True (Some (1, 2, 3, 4)) False = Some r \<and> None \<notin> set r
     \<and> map the r = [0x81, 0x82, 1, 2, 3, 4, 73, 107]"
proof -
  have "encode_frame_header_with_rsv [] OpText (length [72, 105 :: byte]) True (Some (1, 2, 3, 4)) False @ mask_from (1, 2, 3, 4) 0 [72, 105]
      = [0x81, 0x82, 1, 2, 3, 4, 73, 107]" by code_simp
  with encode_region_initialised [of "[72, 105]" True OpText True "Some (1, 2, 3, 4)" False]
  show ?thesis by (simp only: option.case) simp
qed

text \<open>
  C12. A parser that has failed never delivers a frame again: whatever bytes follow and however often
  it is called on them, each of the later calls fails with the error of the first failure.
\<close>

theorem failed_parser_stays_failed:
  assumes "platform_ok pf" "feed (parse pf) (fresh m x c) [] cs = Some (fs, Some e, p', buf')"
  shows "call_results (parse pf) p' buf' ds = replicate (length ds) (Err e)"
  by (rule fed_fresh [OF assms]) (simp add: frame_decoder.failed_again)

text \<open>
  C13. A limit set between two calls, in the middle of a frame or not, holds from then on: the next
  call gives what the reference parser with the new limit gives on the bytes of the frame in
  progress.
\<close>

theorem limit_takes_effect:
  assumes "platform_ok pf" "feed (parse pf) (fresh m x c) [] cs = Some (fs, None, p', buf')"
    and "items_of (frame_spec (fresh m x c)) (concat cs) = (fs, None, rest)"
  shows "fst (parse pf (set_max_frame_size p' n) (buf' @ d)) = outcome (frame_spec (fresh n x c) (rest @ d))"
proof -
  from fed_fresh [OF assms(1,2)] assms(3) have at: "parser_at pf (fresh m x c) p' buf' rest" by auto
  then have "parser_rel p' (buf' @ d) (rest @ d)" "phase_kept (pf_target pf)" using parser_rel_append by (auto simp: parser_at_def)
  note l = limit_outcome [OF this, of n]
  have "same_limits (set_max_frame_size p' n) (fresh n x c)"
    using at set_max_frame_size_limits [of p' n]
    by (auto simp: parser_at_def limits_of_def same_limits_def fresh_def parser_new_def parser_with_compression_def)
  then show ?thesis using l by (simp add: frame_spec_cong)
qed

theorem failed_parser_stays_failed_witness:
  "\<exists>p' buf'. feed (parse std_platform) (fresh 100 False False) [] [[0x83], [0]] =
       Some ([], Some (InvalidFrame ''invalid opcode''), p', buf')
     \<and> call_results (parse std_platform) p' buf' [[0x81, 0], [], [0x81, 0]] =
         [Err (InvalidFrame ''invalid opcode''), Err (InvalidFrame ''invalid opcode''), Err (InvalidFrame ''invalid opcode'')]"
proof -
  have "items_of (frame_spec (fresh 100 False False)) (concat [[0x83], [0]]) = ([], Some (InvalidFrame ''invalid opcode''), [0x83, 0])"
    by code_simp
  then obtain p' buf' where f: "feed (parse std_platform) (fresh 100 False False) [] [[0x83], [0]] = Some ([], Some (InvalidFrame ''invalid opcode''), p', buf')"
    by (rule feed_std)
  have "call_results (parse std_platform) p' buf' [[0x81, 0], [], [0x81, 0]] =
      replicate (length [[0x81, 0], [], [0x81, 0 :: byte]]) (Err (InvalidFrame ''invalid opcode''))"
    by (rule failed_parser_stays_failed [OF std_platform_ok f])
  with f show ?thesis by (simp add: numeral_3_eq_3)
qed

theorem limit_takes_effect_witness:
  "\<exists>p' buf'. feed (parse std_platform) (fresh 100 False False) [] [[0x82, 50, 9]] = Some ([], None, p', buf')
    \<and> fst (parse std_platform (set_max_frame_size p' 40) (buf' @ [1])) = Err FrameTooLarge"
proof -
  have i: "items_of (frame_spec (fresh 100 False False)) (concat [[0x82, 50, 9]]) = ([], None, [0x82, 50, 9])"
    by code_simp
  have o: "outcome (frame_spec (fresh 40 False False) ([0x82, 50, 9] @ [1])) = Err FrameTooLarge"
    by code_simp
  obtain p' buf' where f: "feed (parse std_platform) (fresh 100 False False) [] [[0x82, 50, 9]] = Some ([], None, p', buf')"
    by (rule feed_std [OF i])
  from limit_takes_effect [OF std_platform_ok f i, of 40 "[1]"] o
  have "fst (parse std_platform (set_max_frame_size p' 40) (buf' @ [1])) = Err FrameTooLarge" by (rule trans)
  with f show ?thesis by blast
qed

end
