(* ===== verification/WS_Protocol.thy ===== *)
theory WS_Protocol
  imports WS_Codec
begin

text \<open>
  The protocol state machine of \<^verbatim>\<open>src/protocol.rs\<close> without compression: messages, the
  \<^verbatim>\<open>Protocol\<close> record, one definition per handler, the receive loops of the typed, the
  single-message and the raw reader, and the encoders. The loops of the three protocol types
  of the module have the same shape; \<open>frame_loop\<close> is that shape, with the parser, the handler
  and what is done when the parser waits as arguments. The key that \<^verbatim>\<open>generate_mask\<close> returns
  is an argument of the encoders. A slice out of range and an underflow are \<^term>\<open>Panic\<close>.
\<close>

section \<open>Messages\<close>

datatype role = Client | Server

datatype message = Text bytes | Binary bytes | Ping bytes | Pong bytes | Close "close_reason option"

datatype raw_message = RawText bytes | RawBinary bytes | RawPing bytes | RawPong bytes | RawClose "close_reason option"

fun raw_opcode :: "raw_message \<Rightarrow> opcode" where
  "raw_opcode (RawText _) = OpText"
| "raw_opcode (RawBinary _) = OpBinary"
| "raw_opcode (RawPing _) = OpPing"
| "raw_opcode (RawPong _) = OpPong"
| "raw_opcode (RawClose _) = OpClose"

fun raw_as_bytes :: "raw_message \<Rightarrow> bytes" where
  "raw_as_bytes (RawText b) = b"
| "raw_as_bytes (RawBinary b) = b"
| "raw_as_bytes (RawPing b) = b"
| "raw_as_bytes (RawPong b) = b"
| "raw_as_bytes (RawClose _) = []"

fun msg_is_close :: "message \<Rightarrow> bool" where
  "msg_is_close (Close _) = True"
| "msg_is_close _ = False"

fun msg_is_text :: "message \<Rightarrow> bool" where
  "msg_is_text (Text _) = True"
| "msg_is_text _ = False"

fun msg_is_control :: "message \<Rightarrow> bool" where
  "msg_is_control (Ping _) = True"
| "msg_is_control (Pong _) = True"
| "msg_is_control (Close _) = True"
| "msg_is_control _ = False"

definition msg_as_text :: "platform \<Rightarrow> message \<Rightarrow> bytes option" where
  "msg_as_text pf m = (case m of Text b \<Rightarrow> if pf_simdutf8 pf b then Some b else None | _ \<Rightarrow> None)"

fun msg_as_bytes :: "message \<Rightarrow> bytes" where
  "msg_as_bytes (Text b) = b"
| "msg_as_bytes (Binary b) = b"
| "msg_as_bytes (Ping b) = b"
| "msg_as_bytes (Pong b) = b"
| "msg_as_bytes (Close _) = []"

fun msg_text_bytes :: "message \<Rightarrow> bytes option" where
  "msg_text_bytes (Text b) = Some b"
| "msg_text_bytes _ = None"

section \<open>State\<close>

datatype conn_state = Open | CloseSent | CloseReceived | Closed

record protocol =
  validate_text_utf8 :: bool
  role :: role
  state :: conn_state
  parser :: frame_parser
  fragment_buf :: bytes
  fragment_opcode :: "opcode option"
  fragment_validated_len :: nat
  max_message_size :: nat
  pending_close :: "close_reason option"
  utf8 :: utf8_stream
  partial_checked :: nat

definition protocol_new :: "role \<Rightarrow> nat \<Rightarrow> nat \<Rightarrow> protocol" where
  "protocol_new r max_frame max_message =
     \<lparr>validate_text_utf8 = True, role = r, state = Open, parser = parser_new max_frame (r = Server),
      fragment_buf = [], fragment_opcode = None, fragment_validated_len = 0, max_message_size = max_message,
      pending_close = None, utf8 = utf8_stream_new, partial_checked = 0\<rparr>"

definition with_text_utf8_validation :: "protocol \<Rightarrow> bool \<Rightarrow> protocol" where
  "with_text_utf8_validation P enabled = P\<lparr>validate_text_utf8 := enabled\<rparr>"

definition protocol_split :: "protocol \<Rightarrow> nat \<Rightarrow> nat \<Rightarrow> protocol \<times> protocol" where
  "protocol_split P max_frame max_message =
     (P, (protocol_new (role P) max_frame max_message)\<lparr>state := state P, pending_close := pending_close P\<rparr>)"

definition enable_compression :: "protocol \<Rightarrow> protocol" where
  "enable_compression P = P\<lparr>parser := set_compression (parser P) True\<rparr>"

definition is_closed :: "protocol \<Rightarrow> bool" where "is_closed P \<longleftrightarrow> state P = Closed"
definition is_closing :: "protocol \<Rightarrow> bool" where "is_closing P \<longleftrightarrow> state P \<in> {CloseSent, CloseReceived}"

text \<open>Handlers return their result and the new state; a slice may be out of range.\<close>

type_synonym ('s, 'a) op = "'a ws_result \<times> 's"

definition byte_slice :: "bytes \<Rightarrow> nat \<Rightarrow> nat \<Rightarrow> bytes ws_result" where
  "byte_slice xs i j = (if i \<le> j \<and> j \<le> length xs then Ok (take (j - i) (drop i xs)) else Panic)"

definition slice_from :: "bytes \<Rightarrow> nat \<Rightarrow> bytes ws_result" where
  "slice_from xs i = byte_slice xs i (length xs)"

definition ensure_message_size :: "nat \<Rightarrow> nat \<Rightarrow> unit ws_result" where
  "ensure_message_size sz m = (if sz > m then Err MessageTooLarge else Ok ())"

definition raw_data_message :: "raw_message \<Rightarrow> message ws_result" where
  "raw_data_message m = (case m of RawText p \<Rightarrow> Ok (Text p) | RawBinary p \<Rightarrow> Ok (Binary p) | _ \<Rightarrow> Panic)"

text \<open>\<^verbatim>\<open>.map(|message| message.map(raw_data_message))\<close>\<close>

definition raw_to_message :: "raw_message option ws_result \<Rightarrow> message option ws_result" where
  "raw_to_message r =
     (case r of Ok None \<Rightarrow> Ok None | Ok (Some m) \<Rightarrow> map_result Some (raw_data_message m) | Err e \<Rightarrow> Err e | Panic \<Rightarrow> Panic)"

section \<open>Validation of an incomplete text frame\<close>

definition push_utf8 :: "platform \<Rightarrow> protocol \<Rightarrow> bytes ws_result \<Rightarrow> (protocol, unit) op" where
  "push_utf8 pf P chunk =
     (case chunk of
        Ok c \<Rightarrow> (case utf8_push (pf_simdutf8 pf) (utf8 P) c of
            (ok, u) \<Rightarrow> (if ok then Ok () else Err InvalidUtf8, P\<lparr>utf8 := u\<rparr>))
      | Err e \<Rightarrow> (Err e, P)
      | Panic \<Rightarrow> (Panic, P))"

definition resume_utf8 :: "platform \<Rightarrow> protocol \<Rightarrow> (protocol, unit) op" where
  "resume_utf8 pf P =
     (case slice_from (fragment_buf P) (fragment_validated_len P) of
        Ok suffix \<Rightarrow> (case utf8_resume (pf_simdutf8 pf) (utf8 P) suffix of
            (ok, u) \<Rightarrow> (if ok then Ok () else Err InvalidUtf8, P\<lparr>utf8 := u\<rparr>))
      | Err e \<Rightarrow> (Err e, P)
      | Panic \<Rightarrow> (Panic, P))"

definition prevalidate_partial_text :: "platform \<Rightarrow> protocol \<Rightarrow> bytes \<Rightarrow> (protocol, unit) op" where
  "prevalidate_partial_text pf P buf =
     (if \<not> validate_text_utf8 P then (Ok (), P)
      else case pending_payload (parser P) of
        None \<Rightarrow> (Ok (), P)
      | Some pending \<Rightarrow>
          if pp_rsv1 pending \<or> pp_ready pending \<le> partial_checked P then (Ok (), P)
          else if \<not> (case pp_opcode pending of
                 OpText \<Rightarrow> fragment_opcode P = None
               | OpContinuation \<Rightarrow> fragment_opcode P = Some OpText
               | _ \<Rightarrow> False) then (Ok (), P)
          else
            case (if partial_checked P = 0 then
                    if pp_opcode pending = OpContinuation then resume_utf8 pf P
                    else (Ok (), P\<lparr>utf8 := utf8_reset (utf8 P)\<rparr>)
                  else (Ok (), P)) of
              (Err e, P) \<Rightarrow> (Err e, P)
            | (Panic, P) \<Rightarrow> (Panic, P)
            | (Ok _, P) \<Rightarrow>
                let ready = min (pp_ready pending) (length buf) in
                case push_utf8 pf P (byte_slice buf (partial_checked P) ready) of
                  (Ok _, P) \<Rightarrow> (Ok (), P\<lparr>partial_checked := ready\<rparr>)
                | (r, P) \<Rightarrow> (r, P))"

section \<open>Fragments\<close>

definition start_fragment :: "platform \<Rightarrow> protocol \<Rightarrow> opcode \<Rightarrow> bytes \<Rightarrow> nat \<Rightarrow> (protocol, unit) op" where
  "start_fragment pf P op payload prevalidated =
     (if length payload > max_message_size P then (Err MessageTooLarge, P)
      else case (if op = OpText then
                   let P = (if prevalidated = 0 then P\<lparr>utf8 := utf8_reset (utf8 P)\<rparr> else P);
                       prevalidated = min prevalidated (length payload)
                   in push_utf8 pf P (slice_from payload prevalidated)
                 else (Ok (), P)) of
          (Err e, P) \<Rightarrow> (Err e, P)
        | (Panic, P) \<Rightarrow> (Panic, P)
        | (Ok _, P) \<Rightarrow>
            let P = P\<lparr>fragment_opcode := Some op, fragment_buf := payload\<rparr> in
            if op = OpText then
              if utf8_pending (utf8 P) > length payload then (Panic, P)
              else (Ok (), P\<lparr>fragment_validated_len := length payload - utf8_pending (utf8 P)\<rparr>)
            else (Ok (), P\<lparr>fragment_validated_len := 0\<rparr>))"

definition start_raw_fragment :: "protocol \<Rightarrow> opcode \<Rightarrow> bytes \<Rightarrow> (protocol, unit) op" where
  "start_raw_fragment P op payload =
     (if length payload > max_message_size P then (Err MessageTooLarge, P)
      else (Ok (), P\<lparr>fragment_opcode := Some op, fragment_validated_len := 0, fragment_buf := payload\<rparr>))"

definition complete_fragment :: "protocol \<Rightarrow> opcode \<Rightarrow> (protocol, message option) op" where
  "complete_fragment P op =
     (let data = fragment_buf P; P = P\<lparr>fragment_opcode := None, fragment_buf := []\<rparr> in
      case op of
        OpText \<Rightarrow> if \<not> utf8_finish (utf8 P) then (Err InvalidUtf8, P) else (Ok (Some (Text data)), P)
      | OpBinary \<Rightarrow> (Ok (Some (Binary data)), P)
      | _ \<Rightarrow> (Err (Protocol_err ''invalid fragment opcode''), P))"

definition complete_raw_fragment :: "protocol \<Rightarrow> opcode \<Rightarrow> (protocol, raw_message option) op" where
  "complete_raw_fragment P op =
     (let data = fragment_buf P; P = P\<lparr>fragment_opcode := None, fragment_buf := []\<rparr> in
      case op of
        OpText \<Rightarrow> (Ok (Some (RawText data)), P)
      | OpBinary \<Rightarrow> (Ok (Some (RawBinary data)), P)
      | _ \<Rightarrow> (Err (Protocol_err ''invalid fragment opcode''), P))"

section \<open>Data frames\<close>

definition handle_complete_data :: "platform \<Rightarrow> protocol \<Rightarrow> opcode \<Rightarrow> bytes \<Rightarrow> nat \<Rightarrow> (protocol, message) op" where
  "handle_complete_data pf P op payload prevalidated =
     (if fragment_opcode P \<noteq> None then (Err (Protocol_err ''expected continuation frame''), P)
      else case ensure_message_size (length payload) (max_message_size P) of
        Err e \<Rightarrow> (Err e, P)
      | Panic \<Rightarrow> (Panic, P)
      | Ok _ \<Rightarrow>
          if op = OpText then
            if validate_text_utf8 P then
              if prevalidated = 0 then
                (if validate_utf8 (pf_simdutf8 pf) payload then Ok (Text payload) else Err InvalidUtf8, P)
              else
                case push_utf8 pf P (slice_from payload (min prevalidated (length payload))) of
                  (Ok _, P) \<Rightarrow> (if utf8_finish (utf8 P) then Ok (Text payload) else Err InvalidUtf8, P)
                | (Err e, P) \<Rightarrow> (Err e, P)
                | (Panic, P) \<Rightarrow> (Panic, P)
            else (Ok (Text payload), P)
          else (Ok (Binary payload), P))"

definition handle_raw_data :: "protocol \<Rightarrow> opcode \<Rightarrow> (bytes \<Rightarrow> raw_message) \<Rightarrow> frame \<Rightarrow> (protocol, raw_message option) op" where
  "handle_raw_data P op con f =
     (if fragment_opcode P \<noteq> None then (Err (Protocol_err ''expected continuation frame''), P)
      else if h_fin (f_header f) then
        (map_result (\<lambda>_. Some (con (f_payload f))) (ensure_message_size (length (f_payload f)) (max_message_size P)), P)
      else case start_raw_fragment P op (f_payload f) of (r, P) \<Rightarrow> (map_result (\<lambda>_. None) r, P))"

definition handle_raw_text :: "protocol \<Rightarrow> frame \<Rightarrow> (protocol, raw_message option) op" where
  "handle_raw_text P f = handle_raw_data P OpText RawText f"

definition handle_raw_binary :: "protocol \<Rightarrow> frame \<Rightarrow> (protocol, raw_message option) op" where
  "handle_raw_binary P f = handle_raw_data P OpBinary RawBinary f"

definition handle_text :: "platform \<Rightarrow> protocol \<Rightarrow> frame \<Rightarrow> nat \<Rightarrow> (protocol, message option) op" where
  "handle_text pf P f prevalidated =
     (if h_fin (f_header f) then
        case handle_complete_data pf P OpText (f_payload f) prevalidated of (r, P) \<Rightarrow> (map_result Some r, P)
      else if \<not> validate_text_utf8 P then
        case handle_raw_text P f of (r, P) \<Rightarrow> (raw_to_message r, P)
      else if fragment_opcode P \<noteq> None then (Err (Protocol_err ''expected continuation frame''), P)
      else case start_fragment pf P OpText (f_payload f) prevalidated of (r, P) \<Rightarrow> (map_result (\<lambda>_. None) r, P))"

definition handle_binary :: "platform \<Rightarrow> protocol \<Rightarrow> frame \<Rightarrow> (protocol, message option) op" where
  "handle_binary pf P f =
     (if h_fin (f_header f) then
        case handle_complete_data pf P OpBinary (f_payload f) 0 of (r, P) \<Rightarrow> (map_result Some r, P)
      else if fragment_opcode P \<noteq> None then (Err (Protocol_err ''expected continuation frame''), P)
      else case start_fragment pf P OpBinary (f_payload f) 0 of (r, P) \<Rightarrow> (map_result (\<lambda>_. None) r, P))"

definition handle_raw_continuation :: "protocol \<Rightarrow> frame \<Rightarrow> (protocol, raw_message option) op" where
  "handle_raw_continuation P f =
     (case fragment_opcode P of
        None \<Rightarrow> (Err (Protocol_err ''unexpected continuation frame''), P)
      | Some op \<Rightarrow>
          if length (fragment_buf P) + length (f_payload f) > max_message_size P then (Err MessageTooLarge, P)
          else let P = P\<lparr>fragment_buf := fragment_buf P @ f_payload f\<rparr> in
            if h_fin (f_header f) then complete_raw_fragment P op else (Ok None, P))"

text \<open>The validation that a continuation of a text message goes through before it is stored.\<close>

definition validate_continuation :: "platform \<Rightarrow> protocol \<Rightarrow> bytes \<Rightarrow> nat \<Rightarrow> (protocol, unit) op" where
  "validate_continuation pf P payload prevalidated =
     (case (if prevalidated = 0 then resume_utf8 pf P else (Ok (), P)) of
        (Ok _, P) \<Rightarrow> push_utf8 pf P (slice_from payload (min prevalidated (length payload)))
      | (r, P) \<Rightarrow> (r, P))"

definition handle_continuation :: "platform \<Rightarrow> protocol \<Rightarrow> frame \<Rightarrow> nat \<Rightarrow> (protocol, message option) op" where
  "handle_continuation pf P f prevalidated =
     (if \<not> validate_text_utf8 P then
        case handle_raw_continuation P f of (r, P) \<Rightarrow> (raw_to_message r, P)
      else case fragment_opcode P of
        None \<Rightarrow> (Err (Protocol_err ''unexpected continuation frame''), P)
      | Some op \<Rightarrow>
          if length (fragment_buf P) + length (f_payload f) > max_message_size P then (Err MessageTooLarge, P)
          else
            case (if op = OpText then validate_continuation pf P (f_payload f) prevalidated else (Ok (), P)) of
              (Err e, P) \<Rightarrow> (Err e, P)
            | (Panic, P) \<Rightarrow> (Panic, P)
            | (Ok _, P) \<Rightarrow>
                let P = P\<lparr>fragment_buf := fragment_buf P @ f_payload f\<rparr> in
                if h_fin (f_header f) then complete_fragment P op
                else if op = OpText then
                  if utf8_pending (utf8 P) > length (fragment_buf P) then (Panic, P)
                  else (Ok None, P\<lparr>fragment_validated_len := length (fragment_buf P) - utf8_pending (utf8 P)\<rparr>)
                else (Ok None, P))"

section \<open>Control frames\<close>

definition close_frame_reason :: "platform \<Rightarrow> bytes \<Rightarrow> close_reason option ws_result" where
  "close_frame_reason pf payload =
     (if length payload \<ge> 2 then
        let c = u16_from_be_bytes (take 2 payload); text = drop 2 payload in
        if \<not> is_valid_code c then Err (InvalidCloseCode c)
        else if length payload > 2 then
          if \<not> validate_utf8 (pf_simdutf8 pf) text then Err InvalidUtf8
          else Ok (Some (close_reason_new c (utf8_lossy [] text)))
        else Ok (Some (close_reason_new c []))
      else if payload = [] then Ok None
      else Err (Protocol_err ''invalid close frame payload''))"

definition handle_close :: "platform \<Rightarrow> protocol \<Rightarrow> frame \<Rightarrow> (protocol, message option) op" where
  "handle_close pf P f =
     (case close_frame_reason pf (f_payload f) of
        Err e \<Rightarrow> (Err e, P)
      | Panic \<Rightarrow> (Panic, P)
      | Ok r \<Rightarrow>
          (Ok (Some (Close r)),
           case state P of
             Open \<Rightarrow> P\<lparr>state := CloseReceived, pending_close := r\<rparr>
           | CloseSent \<Rightarrow> P\<lparr>state := Closed\<rparr>
           | _ \<Rightarrow> P))"

definition handle_ping :: "protocol \<Rightarrow> frame \<Rightarrow> (protocol, message option) op" where
  "handle_ping P f = (Ok (Some (Ping (f_payload f))), P)"

definition handle_pong :: "protocol \<Rightarrow> frame \<Rightarrow> (protocol, message option) op" where
  "handle_pong P f = (Ok (Some (Pong (f_payload f))), P)"

definition handle_frame :: "platform \<Rightarrow> protocol \<Rightarrow> frame \<Rightarrow> nat \<Rightarrow> (protocol, message option) op" where
  "handle_frame pf P f prevalidated =
     (case h_opcode (f_header f) of
        OpContinuation \<Rightarrow> handle_continuation pf P f prevalidated
      | OpText \<Rightarrow> handle_text pf P f prevalidated
      | OpBinary \<Rightarrow> handle_binary pf P f
      | OpClose \<Rightarrow> handle_close pf P f
      | OpPing \<Rightarrow> handle_ping P f
      | OpPong \<Rightarrow> handle_pong P f)"

definition handle_raw_frame :: "platform \<Rightarrow> protocol \<Rightarrow> frame \<Rightarrow> (protocol, raw_message option) op" where
  "handle_raw_frame pf P f =
     (case h_opcode (f_header f) of
        OpContinuation \<Rightarrow> handle_raw_continuation P f
      | OpText \<Rightarrow> handle_raw_text P f
      | OpBinary \<Rightarrow> handle_raw_binary P f
      | OpClose \<Rightarrow> (case handle_close pf P f of
            (Ok (Some (Close r)), P) \<Rightarrow> (Ok (Some (RawClose r)), P)
          | (Ok _, P) \<Rightarrow> (Ok None, P)
          | (Err e, P) \<Rightarrow> (Err e, P)
          | (Panic, P) \<Rightarrow> (Panic, P))
      | OpPing \<Rightarrow> (Ok (Some (RawPing (f_payload f))), P)
      | OpPong \<Rightarrow> (Ok (Some (RawPong (f_payload f))), P))"

section \<open>The receive loops\<close>

text \<open>
  The loop of every reader: the result, the messages accepted, whether a frame gave no message,
  the state and what is left of the buffer. It is a partial function; that it returns is proved.
\<close>

type_synonym ('s, 'm) reader = "unit ws_result \<times> 'm list \<times> bool \<times> 's \<times> bytes"

partial_function (option) frame_loop ::
  "('s, byte, frame) decoder \<Rightarrow> ('s \<Rightarrow> frame \<Rightarrow> ('s, 'm option) op) \<Rightarrow> ('s \<Rightarrow> bytes \<Rightarrow> ('s, unit) op)
     \<Rightarrow> 's \<Rightarrow> bytes \<Rightarrow> ('s, 'm) reader option" where
  "frame_loop next_frame handle wait s buf =
     (if buf = [] then Some (Ok (), [], False, s, buf)
      else case next_frame s buf of
        (Err e, s, buf) \<Rightarrow> Some (Err e, [], False, s, buf)
      | (Panic, s, buf) \<Rightarrow> Some (Panic, [], False, s, buf)
      | (Ok None, s, buf) \<Rightarrow> (case wait s buf of (r, s) \<Rightarrow> Some (r, [], False, s, buf))
      | (Ok (Some f), s, buf) \<Rightarrow>
          (case handle s f of
             (Err e, s) \<Rightarrow> Some (Err e, [], False, s, buf)
           | (Panic, s) \<Rightarrow> Some (Panic, [], False, s, buf)
           | (Ok m, s) \<Rightarrow>
               Option.bind (frame_loop next_frame handle wait s buf) (\<lambda>(r, ms, fragment, s, buf).
                 Some (r, (case m of Some m \<Rightarrow> m # ms | None \<Rightarrow> ms), fragment \<or> m = None, s, buf))))"

text \<open>The parser of a protocol; \<^verbatim>\<open>std::mem::take(&mut self.partial_checked)\<close>.\<close>

definition protocol_parse :: "platform \<Rightarrow> (protocol, byte, frame) decoder" where
  "protocol_parse pf P buf = (case parse pf (parser P) buf of (r, p, buf) \<Rightarrow> (r, P\<lparr>parser := p\<rparr>, buf))"

definition take_and_handle :: "platform \<Rightarrow> protocol \<Rightarrow> frame \<Rightarrow> (protocol, message option) op" where
  "take_and_handle pf P f =
     (let prevalidated = partial_checked P in handle_frame pf (P\<lparr>partial_checked := 0\<rparr>) f prevalidated)"

definition process_into_with_activity :: "platform \<Rightarrow> protocol \<Rightarrow> bytes \<Rightarrow> (protocol, message) reader option" where
  "process_into_with_activity pf = frame_loop (protocol_parse pf) (take_and_handle pf) (prevalidate_partial_text pf)"

definition process_into :: "platform \<Rightarrow> protocol \<Rightarrow> bytes \<Rightarrow> (protocol, message) reader option" where
  "process_into pf P buf = process_into_with_activity pf P buf"

definition process :: "platform \<Rightarrow> protocol \<Rightarrow> bytes \<Rightarrow> (message list ws_result \<times> protocol \<times> bytes) option" where
  "process pf P buf =
     map_option (\<lambda>(r, ms, _, P, buf). (map_result (\<lambda>_. ms) r, P, buf)) (process_into pf P buf)"

definition process_raw_into :: "platform \<Rightarrow> protocol \<Rightarrow> bytes \<Rightarrow> (protocol, raw_message) reader option" where
  "process_raw_into pf =
     frame_loop (protocol_parse pf) (\<lambda>P f. handle_raw_frame pf (P\<lparr>partial_checked := 0\<rparr>) f) (\<lambda>P _. (Ok (), P))"

definition process_raw :: "platform \<Rightarrow> protocol \<Rightarrow> bytes \<Rightarrow> (raw_message list ws_result \<times> protocol \<times> bytes) option" where
  "process_raw pf P buf =
     map_option (\<lambda>(r, ms, _, P, buf). (map_result (\<lambda>_. ms) r, P, buf)) (process_raw_into pf P buf)"

text \<open>The reader that stops at the first message; the flag tells whether a frame gave none.\<close>

partial_function (option) process_next_with_activity ::
  "platform \<Rightarrow> protocol \<Rightarrow> bytes \<Rightarrow> (message option ws_result \<times> bool \<times> protocol \<times> bytes) option" where
  "process_next_with_activity pf P buf =
     (if buf = [] then Some (Ok None, False, P, buf)
      else case try_parse_complete_unmasked_data (parser P) buf of
        (Some (op, payload), buf) \<Rightarrow>
          (case handle_complete_data pf (P\<lparr>partial_checked := 0\<rparr>) op payload (partial_checked P) of
             (r, P) \<Rightarrow> Some (map_result Some r, False, P, buf))
      | (None, buf) \<Rightarrow>
          (case parse_after_complete_data_miss pf (parser P) buf of
             (Err e, p, buf) \<Rightarrow> Some (Err e, False, P\<lparr>parser := p\<rparr>, buf)
           | (Panic, p, buf) \<Rightarrow> Some (Panic, False, P\<lparr>parser := p\<rparr>, buf)
           | (Ok None, p, buf) \<Rightarrow>
               (case prevalidate_partial_text pf (P\<lparr>parser := p\<rparr>) buf of
                  (r, P) \<Rightarrow> Some (map_result (\<lambda>_. None) r, False, P, buf))
           | (Ok (Some f), p, buf) \<Rightarrow>
               (case take_and_handle pf (P\<lparr>parser := p\<rparr>) f of
                  (Err e, P) \<Rightarrow> Some (Err e, False, P, buf)
                | (Panic, P) \<Rightarrow> Some (Panic, False, P, buf)
                | (Ok (Some m), P) \<Rightarrow> Some (Ok (Some m), False, P, buf)
                | (Ok None, P) \<Rightarrow>
                    Option.bind (process_next_with_activity pf P buf) (\<lambda>(r, _, P, buf). Some (r, True, P, buf)))))"

section \<open>Sending\<close>

definition mask_for :: "protocol \<Rightarrow> mask4 \<Rightarrow> mask4 option" where
  "mask_for P key = (if role P = Client then Some key else None)"

definition close_payload :: "close_reason option \<Rightarrow> bytes" where
  "close_payload r = (case r of Some r \<Rightarrow> u16_to_be_bytes (code r) @ reason r | None \<Rightarrow> [])"

definition encode_message_into :: "platform \<Rightarrow> mask4 \<Rightarrow> protocol \<Rightarrow> message \<Rightarrow> bytes \<Rightarrow> protocol \<times> bytes" where
  "encode_message_into pf key P msg buf =
     (let mk = mask_for P key in
      case msg of
        Text b \<Rightarrow> (P, encode_frame pf buf OpText b True mk)
      | Binary b \<Rightarrow> (P, encode_frame pf buf OpBinary b True mk)
      | Ping b \<Rightarrow> (P, encode_frame pf buf OpPing b True mk)
      | Pong b \<Rightarrow> (P, encode_frame pf buf OpPong b True mk)
      | Close r \<Rightarrow>
          (if state P = Open then P\<lparr>state := CloseSent\<rparr> else P,
           encode_frame pf buf OpClose (close_payload r) True mk))"

definition encode_message :: "platform \<Rightarrow> mask4 \<Rightarrow> protocol \<Rightarrow> message \<Rightarrow> bytes \<Rightarrow> unit ws_result \<times> protocol \<times> bytes" where
  "encode_message pf key P msg buf = (case encode_message_into pf key P msg buf of (P, buf) \<Rightarrow> (Ok (), P, buf))"

definition encode_pong :: "platform \<Rightarrow> mask4 \<Rightarrow> protocol \<Rightarrow> bytes \<Rightarrow> bytes \<Rightarrow> bytes" where
  "encode_pong pf key P ping_data buf = encode_frame pf buf OpPong ping_data True (mask_for P key)"

definition encode_close_response :: "platform \<Rightarrow> mask4 \<Rightarrow> protocol \<Rightarrow> bytes \<Rightarrow> protocol \<times> bytes" where
  "encode_close_response pf key P buf =
     (if state P = CloseReceived then P\<lparr>state := Closed\<rparr> else P,
      encode_frame pf buf OpClose (close_payload (pending_close P)) True (mask_for P key))"

definition encode_split_close_response ::
  "platform \<Rightarrow> mask4 \<Rightarrow> protocol \<Rightarrow> close_reason option \<Rightarrow> bytes \<Rightarrow> protocol \<times> bytes" where
  "encode_split_close_response pf key P r buf = encode_close_response pf key (P\<lparr>pending_close := r\<rparr>) buf"

end
