(* ===== verification/WS_Receive.thy ===== *)
theory WS_Receive
  imports WS_Protocol
begin

text \<open>
  Readers in general. The three protocol types of \<^verbatim>\<open>src/protocol.rs\<close> run the same loop over
  the frames of their input (\<open>frame_loop\<close>). The locale \<open>frame_receiver\<close> is what such a reader
  promises against a reference that looks at whole frames; its lemmas say that the loop
  always returns and that the messages depend on the bytes received, not on the pieces they
  came in.
\<close>

section \<open>What a stream of frames means\<close>

text \<open>
  A reference reader is a function on frames: an error, or a message or none with a new state.
  \<open>assemble\<close> runs it over frames, \<open>received\<close> over the frames of a byte string; what is left over is
  given to a check of its own, for a reader that looks into an incomplete frame. The result has
  the messages, the failure, the state and the bytes left over.
\<close>

type_synonym ('r, 'm) assembler = "'r \<Rightarrow> frame \<Rightarrow> error + ('m option \<times> 'r)"

definition push_message :: "'m option \<Rightarrow> 'm list \<Rightarrow> 'm list" where
  "push_message m ms = (case m of Some m \<Rightarrow> m # ms | None \<Rightarrow> ms)"

fun assemble :: "('r, 'm) assembler \<Rightarrow> 'r \<Rightarrow> frame list \<Rightarrow> 'm list \<times> error option \<times> 'r" where
  "assemble ref r [] = ([], None, r)"
| "assemble ref r (f # fs) =
     (case ref r f of
        Inl e \<Rightarrow> ([], Some e, r)
      | Inr (m, r') \<Rightarrow> (case assemble ref r' fs of (ms, e, r'') \<Rightarrow> (push_message m ms, e, r'')))"

definition received ::
  "('r, 'm) assembler \<Rightarrow> ('r \<Rightarrow> bytes \<Rightarrow> error option) \<Rightarrow> (bytes \<Rightarrow> frame scan) \<Rightarrow> 'r \<Rightarrow> bytes
     \<Rightarrow> 'm list \<times> error option \<times> 'r \<times> bytes" where
  "received ref ref_wait spec r raw =
     (let (fs, e, rest) = items_of spec raw; (ms, e', r') = assemble ref r fs
      in (ms, (case e' of Some e \<Rightarrow> Some e | None \<Rightarrow> (case e of Some e \<Rightarrow> Some e | None \<Rightarrow> ref_wait r' rest)), r', rest))"

section \<open>Input in pieces\<close>

fun receive :: "('s \<Rightarrow> bytes \<Rightarrow> ('s, 'm) reader option) \<Rightarrow> 's \<Rightarrow> bytes \<Rightarrow> bytes list
    \<Rightarrow> ('m list \<times> unit ws_result \<times> 's \<times> bytes) option" where
  "receive read s buf [] = Some ([], Ok (), s, buf)"
| "receive read s buf (c # cs) =
     Option.bind (read s (buf @ c)) (\<lambda>(r, ms, _, s, buf).
       case r of
         Ok _ \<Rightarrow> Option.bind (receive read s buf cs) (\<lambda>(ms', r, s, buf). Some (ms @ ms', r, s, buf))
       | _ \<Rightarrow> Some (ms, r, s, buf))"

section \<open>The contract of a reader\<close>

locale frame_receiver = scanner spec for spec :: "bytes \<Rightarrow> frame scan" +
  fixes next_frame :: "('s, byte, frame) decoder"
    and handle :: "'s \<Rightarrow> frame \<Rightarrow> ('s, 'm option) op"
    and wait :: "'s \<Rightarrow> bytes \<Rightarrow> ('s, unit) op"
    and ref :: "('r, 'm) assembler"
    and ref_wait :: "'r \<Rightarrow> bytes \<Rightarrow> error option"
    and rel :: "'s \<Rightarrow> bytes \<Rightarrow> bytes \<Rightarrow> 'r \<Rightarrow> bool"
  assumes rel_append: "rel s buf raw r \<Longrightarrow> rel s (buf @ x) (raw @ x) r"
    and step_More: "rel s buf raw r \<Longrightarrow> spec raw = More \<Longrightarrow>
      \<exists>s' buf' s''. next_frame s buf = (Ok None, s', buf') \<and>
        (case ref_wait r raw of None \<Rightarrow> wait s' buf' = (Ok (), s'') \<and> rel s'' buf' raw r
         | Some e \<Rightarrow> wait s' buf' = (Err e, s''))"
    and step_Bad: "rel s buf raw r \<Longrightarrow> spec raw = Bad e \<Longrightarrow> \<exists>s' buf'. next_frame s buf = (Err e, s', buf')"
    and step_Got: "rel s buf raw r \<Longrightarrow> spec raw = Got f n \<Longrightarrow>
      \<exists>s' buf' s''. next_frame s buf = (Ok (Some f), s', buf') \<and> (buf' = [] \<longrightarrow> drop n raw = []) \<and>
        (case ref r f of Inl e \<Rightarrow> handle s' f = (Err e, s'')
         | Inr (m, r') \<Rightarrow> handle s' f = (Ok m, s'') \<and> rel s'' buf' (drop n raw) r')"
    and nothing_left: "spec [] = More" "ref_wait r [] = None"
    and ref_wait_doomed: "ref_wait r raw = Some e \<Longrightarrow> spec raw = More \<Longrightarrow>
      (case spec (raw @ x) of More \<Rightarrow> ref_wait r (raw @ x) = Some e | Bad _ \<Rightarrow> False
       | Got f n \<Rightarrow> ref r f \<in> {Inl e, Inl MessageTooLarge})"
begin

abbreviation "run \<equiv> frame_loop next_frame handle wait"
abbreviation "meaning \<equiv> received ref ref_wait spec"

lemma meaning_More: "spec raw = More \<Longrightarrow> meaning r raw = ([], ref_wait r raw, r, raw)"
  by (simp add: received_def items_More)

lemma meaning_Bad: "spec raw = Bad e \<Longrightarrow> meaning r raw = ([], Some e, r, raw)"
  by (simp add: received_def items_Bad)

lemma meaning_Inl: "spec raw = Got f n \<Longrightarrow> ref r f = Inl e \<Longrightarrow> \<exists>rest. meaning r raw = ([], Some e, r, rest)"
  by (auto simp: received_def items_Got Let_def split: prod.splits)

lemma meaning_Inr:
  "spec raw = Got f n \<Longrightarrow> ref r f = Inr (m, r') \<Longrightarrow>
     meaning r raw = (case meaning r' (drop n raw) of (ms, e) \<Rightarrow> (push_message m ms, e))"
  by (auto simp: received_def items_Got Let_def split: prod.splits)

text \<open>
  One call of the reader, started on \<open>raw\<close>: it returns the messages and the failure of the
  reference, and without a failure it is ready for what follows.
\<close>

definition ready :: "'s \<Rightarrow> bytes \<Rightarrow> bytes \<Rightarrow> 'r \<Rightarrow> bool" where
  "ready s buf raw r \<longleftrightarrow> rel s buf raw r \<and> spec raw = More \<and> ref_wait r raw = None"

definition returns :: "('s, 'm) reader option \<Rightarrow> 'm list \<times> error option \<times> 'r \<times> bytes \<Rightarrow> bool" where
  "returns out = (\<lambda>(ms, e, r, rest). \<exists>res fragment s' buf'. out = Some (res, ms, fragment, s', buf') \<and>
     (case e of Some e \<Rightarrow> res = Err e | None \<Rightarrow> res = Ok () \<and> ready s' buf' rest r))"

lemma run_More:
  assumes "rel s buf raw r" "spec raw = More" "buf = [] \<longrightarrow> ref_wait r raw = None"
  shows "returns (run s buf) ([], ref_wait r raw, r, raw)"
proof (cases "buf = []")
  case True
  then have "run s buf = Some (Ok (), [], False, s, buf)" by (subst frame_loop.simps) simp
  then show ?thesis using assms True by (auto simp: returns_def ready_def)
next
  case False
  obtain s1 buf1 s2 where s: "next_frame s buf = (Ok None, s1, buf1)"
    and w: "case ref_wait r raw of None \<Rightarrow> wait s1 buf1 = (Ok (), s2) \<and> rel s2 buf1 raw r
       | Some e \<Rightarrow> wait s1 buf1 = (Err e, s2)"
    using step_More [OF assms(1,2)] by blast
  have run: "run s buf = (case wait s1 buf1 of (r, s) \<Rightarrow> Some (r, [], False, s, buf1))"
    using False s by (simp add: frame_loop.simps [of _ _ _ s buf])
  show ?thesis
    using run w assms(2) by (cases "ref_wait r raw") (auto simp: returns_def ready_def)
qed

lemma run_meaning:
  "rel s buf raw r \<Longrightarrow> (buf = [] \<longrightarrow> spec raw = More \<and> ref_wait r raw = None) \<Longrightarrow> returns (run s buf) (meaning r raw)"
proof (induction raw arbitrary: s buf r rule: scan_induct)
  case (More raw)
  then show ?case using run_More [OF More(2,1)] by (simp add: meaning_More)
next
  case (Bad raw b)
  then show ?case
    using step_Bad [OF Bad(2,1)] by (auto simp: returns_def frame_loop.simps [of _ _ _ s buf] meaning_Bad)
next
  case (Got raw f n)
  then have buf: "buf \<noteq> []" by auto
  obtain s1 buf1 s2 where s: "next_frame s buf = (Ok (Some f), s1, buf1)" "buf1 = [] \<longrightarrow> drop n raw = []"
    and h: "case ref r f of Inl e \<Rightarrow> handle s1 f = (Err e, s2)
      | Inr (m, r') \<Rightarrow> handle s1 f = (Ok m, s2) \<and> rel s2 buf1 (drop n raw) r'"
    using step_Got [OF Got(4,1)] by blast
  show ?case
  proof (cases "ref r f")
    case (Inl b)
    then show ?thesis
      using meaning_Inl [OF Got(1) Inl] h s(1) buf by (auto simp: returns_def frame_loop.simps [of _ _ _ s buf])
  next
    case (Inr mr)
    obtain m r' where mr: "mr = (m, r')" by (cases mr)
    have hd: "handle s1 f = (Ok m, s2)" "rel s2 buf1 (drop n raw) r'" using h Inr mr by simp_all
    have "buf1 = [] \<longrightarrow> spec (drop n raw) = More \<and> ref_wait r' (drop n raw) = None"
      using s(2) nothing_left by simp
    from Got(3) [OF hd(2) this] show ?thesis
      using buf s(1) hd(1) meaning_Inr [OF Got(1) Inr [unfolded mr]]
      by (auto simp: returns_def frame_loop.simps [of _ _ _ s buf] push_message_def split: prod.splits)
  qed
qed

text \<open>The reference on more input, after success and after failure.\<close>

lemma meaning_append:
  "meaning r raw = (ms, e, r', rest) \<Longrightarrow>
     (case e of
        None \<Rightarrow> meaning r (raw @ x) = (case meaning r' (rest @ x) of (ms', t) \<Rightarrow> (ms @ ms', t))
      | Some e \<Rightarrow> \<exists>e' t. meaning r (raw @ x) = (ms, Some e', t) \<and> e' \<in> {e, MessageTooLarge})"
proof (induction raw arbitrary: r ms rule: scan_induct)
  case (More raw)
  show ?case
  proof (cases "ref_wait r raw")
    case None
    then show ?thesis using More by (auto simp: meaning_More split: prod.split)
  next
    case (Some b)
    then have m: "ms = []" "e = Some b" using More by (auto simp: meaning_More)
    have "\<exists>e' t. meaning r (raw @ x) = ([], Some e', t) \<and> e' \<in> {b, MessageTooLarge}"
      using ref_wait_doomed [OF Some More(1), of x] meaning_Inl [of "raw @ x"]
      by (cases "spec (raw @ x)") (auto simp: meaning_More, metis+)
    then show ?thesis using m by simp
  qed
next
  case (Bad raw b)
  then have "spec (raw @ x) = Bad b" using spec_append [of raw x] by simp
  then show ?case using Bad by (auto simp: meaning_Bad)
next
  case (Got raw f n)
  have gx: "spec (raw @ x) = Got f n" "drop n (raw @ x) = drop n raw @ x"
    using spec_append [of raw x] Got(1,2) by simp_all
  show ?case
  proof (cases "ref r f")
    case (Inl b)
    then show ?thesis using Got(4) meaning_Inl [OF Got(1) Inl] meaning_Inl [OF gx(1) Inl] by fastforce
  next
    case (Inr mr)
    obtain m q where mr: "ref r f = Inr (m, q)" using Inr by (cases mr) simp
    obtain ms1 where ms1: "meaning q (drop n raw) = (ms1, e, r', rest)" "ms = push_message m ms1"
      using Got(4) by (cases "meaning q (drop n raw)") (simp add: meaning_Inr [OF Got(1) mr])
    from Got(3) [OF ms1(1)] show ?thesis
      unfolding ms1(2) meaning_Inr [OF gx(1) mr] gx(2)
      by (cases e) (auto simp: push_message_def split: option.splits prod.splits)
  qed
qed

text \<open>
  Any number of calls. The messages are those of the whole input; a failure is its failure, except
  that the check of an incomplete frame may come before the size of the frame is held against the
  limit on messages.
\<close>

lemma receive_meaning:
  "ready s buf raw r \<Longrightarrow> meaning r (raw @ concat cs) = (ms, e, r', rest) \<Longrightarrow>
     \<exists>res s' buf'. receive run s buf cs = Some (ms, res, s', buf') \<and>
       (case e of None \<Rightarrow> res = Ok () \<and> ready s' buf' rest r'
        | Some e \<Rightarrow> \<exists>e'. res = Err e' \<and> e \<in> {e', MessageTooLarge})"
proof (induction cs arbitrary: s buf raw r ms)
  case Nil
  from Nil(1) have "spec raw = More" "ref_wait r raw = None" by (simp_all add: ready_def)
  then show ?case using Nil by (auto simp: meaning_More)
next
  case (Cons c cs)
  obtain ms1 e1 r1 rest1 where m1: "meaning r (raw @ c) = (ms1, e1, r1, rest1)" by (cases "meaning r (raw @ c)") auto
  have "rel s (buf @ c) (raw @ c) r" "buf @ c = [] \<longrightarrow> spec (raw @ c) = More \<and> ref_wait r (raw @ c) = None"
    using Cons.prems(1) rel_append by (auto simp: ready_def)
  from run_meaning [OF this] m1 obtain res fragment s1 buf1 where
    run: "run s (buf @ c) = Some (res, ms1, fragment, s1, buf1)" and
    post: "case e1 of Some e \<Rightarrow> res = Err e | None \<Rightarrow> res = Ok () \<and> ready s1 buf1 rest1 r1"
    by (auto simp: returns_def)
  have whole: "meaning r ((raw @ c) @ concat cs) = (ms, e, r', rest)" using Cons.prems(2) by simp
  show ?case
  proof (cases e1)
    case (Some e')
    with meaning_append [OF m1, of "concat cs"] whole post run show ?thesis by auto
  next
    case None
    obtain ms2 where ms2: "meaning r1 (rest1 @ concat cs) = (ms2, e, r', rest)" "ms = ms1 @ ms2"
      using meaning_append [OF m1, of "concat cs"] whole None by (cases "meaning r1 (rest1 @ concat cs)") auto
    have p: "res = Ok ()" "ready s1 buf1 rest1 r1" using post None by simp_all
    from Cons.IH [OF p(2) ms2(1)] show ?thesis using run p(1) ms2(2) by fastforce
  qed
qed

end

end
