(* ===== verification/WS_Protocol_Refine.thy ===== *)
theory WS_Protocol_Refine
  imports WS_Receive
begin

text \<open>
  The protocol of \<open>WS_Protocol\<close> against a reference that looks at whole frames.
  \<open>assemble_frame\<close> says what message a frame completes, with the data gathered so far, the UTF-8
  of a whole text and the limit on its size in one place; \<open>incomplete_text\<close> says when the part
  of a frame that has arrived cannot become text any more. The handlers follow the reference
  (\<open>handle_frame_follows\<close>), whatever part of the payload was checked before the frame was
  complete and whatever the validator remembers (\<open>prevalidate_follows\<close>), so the protocol is a
  \<open>frame_receiver\<close> for it.
\<close>

section \<open>The reference\<close>

text \<open>
  What the messages of a sequence of frames are: the data gathered so far with its opcode, the
  state of the closing handshake and the reason received.
\<close>

record assembly =
  a_frag :: "(opcode \<times> bytes) option"
  a_state :: conn_state
  a_close :: "close_reason option"

definition text_prefix :: "bytes \<Rightarrow> bool" where
  "text_prefix bs \<longleftrightarrow> utf8_run [] bs \<noteq> None"

definition gather :: "bool \<Rightarrow> nat \<Rightarrow> assembly \<Rightarrow> opcode \<Rightarrow> bytes \<Rightarrow> bool \<Rightarrow> error + (message option \<times> assembly)" where
  "gather v m a op d fin =
     (if length d > m then Inl MessageTooLarge
      else if v \<and> op = OpText \<and> \<not> (if fin then utf8_valid d else text_prefix d) then Inl InvalidUtf8
      else if fin then Inr (Some (if op = OpText then Text d else Binary d), a\<lparr>a_frag := None\<rparr>)
      else Inr (None, a\<lparr>a_frag := Some (op, d)\<rparr>))"

definition close_spec :: "bytes \<Rightarrow> error + close_reason option" where
  "close_spec payload =
     (if payload = [] then Inr None
      else if length payload = 1 then Inl (Protocol_err ''invalid close frame payload'')
      else let c = u16_from_be_bytes (take 2 payload) in
        if \<not> is_valid_code c then Inl (InvalidCloseCode c)
        else if \<not> utf8_valid (drop 2 payload) then Inl InvalidUtf8
        else Inr (Some \<lparr>code = c, reason = drop 2 payload\<rparr>))"

definition close_seen :: "assembly \<Rightarrow> close_reason option \<Rightarrow> assembly" where
  "close_seen a r =
     (case a_state a of
        Open \<Rightarrow> a\<lparr>a_state := CloseReceived, a_close := r\<rparr>
      | CloseSent \<Rightarrow> a\<lparr>a_state := Closed\<rparr>
      | _ \<Rightarrow> a)"

definition assemble_frame :: "bool \<Rightarrow> nat \<Rightarrow> (assembly, message) assembler" where
  "assemble_frame v m a f =
     (let payload = f_payload f; fin = h_fin (f_header f) in
      case h_opcode (f_header f) of
        OpContinuation \<Rightarrow> (case a_frag a of
            None \<Rightarrow> Inl (Protocol_err ''unexpected continuation frame'')
          | Some (op, d) \<Rightarrow> gather v m a op (d @ payload) fin)
      | OpClose \<Rightarrow> (case close_spec payload of Inl e \<Rightarrow> Inl e | Inr r \<Rightarrow> Inr (Some (Close r), close_seen a r))
      | OpPing \<Rightarrow> Inr (Some (Ping payload), a)
      | OpPong \<Rightarrow> Inr (Some (Pong payload), a)
      | op \<Rightarrow> if a_frag a \<noteq> None then Inl (Protocol_err ''expected continuation frame'') else gather v m a op payload fin)"

text \<open>The text that the payload of a frame continues, if it is text.\<close>

definition text_base :: "assembly \<Rightarrow> frame_header \<Rightarrow> bytes option" where
  "text_base a h =
     (case (h_opcode h, a_frag a) of
        (OpText, None) \<Rightarrow> Some []
      | (OpContinuation, Some (OpText, d)) \<Rightarrow> Some d
      | _ \<Rightarrow> None)"

text \<open>What has arrived of an incomplete text frame must be the beginning of a text.\<close>

definition incomplete_text :: "bool \<Rightarrow> frame_parser \<Rightarrow> assembly \<Rightarrow> bytes \<Rightarrow> error option" where
  "incomplete_text v p a rest =
     (case header_spec p rest of
        Got h n \<Rightarrow>
          (let part = unmask_ref (h_mask h) 0 (drop n rest) in
           case text_base a h of
             Some d \<Rightarrow> if v \<and> \<not> h_rsv1 h \<and> part \<noteq> [] \<and> \<not> text_prefix (d @ part) then Some InvalidUtf8 else None
           | None \<Rightarrow> None)
      | _ \<Rightarrow> None)"

section \<open>The validator of a protocol\<close>

definition text_at :: "protocol \<Rightarrow> bytes \<Rightarrow> bool" where
  "text_at P bs \<longleftrightarrow> utf8_clean (utf8 P) \<and> utf8_run [] bs = Some (pending_bytes (utf8 P))"

lemma platform_utf8: "platform_ok pf \<Longrightarrow> pf_simdutf8 pf = utf8_valid"
  by (auto simp: platform_ok_def)

lemma text_at_prefix: "text_at P bs \<Longrightarrow> text_prefix bs"
  by (simp add: text_at_def text_prefix_def)

lemma text_at_finish: "text_at P bs \<Longrightarrow> utf8_finish (utf8 P) \<longleftrightarrow> utf8_valid bs"
  by (auto simp: text_at_def utf8_finish_pending utf8_valid_run)

lemma text_prefix_append: "text_prefix (xs @ ys) \<Longrightarrow> text_prefix xs"
  by (auto simp: text_prefix_def utf8_run_append split: option.splits)

lemma utf8_valid_prefix: "utf8_valid bs \<Longrightarrow> text_prefix bs"
  by (simp add: utf8_valid_run text_prefix_def)

lemma text_at_pending:
  assumes "text_at P bs"
  shows "utf8_pending (utf8 P) \<le> length bs" "utf8_valid (take (length bs - utf8_pending (utf8 P)) bs)"
proof -
  have l: "length (pending_bytes (utf8 P)) = utf8_pending (utf8 P)"
    using assms by (auto simp: text_at_def utf8_clean_def pending_bytes_def utf8_pending_def)
  obtain cs where "bs = cs @ pending_bytes (utf8 P)" "utf8_valid cs"
    using assms utf8_run_split by (fastforce simp: text_at_def)
  then show "utf8_pending (utf8 P) \<le> length bs" "utf8_valid (take (length bs - utf8_pending (utf8 P)) bs)"
    using l by simp_all
qed

lemma push_utf8_text:
  assumes "platform_ok pf" "text_at P bs"
  shows "\<exists>u. push_utf8 pf P (Ok c) = (if text_prefix (bs @ c) then Ok () else Err InvalidUtf8, P\<lparr>utf8 := u\<rparr>)
    \<and> (text_prefix (bs @ c) \<longrightarrow> text_at (P\<lparr>utf8 := u\<rparr>) (bs @ c))"
proof -
  obtain ok u where p: "utf8_push utf8_valid (utf8 P) c = (ok, u)" by force
  have "utf8_run [] (bs @ c) = utf8_run (pending_bytes (utf8 P)) c"
    using assms(2) by (simp add: text_at_def utf8_run_append)
  then have "utf8_run [] (bs @ c) = (if ok then Some (pending_bytes u) else None)" "ok \<longrightarrow> utf8_clean u"
    using std_utf8.push_run [OF _ p] std_utf8.push_clean [of "utf8 P" c u] p assms(2) by (auto simp: text_at_def)
  then show ?thesis
    using p platform_utf8 [OF assms(1)] by (auto simp: push_utf8_def text_prefix_def text_at_def)
qed

text \<open>The stored part of a message up to \<^verbatim>\<open>fragment_validated_len\<close> is text.\<close>

definition fragment_ok :: "protocol \<Rightarrow> bool" where
  "fragment_ok P \<longleftrightarrow> fragment_validated_len P \<le> length (fragment_buf P)
     \<and> utf8_valid (take (fragment_validated_len P) (fragment_buf P))"

lemma resume_utf8_text:
  assumes "platform_ok pf" "utf8_clean (utf8 P)" "fragment_ok P"
  shows "\<exists>u. resume_utf8 pf P = (if text_prefix (fragment_buf P) then Ok () else Err InvalidUtf8, P\<lparr>utf8 := u\<rparr>)
    \<and> (text_prefix (fragment_buf P) \<longrightarrow> text_at (P\<lparr>utf8 := u\<rparr>) (fragment_buf P))"
proof -
  let ?n = "fragment_validated_len P" and ?b = "fragment_buf P"
  obtain ok u where p: "utf8_resume utf8_valid (utf8 P) (drop ?n ?b) = (ok, u)" by force
  have "utf8_run [] ?b = utf8_run [] (drop ?n ?b)"
    using assms(3) utf8_run_append [of "[]" "take ?n ?b" "drop ?n ?b"] by (simp add: fragment_ok_def utf8_valid_run)
  then have "utf8_run [] ?b = (if ok then Some (pending_bytes u) else None)" "ok \<longrightarrow> utf8_clean u"
    using std_utf8.resume_run [OF assms(2) p] by simp_all
  then show ?thesis
    using p assms(3) platform_utf8 [OF assms(1)]
    by (auto simp: resume_utf8_def slice_from_def byte_slice_def fragment_ok_def text_prefix_def text_at_def)
qed

lemma slice_from_ok: "k \<le> length xs \<Longrightarrow> slice_from xs k = Ok (drop k xs)"
  by (simp add: slice_from_def byte_slice_def)

lemma text_at_cong: "utf8 Q = utf8 P \<Longrightarrow> text_at Q bs = text_at P bs"
  by (simp add: text_at_def)

section \<open>The handlers follow the reference\<close>

definition prot_rel :: "bool \<Rightarrow> nat \<Rightarrow> protocol \<Rightarrow> assembly \<Rightarrow> bool" where
  "prot_rel v m P a \<longleftrightarrow> validate_text_utf8 P = v \<and> max_message_size P = m \<and> state P = a_state a
     \<and> pending_close P = a_close a \<and> a_frag a = map_option (\<lambda>op. (op, fragment_buf P)) (fragment_opcode P)
     \<and> fragment_opcode P \<in> {None, Some OpText, Some OpBinary} \<and> utf8_clean (utf8 P)
     \<and> (fragment_opcode P = Some OpText \<longrightarrow> fragment_ok P)"

text \<open>A handler gives the error of the reference, or its message with a state in the relation.\<close>

definition follows :: "bool \<Rightarrow> nat \<Rightarrow> protocol \<Rightarrow> error + (message option \<times> assembly) \<Rightarrow> (protocol, message option) op \<Rightarrow> bool" where
  "follows v m P ref res \<longleftrightarrow>
     (case ref of
        Inl e \<Rightarrow> fst res = Err e
      | Inr (mo, a') \<Rightarrow> fst res = Ok mo \<and> prot_rel v m (snd res) a' \<and> parser (snd res) = parser P
          \<and> partial_checked (snd res) = partial_checked P)"

lemma utf8_lossy_run: "utf8_run p bs = Some [] \<Longrightarrow> utf8_lossy p bs = p @ bs"
proof (induction p bs rule: utf8_lossy.induct)
  case (2 p b bs)
  then obtain q where q: "utf8_step p b = Some q" "utf8_run q bs = Some []" by (auto split: option.splits)
  then show ?case using 2 utf8_step_pending [OF q(1)] by auto
qed auto

lemma utf8_lossy_valid: "utf8_valid bs \<Longrightarrow> utf8_lossy [] bs = bs"
  by (simp add: utf8_valid_run utf8_lossy_run)

lemma close_frame_reason_spec:
  assumes "platform_ok pf"
  shows "close_frame_reason pf payload = (case close_spec payload of Inl e \<Rightarrow> Err e | Inr r \<Rightarrow> Ok r)"
proof -
  consider "payload = []" | b where "payload = [b]" | b c where "payload = [b, c]" | b c d r where "payload = b # c # d # r"
    by (cases payload rule: list.exhaust; metis list.exhaust)
  then show ?thesis
    by cases (simp_all add: close_frame_reason_def close_spec_def Let_def validate_utf8_def platform_utf8 [OF assms]
        close_reason_new_def utf8_lossy_valid del: utf8_valid.simps(2) utf8_lossy.simps)
qed

lemma handle_close_follows:
  assumes "platform_ok pf" "prot_rel v m P a"
  shows "follows v m P (case close_spec (f_payload f) of Inl e \<Rightarrow> Inl e | Inr r \<Rightarrow> Inr (Some (Close r), close_seen a r))
    (handle_close pf P f)"
  using assms(2)
  by (cases "close_spec (f_payload f)"; cases "a_state a")
    (auto simp: follows_def handle_close_def close_frame_reason_spec [OF assms(1)] close_seen_def prot_rel_def fragment_ok_def)

text \<open>\<open>k\<close> bytes of the payload were checked while the frame was incomplete.\<close>

definition checked :: "bool \<Rightarrow> assembly \<Rightarrow> frame_header \<Rightarrow> bytes \<Rightarrow> protocol \<Rightarrow> nat \<Rightarrow> bool" where
  "checked v a h payload P k \<longleftrightarrow> k = 0 \<or>
     (v \<and> k \<le> length payload \<and> (\<exists>d. text_base a h = Some d \<and> text_at P (d @ take k payload)))"

lemma complete_text_follows:
  assumes pf: "platform_ok pf" and rel: "prot_rel v m P a" and op: "h_opcode h = op" "op \<in> {OpText, OpBinary}"
    and none: "a_frag a = None" and c: "checked v a h payload P (if op = OpText then k else 0)"
  shows "follows v m P (gather v m a op payload True)
    (case handle_complete_data pf P op payload k of (r, P) \<Rightarrow> (map_result Some r, P))"
proof -
  have f: "fragment_opcode P = None" "max_message_size P = m" "validate_text_utf8 P = v" "utf8_clean (utf8 P)"
    using rel none by (auto simp: prot_rel_def)
  consider (big) "length payload > m" | (bin) "length payload \<le> m" "op = OpBinary \<or> \<not> v"
    | (whole) "length payload \<le> m" "op = OpText" "v" "k = 0" | (rest) "length payload \<le> m" "op = OpText" "v" "k \<noteq> 0"
    using op(2) by fastforce
  then show ?thesis
  proof cases
    case rest
    then have t: "k \<le> length payload" "text_at P (take k payload)"
      using c none op(1) by (auto simp: checked_def text_base_def)
    obtain u where u: "push_utf8 pf P (Ok (drop k payload)) =
        (if text_prefix payload then Ok () else Err InvalidUtf8, P\<lparr>utf8 := u\<rparr>)"
      "text_prefix payload \<longrightarrow> text_at (P\<lparr>utf8 := u\<rparr>) payload"
      using push_utf8_text [OF pf t(2), of "drop k payload"] by auto
    show ?thesis
      using rest f t(1) u rel none text_at_finish [of "P\<lparr>utf8 := u\<rparr>" payload] utf8_valid_prefix [of payload]
      by (auto simp: follows_def gather_def handle_complete_data_def ensure_message_size_def slice_from_ok
          prot_rel_def text_at_def)
  qed (use f rel none op(2) in \<open>auto simp: follows_def gather_def handle_complete_data_def ensure_message_size_def
      validate_utf8_def platform_utf8 [OF pf] prot_rel_def\<close>)
qed

lemma start_fragment_follows:
  assumes pf: "platform_ok pf" and rel: "prot_rel v m P a" and op: "h_opcode h = op" "op \<in> {OpText, OpBinary}"
    and none: "a_frag a = None" and c: "checked v a h payload P (if op = OpText then k else 0)" and v: "v \<or> op = OpBinary"
  shows "follows v m P (gather v m a op payload False)
    (case start_fragment pf P op payload k of (r, P) \<Rightarrow> (map_result (\<lambda>_. None) r, P))"
proof -
  have f: "fragment_opcode P = None" "max_message_size P = m" "validate_text_utf8 P = v" "utf8_clean (utf8 P)"
    using rel none by (auto simp: prot_rel_def)
  show ?thesis
  proof (cases "length payload > m \<or> op = OpBinary")
    case True
    then show ?thesis using f rel none op(2)
      by (auto simp: follows_def gather_def start_fragment_def prot_rel_def)
  next
    case False
    then have tx: "op = OpText" "v" "length payload \<le> m" using op(2) v by auto
    define Q where "Q = (if k = 0 then P\<lparr>utf8 := utf8_reset (utf8 P)\<rparr> else P)"
    have k: "k \<le> length payload" "text_at Q (take k payload)"
      using c none op(1) tx utf8_clean_reset [OF f(4)] by (auto simp: checked_def text_base_def Q_def text_at_def)
    obtain u where u: "push_utf8 pf Q (Ok (drop k payload)) =
        (if text_prefix payload then Ok () else Err InvalidUtf8, Q\<lparr>utf8 := u\<rparr>)"
      "text_prefix payload \<longrightarrow> text_at (Q\<lparr>utf8 := u\<rparr>) payload"
      using push_utf8_text [OF pf k(2), of "drop k payload"] by auto
    have start: "start_fragment pf P op payload k = (case push_utf8 pf Q (Ok (drop k payload)) of
          (Err e, P) \<Rightarrow> (Err e, P) | (Panic, P) \<Rightarrow> (Panic, P)
        | (Ok _, P) \<Rightarrow> let P = P\<lparr>fragment_opcode := Some op, fragment_buf := payload\<rparr> in
            if utf8_pending (utf8 P) > length payload then (Panic, P)
            else (Ok (), P\<lparr>fragment_validated_len := length payload - utf8_pending (utf8 P)\<rparr>))"
      using tx f(2) k(1) by (auto simp: start_fragment_def Q_def slice_from_ok Let_def split: result.split prod.split)
    have same: "parser Q = parser P" "partial_checked Q = partial_checked P" "validate_text_utf8 Q = v"
      "max_message_size Q = m" "state Q = state P" "pending_close Q = pending_close P"
      using f by (simp_all add: Q_def)
    show ?thesis
      using u tx start same rel text_at_pending [of "Q\<lparr>utf8 := u\<rparr>" payload]
      by (auto simp: follows_def gather_def prot_rel_def fragment_ok_def text_at_def Let_def)
  qed
qed

lemma gather_raw: "gather False m a op d fin =
    (if length d > m then Inl MessageTooLarge
     else if fin then Inr (Some (if op = OpText then Text d else Binary d), a\<lparr>a_frag := None\<rparr>)
     else Inr (None, a\<lparr>a_frag := Some (op, d)\<rparr>))"
  by (simp add: gather_def)

lemma raw_text_follows:
  assumes rel: "prot_rel False m P a" and fin: "\<not> h_fin (f_header f)" and none: "a_frag a = None"
  shows "follows False m P (gather False m a OpText (f_payload f) False) (case handle_raw_text P f of (r, P) \<Rightarrow> (raw_to_message r, P))"
  using assms
  by (auto simp: follows_def gather_raw handle_raw_text_def handle_raw_data_def start_raw_fragment_def prot_rel_def
      raw_to_message_def fragment_ok_def)

lemma raw_continuation_follows:
  assumes rel: "prot_rel False m P a" and frag: "a_frag a = Some (op, d)"
  shows "follows False m P (gather False m a op (d @ f_payload f) (h_fin (f_header f)))
    (case handle_raw_continuation P f of (r, P) \<Rightarrow> (raw_to_message r, P))"
  using assms
  by (auto simp: follows_def gather_raw handle_raw_continuation_def complete_raw_fragment_def prot_rel_def
      raw_to_message_def raw_data_message_def fragment_ok_def Let_def)

lemma complete_fragment_eq:
  assumes "op \<in> {OpText, OpBinary}"
  shows "complete_fragment P op =
    (if op = OpText \<and> \<not> utf8_finish (utf8 P) then Err InvalidUtf8
     else Ok (Some (if op = OpText then Text (fragment_buf P) else Binary (fragment_buf P))),
     P\<lparr>fragment_opcode := None, fragment_buf := []\<rparr>)"
  using assms by (auto simp: complete_fragment_def Let_def)

lemma validate_continuation_text:
  assumes pf: "platform_ok pf" and rel: "prot_rel True m P a" and frag: "a_frag a = Some (OpText, d)"
    and h: "h_opcode h = OpContinuation" and c: "checked True a h payload P k"
  shows "\<exists>u. validate_continuation pf P payload k =
      (if text_prefix (d @ payload) then Ok () else Err InvalidUtf8, P\<lparr>utf8 := u\<rparr>)
    \<and> (text_prefix (d @ payload) \<longrightarrow> text_at (P\<lparr>utf8 := u\<rparr>) (d @ payload))"
proof -
  have d: "fragment_buf P = d" "utf8_clean (utf8 P)" "fragment_ok P"
    using rel frag by (auto simp: prot_rel_def)
  have push: "\<exists>u. push_utf8 pf (P\<lparr>utf8 := w\<rparr>) (Ok (drop k payload)) =
      (if text_prefix (d @ payload) then Ok () else Err InvalidUtf8, P\<lparr>utf8 := u\<rparr>)
    \<and> (text_prefix (d @ payload) \<longrightarrow> text_at (P\<lparr>utf8 := u\<rparr>) (d @ payload))"
    if "text_at (P\<lparr>utf8 := w\<rparr>) (d @ take k payload)" for w
    using push_utf8_text [OF pf that, of "drop k payload"] by auto
  show ?thesis
  proof (cases "k = 0")
    case True
    obtain w where w: "resume_utf8 pf P = (if text_prefix d then Ok () else Err InvalidUtf8, P\<lparr>utf8 := w\<rparr>)"
      "text_prefix d \<longrightarrow> text_at (P\<lparr>utf8 := w\<rparr>) d"
      using resume_utf8_text [OF pf d(2,3)] d(1) by auto
    show ?thesis
      using True w push [of w] text_prefix_append [of d payload]
      by (cases "text_prefix d") (auto simp: validate_continuation_def slice_from_ok)
  next
    case False
    then have "k \<le> length payload" "text_at P (d @ take k payload)"
      using c frag h by (auto simp: checked_def text_base_def)
    then show ?thesis
      using False push [of "utf8 P"] by (simp add: validate_continuation_def slice_from_ok)
  qed
qed

lemma continuation_follows:
  assumes pf: "platform_ok pf" and rel: "prot_rel True m P a" and frag: "a_frag a = Some (op, d)"
    and h: "h_opcode (f_header f) = OpContinuation" and c: "checked True a (f_header f) (f_payload f) P k"
  shows "follows True m P (gather True m a op (d @ f_payload f) (h_fin (f_header f))) (handle_continuation pf P f k)"
proof -
  let ?x = "d @ f_payload f"
  have f: "fragment_opcode P = Some op" "fragment_buf P = d" "max_message_size P = m" "validate_text_utf8 P"
    "op \<in> {OpText, OpBinary}"
    using rel frag by (auto simp: prot_rel_def)
  consider (big) "length ?x > m" | (bin) "length ?x \<le> m" "op = OpBinary" | (tx) "length ?x \<le> m" "op = OpText"
    using f(5) by fastforce
  then show ?thesis
  proof cases
    case tx
    obtain u where u: "validate_continuation pf P (f_payload f) k =
        (if text_prefix ?x then Ok () else Err InvalidUtf8, P\<lparr>utf8 := u\<rparr>)"
      "text_prefix ?x \<longrightarrow> text_at (P\<lparr>utf8 := u\<rparr>) ?x"
      using validate_continuation_text [OF pf rel _ h c] frag tx(2) by blast
    show ?thesis
      using tx f u rel text_at_pending [of "P\<lparr>utf8 := u\<rparr>" ?x] text_at_finish [of "P\<lparr>utf8 := u\<rparr>" ?x] utf8_valid_prefix [of ?x]
      by (auto simp: follows_def gather_def handle_continuation_def complete_fragment_eq prot_rel_def fragment_ok_def
          text_at_def Let_def)
  qed (use f rel in \<open>auto simp: follows_def gather_def handle_continuation_def complete_fragment_eq prot_rel_def Let_def\<close>)
qed

lemma handle_continuation_follows:
  assumes pf: "platform_ok pf" and rel: "prot_rel v m P a" and c: "checked v a (f_header f) (f_payload f) P k"
    and op: "h_opcode (f_header f) = OpContinuation"
  shows "follows v m P (assemble_frame v m a f) (handle_continuation pf P f k)"
proof (cases "a_frag a")
  case None
  then have "fragment_opcode P = None" using rel by (auto simp: prot_rel_def)
  then show ?thesis using None op
    by (simp add: follows_def assemble_frame_def handle_continuation_def handle_raw_continuation_def raw_to_message_def)
next
  case (Some od)
  obtain fop d where od: "a_frag a = Some (fop, d)" using Some by (cases od) auto
  have ref: "assemble_frame v m a f = gather v m a fop (d @ f_payload f) (h_fin (f_header f))"
    using op od by (simp add: assemble_frame_def Let_def)
  have "handle_continuation pf P f k = (case handle_raw_continuation P f of (r, P) \<Rightarrow> (raw_to_message r, P))" if "\<not> v"
    using that rel by (simp add: handle_continuation_def prot_rel_def)
  then show ?thesis
    using continuation_follows [OF pf _ od op] raw_continuation_follows [OF _ od] rel c ref by (cases v) auto
qed

lemma handle_text_follows:
  assumes pf: "platform_ok pf" and rel: "prot_rel v m P a" and c: "checked v a (f_header f) (f_payload f) P k"
    and op: "h_opcode (f_header f) = OpText"
  shows "follows v m P (assemble_frame v m a f) (handle_text pf P f k)"
proof (cases "a_frag a")
  case None
  have ref: "assemble_frame v m a f = gather v m a OpText (f_payload f) (h_fin (f_header f))"
    using op None by (simp add: assemble_frame_def)
  have fo: "fragment_opcode P = None" "validate_text_utf8 P = v" using rel None by (auto simp: prot_rel_def)
  have ck: "checked v a (f_header f) (f_payload f) P (if OpText = OpText then k else 0)" using c by simp
  show ?thesis
    using ref fo complete_text_follows [OF pf rel op _ None ck] start_fragment_follows [OF pf rel op _ None ck]
      raw_text_follows [of m P a f] rel None
    by (cases v; cases "h_fin (f_header f)") (simp_all add: handle_text_def)
next
  case (Some od)
  then have "fragment_opcode P \<noteq> None" using rel by (auto simp: prot_rel_def)
  then show ?thesis using Some op
    by (auto simp: follows_def assemble_frame_def handle_text_def handle_complete_data_def
        handle_raw_text_def handle_raw_data_def raw_to_message_def)
qed

lemma handle_binary_follows:
  assumes pf: "platform_ok pf" and rel: "prot_rel v m P a" and op: "h_opcode (f_header f) = OpBinary"
  shows "follows v m P (assemble_frame v m a f) (handle_binary pf P f)"
proof (cases "a_frag a")
  case None
  have ref: "assemble_frame v m a f = gather v m a OpBinary (f_payload f) (h_fin (f_header f))"
    using op None by (simp add: assemble_frame_def)
  have fo: "fragment_opcode P = None" using rel None by (auto simp: prot_rel_def)
  have ck: "checked v a (f_header f) (f_payload f) P (if OpBinary = OpText then 0 else 0)" by (simp add: checked_def)
  show ?thesis
    using ref fo complete_text_follows [OF pf rel op _ None ck] start_fragment_follows [OF pf rel op _ None ck]
    by (cases "h_fin (f_header f)") (simp_all add: handle_binary_def)
next
  case (Some od)
  then have "fragment_opcode P \<noteq> None" using rel by (auto simp: prot_rel_def)
  then show ?thesis using Some op
    by (auto simp: follows_def assemble_frame_def handle_binary_def handle_complete_data_def)
qed

lemma handle_frame_follows:
  assumes pf: "platform_ok pf" and rel: "prot_rel v m P a" and c: "checked v a (f_header f) (f_payload f) P k"
  shows "follows v m P (assemble_frame v m a f) (handle_frame pf P f k)"
proof (cases "h_opcode (f_header f)")
  case OpContinuation
  then show ?thesis using handle_continuation_follows [OF assms] by (simp add: handle_frame_def)
next
  case OpText
  then show ?thesis using handle_text_follows [OF assms] by (simp add: handle_frame_def)
next
  case OpBinary
  then show ?thesis using handle_binary_follows [OF pf rel] by (simp add: handle_frame_def)
next
  case OpClose
  then show ?thesis using handle_close_follows [OF pf rel, of f] by (simp add: assemble_frame_def handle_frame_def)
qed (use rel in \<open>simp_all add: follows_def assemble_frame_def handle_frame_def handle_ping_def handle_pong_def\<close>)

section \<open>The reader of a protocol\<close>

lemma unmask_ref_take: "take n (unmask_ref mk k xs) = unmask_ref mk k (take n xs)"
  by (simp add: unmask_ref_def take_mask_from split: option.split)

lemma header_spec_n: "header_spec p raw = Got h n \<Longrightarrow> n \<le> length raw"
  by (auto dest: header_spec_Got)

text \<open>Once its header has arrived a frame is incomplete or given, with the unmasked payload.\<close>

lemma frame_spec_header:
  assumes "header_spec p raw = Got h n"
  shows "frame_spec p raw =
    (if length raw < n + unat (h_payload_len h) then More
     else Got \<lparr>f_header = h, f_payload = take (unat (h_payload_len h)) (unmask_ref (h_mask h) 0 (drop n raw))\<rparr>
       (n + unat (h_payload_len h)))"
  using assms by (simp add: frame_spec_def Let_def unmask_ref_take)

lemma frame_spec_Got_header:
  assumes "frame_spec p raw = Got f k"
  obtains n where "header_spec p raw = Got (f_header f) n" "n + unat (h_payload_len (f_header f)) \<le> length raw"
    "f_payload f = take (unat (h_payload_len (f_header f))) (unmask_ref (h_mask (f_header f)) 0 (drop n raw))"
proof -
  obtain h n where h: "header_spec p raw = Got h n" using assms by (auto simp: frame_spec_def split: scan.splits)
  show ?thesis using that [of n] assms h by (auto simp: frame_spec_header [OF h] split: if_splits)
qed

text \<open>A parser that waits offers what it has of the payload, unmasked.\<close>

lemma parse_waits:
  assumes "parser_at pf p0 p buf raw" "frame_spec p0 raw = More"
  obtains p' buf' where "parse pf p buf = (Ok None, p', buf')" "parser_at pf p0 p' buf' raw"
    "pending_payload p' = (case header_spec p0 raw of
       Got h n \<Rightarrow> Some \<lparr>pp_opcode = h_opcode h, pp_fin = h_fin h, pp_rsv1 = h_rsv1 h, pp_ready = length buf',
          pp_total = unat (h_payload_len h)\<rparr>
     | _ \<Rightarrow> None)"
    "\<And>h n. header_spec p0 raw = Got h n \<Longrightarrow> buf' = unmask_ref (h_mask h) 0 (drop n raw)"
proof -
  have ph: "phase_kept (pf_target pf)" and lim: "same_limits p0 p" and rel: "parser_rel p buf raw"
    using assms(1) by (auto simp: parser_at_def)
  obtain r p' buf' where ps: "parse pf p buf = (r, p', buf')" by (cases "parse pf p buf")
  have a: "r = Ok None" "same_limits p p'" "parser_rel p' buf' raw" "settled p' buf' raw"
    using parse_agrees [OF rel ph] ps assms(2) frame_spec_cong [OF lim] by (auto simp: agrees_def)
  have lim': "same_limits p0 p'" using lim a(2) by (rule same_limits_trans)
  note hc = header_spec_cong [OF lim']
  show thesis
  proof (cases "p_state p' = Payload")
    case True
    then obtain h hb where h: "p_header p' = Some h" "header_spec p' hb = Got h (length hb)" "payload_ready p' = length buf'"
      and raw: "raw = hb @ unmask_ref (h_mask h) 0 buf'"
      using a(3,4) by (auto simp: parser_rel_def settled_def)
    have hs: "header_spec p0 raw = Got h (length hb)"
      using header_spec_append [of p' hb] h(2) raw hc by simp
    show thesis
      using that [of p' buf'] ps a lim' ph True h hs raw by (auto simp: parser_at_def pending_payload_def)
  next
    case False
    then have "header_spec p0 raw = More" using a(4) hc by (simp add: settled_def)
    then show thesis using that [of p' buf'] ps a lim' ph False by (simp add: parser_at_def pending_payload_def)
  qed
qed

definition part_checked :: "bool \<Rightarrow> frame_parser \<Rightarrow> protocol \<Rightarrow> bytes \<Rightarrow> assembly \<Rightarrow> bool" where
  "part_checked v p0 P raw a \<longleftrightarrow> partial_checked P = 0 \<or>
     (\<exists>h n. header_spec p0 raw = Got h n \<and> partial_checked P \<le> unat (h_payload_len h)
        \<and> checked v a h (unmask_ref (h_mask h) 0 (drop n raw)) P (partial_checked P))"

definition receiving :: "platform \<Rightarrow> frame_parser \<Rightarrow> bool \<Rightarrow> nat \<Rightarrow> protocol \<Rightarrow> bytes \<Rightarrow> bytes \<Rightarrow> assembly \<Rightarrow> bool" where
  "receiving pf p0 v m P buf raw a \<longleftrightarrow> platform_ok pf \<and> parser_at pf p0 (parser P) buf raw \<and> prot_rel v m P a
     \<and> part_checked v p0 P raw a \<and> (buf = [] \<longrightarrow> incomplete_text v p0 a raw = None)"

lemma part_checked_append:
  assumes "part_checked v p0 P raw a"
  shows "part_checked v p0 P (raw @ x) a"
proof (cases "partial_checked P = 0")
  case False
  then obtain h n where h: "header_spec p0 raw = Got h n" "partial_checked P \<le> unat (h_payload_len h)"
    "checked v a h (unmask_ref (h_mask h) 0 (drop n raw)) P (partial_checked P)"
    using assms by (auto simp: part_checked_def)
  have "header_spec p0 (raw @ x) = Got h n" using header_spec_append [of p0 raw x] h(1) by simp
  moreover have "unmask_ref (h_mask h) 0 (drop n (raw @ x)) =
      unmask_ref (h_mask h) 0 (drop n raw) @ unmask_ref (h_mask h) (length (drop n raw)) x"
    using header_spec_n [OF h(1)] by (simp add: unmask_ref_append)
  ultimately show ?thesis using h(2,3) False by (auto simp: part_checked_def checked_def)
qed (simp add: part_checked_def)

text \<open>The check of an incomplete frame.\<close>

lemma part_checked_at:
  assumes "part_checked v p0 P raw a" "header_spec p0 raw = Got h n" "partial_checked P \<noteq> 0"
  shows "v" "partial_checked P \<le> length (drop n raw)"
    "\<exists>d. text_base a h = Some d \<and> text_at P (d @ take (partial_checked P) (unmask_ref (h_mask h) 0 (drop n raw)))"
  using assms by (auto simp: part_checked_def checked_def)

lemma prot_rel_utf8: "prot_rel v m P a \<Longrightarrow> text_at (P\<lparr>utf8 := u\<rparr>) bs \<Longrightarrow> prot_rel v m (P\<lparr>utf8 := u, partial_checked := k\<rparr>) a"
  by (auto simp: prot_rel_def text_at_def fragment_ok_def)

lemma text_base_opcode:
  assumes "prot_rel v m P a"
  shows "(case h_opcode h of OpText \<Rightarrow> fragment_opcode P = None | OpContinuation \<Rightarrow> fragment_opcode P = Some OpText | _ \<Rightarrow> False)
    \<longleftrightarrow> text_base a h \<noteq> None"
  using assms by (cases "h_opcode h"; cases "fragment_opcode P") (auto simp: prot_rel_def text_base_def)

text \<open>The state in which the check of new bytes starts.\<close>

lemma prevalidate_start:
  assumes pf: "platform_ok pf" and rel: "prot_rel True m P a" and base: "text_base a h = Some d"
    and k: "partial_checked P \<noteq> 0 \<Longrightarrow> text_at P (d @ take (partial_checked P) part)"
  obtains u where "(if partial_checked P = 0 then
        if h_opcode h = OpContinuation then resume_utf8 pf P else (Ok (), P\<lparr>utf8 := utf8_reset (utf8 P)\<rparr>)
      else (Ok (), P)) = (if text_prefix d then Ok () else Err InvalidUtf8, P\<lparr>utf8 := u\<rparr>)"
    "text_prefix d \<Longrightarrow> text_at (P\<lparr>utf8 := u\<rparr>) (d @ take (partial_checked P) part)"
proof (cases "partial_checked P = 0")
  case False
  then have "text_at (P\<lparr>utf8 := utf8 P\<rparr>) (d @ take (partial_checked P) part)" using k by simp
  then show thesis using that [of "utf8 P"] False text_prefix_append text_at_prefix by fastforce
next
  case True
  have clean: "utf8_clean (utf8 P)" using rel by (simp add: prot_rel_def)
  show thesis
  proof (cases "h_opcode h = OpContinuation")
    case cont: True
    then have "a_frag a = Some (OpText, d)" using base by (auto simp: text_base_def split: option.splits opcode.splits)
    then have "fragment_buf P = d" "fragment_ok P" using rel by (auto simp: prot_rel_def)
    then obtain u where "resume_utf8 pf P = (if text_prefix d then Ok () else Err InvalidUtf8, P\<lparr>utf8 := u\<rparr>)"
      "text_prefix d \<longrightarrow> text_at (P\<lparr>utf8 := u\<rparr>) d"
      using resume_utf8_text [OF pf clean] by auto
    then show thesis using that [of u] True cont by simp
  next
    case False
    then have "d = []" using base by (auto simp: text_base_def split: option.splits opcode.splits)
    then show thesis using that [of "utf8_reset (utf8 P)"] True False utf8_clean_reset [OF clean]
      by (simp add: text_at_def text_prefix_def)
  qed
qed

lemma prevalidate_check:
  assumes pf: "platform_ok pf" and rel: "prot_rel True m P a" and base: "text_base a h = Some d"
    and pend: "pending_payload (parser P) = Some \<lparr>pp_opcode = h_opcode h, pp_fin = fin, pp_rsv1 = False,
        pp_ready = length buf, pp_total = tot\<rparr>"
    and k: "partial_checked P < length buf" "partial_checked P \<noteq> 0 \<Longrightarrow> text_at P (d @ take (partial_checked P) buf)"
  shows "\<exists>u. prevalidate_partial_text pf P buf =
      (if text_prefix (d @ buf) then (Ok (), P\<lparr>utf8 := u, partial_checked := length buf\<rparr>) else (Err InvalidUtf8, P\<lparr>utf8 := u\<rparr>))
    \<and> (text_prefix (d @ buf) \<longrightarrow> text_at (P\<lparr>utf8 := u\<rparr>) (d @ buf))"
proof -
  from prevalidate_start [OF pf rel base k(2)] obtain u where
    u: "(if partial_checked P = 0 then
        if h_opcode h = OpContinuation then resume_utf8 pf P else (Ok (), P\<lparr>utf8 := utf8_reset (utf8 P)\<rparr>)
      else (Ok (), P)) = (if text_prefix d then Ok () else Err InvalidUtf8, P\<lparr>utf8 := u\<rparr>)"
    "text_prefix d \<Longrightarrow> text_at (P\<lparr>utf8 := u\<rparr>) (d @ take (partial_checked P) buf)"
    by blast
  have v: "validate_text_utf8 P" using rel by (simp add: prot_rel_def)
  have pre: "prevalidate_partial_text pf P buf =
     (case (if text_prefix d then Ok () else Err InvalidUtf8, P\<lparr>utf8 := u\<rparr>) of
        (Err e, P) \<Rightarrow> (Err e, P) | (Panic, P) \<Rightarrow> (Panic, P)
      | (Ok _, P) \<Rightarrow> (case push_utf8 pf P (byte_slice buf (partial_checked P) (length buf)) of
            (Ok _, P) \<Rightarrow> (Ok (), P\<lparr>partial_checked := length buf\<rparr>) | (r, P) \<Rightarrow> (r, P)))"
    using v pend k(1) base text_base_opcode [OF rel, of h] unfolding prevalidate_partial_text_def u(1) [symmetric]
    by (simp add: Let_def split: result.split prod.split)
  show ?thesis
  proof (cases "text_prefix d")
    case True
    from push_utf8_text [OF pf u(2) [OF True], of "drop (partial_checked P) buf"]
    obtain w where w: "push_utf8 pf (P\<lparr>utf8 := u\<rparr>) (Ok (drop (partial_checked P) buf)) =
        (if text_prefix (d @ buf) then Ok () else Err InvalidUtf8, P\<lparr>utf8 := w\<rparr>)"
      "text_prefix (d @ buf) \<longrightarrow> text_at (P\<lparr>utf8 := w\<rparr>) (d @ buf)" by auto
    show ?thesis using True w k(1) by (intro exI [of _ w]) (simp add: pre byte_slice_def)
  next
    case False
    then show ?thesis using text_prefix_append [of d buf] by (intro exI [of _ u]) (auto simp: pre)
  qed
qed

lemma prevalidate_follows:
  assumes pf: "platform_ok pf" and rel: "prot_rel v m P a" and part: "part_checked v p0 P raw a"
    and more: "frame_spec p0 raw = More"
    and pend: "pending_payload (parser P) = (case header_spec p0 raw of
       Got h n \<Rightarrow> Some \<lparr>pp_opcode = h_opcode h, pp_fin = h_fin h, pp_rsv1 = h_rsv1 h, pp_ready = length buf,
          pp_total = unat (h_payload_len h)\<rparr>
     | _ \<Rightarrow> None)"
    and buf: "\<And>h n. header_spec p0 raw = Got h n \<Longrightarrow> buf = unmask_ref (h_mask h) 0 (drop n raw)"
  shows "case incomplete_text v p0 a raw of
      Some e \<Rightarrow> \<exists>P'. prevalidate_partial_text pf P buf = (Err e, P')
    | None \<Rightarrow> \<exists>P'. prevalidate_partial_text pf P buf = (Ok (), P') \<and> prot_rel v m P' a \<and> parser P' = parser P
        \<and> part_checked v p0 P' raw a"
proof (cases "\<exists>h n d. header_spec p0 raw = Got h n \<and> text_base a h = Some d \<and> v \<and> \<not> h_rsv1 h \<and> partial_checked P < length buf")
  case True
  then obtain h n d where h: "header_spec p0 raw = Got h n" "text_base a h = Some d" v "\<not> h_rsv1 h"
    and k: "partial_checked P < length buf" by blast
  have b: "buf = unmask_ref (h_mask h) 0 (drop n raw)" using buf h(1) .
  have "text_at P (d @ take (partial_checked P) buf)" if "partial_checked P \<noteq> 0"
    using part_checked_at(3) [OF part h(1) that] h(2) b by simp
  moreover have "pending_payload (parser P) = Some \<lparr>pp_opcode = h_opcode h, pp_fin = h_fin h, pp_rsv1 = False,
      pp_ready = length buf, pp_total = unat (h_payload_len h)\<rparr>" using pend h(1,4) by simp
  ultimately obtain u where u: "prevalidate_partial_text pf P buf =
      (if text_prefix (d @ buf) then (Ok (), P\<lparr>utf8 := u, partial_checked := length buf\<rparr>) else (Err InvalidUtf8, P\<lparr>utf8 := u\<rparr>))"
    "text_prefix (d @ buf) \<longrightarrow> text_at (P\<lparr>utf8 := u\<rparr>) (d @ buf)"
    using prevalidate_check [OF pf _ h(2) _ k, of m "h_fin h" "unat (h_payload_len h)"] rel h(3) by auto
  have inc: "incomplete_text v p0 a raw = (if text_prefix (d @ buf) then None else Some InvalidUtf8)"
    using h k by (auto simp: incomplete_text_def b [symmetric] Let_def)
  show ?thesis
  proof (cases "text_prefix (d @ buf)")
    case True
    let ?P = "P\<lparr>utf8 := u, partial_checked := length buf\<rparr>"
    have "length buf \<le> unat (h_payload_len h)" using more b by (simp add: frame_spec_header [OF h(1)] split: if_splits)
    then have "part_checked v p0 ?P raw a"
      using True u(2) h(1,2,3) b by (auto simp: part_checked_def checked_def text_at_def)
    then show ?thesis using True u inc prot_rel_utf8 [OF rel, of u "d @ buf"] by simp
  qed (use u inc in simp)
next
  case False
  have inc: "incomplete_text v p0 a raw = None"
  proof (rule ccontr)
    assume "incomplete_text v p0 a raw \<noteq> None"
    then obtain h n d where h: "header_spec p0 raw = Got h n" "text_base a h = Some d" v "\<not> h_rsv1 h"
      "buf \<noteq> []" "\<not> text_prefix (d @ buf)"
      using buf by (auto simp: incomplete_text_def Let_def split: scan.splits option.splits if_splits)
    then have k: "length buf \<le> partial_checked P" "partial_checked P \<noteq> 0" using False by (cases buf; auto)+
    have "take (partial_checked P) buf = buf" using k(1) by simp
    then have "text_at P (d @ buf)" using part_checked_at(3) [OF part h(1) k(2)] h(2) buf [OF h(1)] by auto
    then show False using h(6) text_at_prefix by blast
  qed
  have v: "validate_text_utf8 P = v" using rel by (simp add: prot_rel_def)
  have "prevalidate_partial_text pf P buf = (Ok (), P)"
  proof (cases "header_spec p0 raw")
    case (Got h n)
    then show ?thesis
      using False pend v text_base_opcode [OF rel, of h] by (cases "text_base a h") (auto simp: prevalidate_partial_text_def)
  qed (use pend in \<open>simp_all add: prevalidate_partial_text_def\<close>)
  then show ?thesis using inc rel part by simp
qed

lemma incomplete_text_doomed:
  assumes "incomplete_text v p a raw = Some e" "frame_spec p raw = More"
  shows "case frame_spec p (raw @ x) of More \<Rightarrow> incomplete_text v p a (raw @ x) = Some e | Bad _ \<Rightarrow> False
     | Got f n \<Rightarrow> assemble_frame v m a f \<in> {Inl e, Inl MessageTooLarge}"
proof -
  obtain h n d where h: "header_spec p raw = Got h n" and d: "text_base a h = Some d"
    and v: v "\<not> h_rsv1 h" "\<not> text_prefix (d @ unmask_ref (h_mask h) 0 (drop n raw))" and e: "e = InvalidUtf8"
    using assms(1) by (auto simp: incomplete_text_def Let_def split: scan.splits option.splits if_splits)
  define part where "part = unmask_ref (h_mask h) 0 (drop n raw)"
  have hx: "header_spec p (raw @ x) = Got h n" using header_spec_append [of p raw x] h by simp
  obtain y where y: "unmask_ref (h_mask h) 0 (drop n (raw @ x)) = part @ y"
    using header_spec_n [OF h] by (simp add: unmask_ref_append part_def)
  have bad: "\<not> text_prefix (d @ part @ z)" for z using v(3) text_prefix_append [of "d @ part" z] by (auto simp: part_def)
  show ?thesis
  proof (cases "length (raw @ x) < n + unat (h_payload_len h)")
    case True
    then have "frame_spec p (raw @ x) = More" using frame_spec_header [OF hx] by simp
    then show ?thesis
      using hx d v e y bad [of y] bad [of "[]"] assms(1) h by (auto simp: incomplete_text_def Let_def part_def)
  next
    case False
    define payload where "payload = take (unat (h_payload_len h)) (part @ y)"
    have g: "frame_spec p (raw @ x) = Got \<lparr>f_header = h, f_payload = payload\<rparr> (n + unat (h_payload_len h))"
      using frame_spec_header [OF hx] False y by (simp add: payload_def)
    have "length part < unat (h_payload_len h)"
      using assms(2) header_spec_n [OF h] by (simp add: frame_spec_header [OF h] part_def split: if_splits)
    then have "\<not> text_prefix (d @ payload)" using bad by (simp add: payload_def)
    then have "gather v m a OpText (d @ payload) (h_fin h) \<in> {Inl e, Inl MessageTooLarge}"
      using v(1) e utf8_valid_prefix by (auto simp: gather_def)
    moreover have "assemble_frame v m a \<lparr>f_header = h, f_payload = payload\<rparr> = gather v m a OpText (d @ payload) (h_fin h)"
      using d by (auto simp: text_base_def assemble_frame_def split: opcode.splits option.splits)
    ultimately show ?thesis using g by simp
  qed
qed

lemma incomplete_text_Nil [simp]: "incomplete_text v p0 a [] = None"
  by (simp add: incomplete_text_def header_spec_def length_spec_def)

lemma protocol_step_More:
  assumes "receiving pf p0 v m P buf raw a" "frame_spec p0 raw = More"
  shows "\<exists>P' buf' P''. protocol_parse pf P buf = (Ok None, P', buf') \<and>
    (case incomplete_text v p0 a raw of
       None \<Rightarrow> prevalidate_partial_text pf P' buf' = (Ok (), P'') \<and> receiving pf p0 v m P'' buf' raw a
     | Some e \<Rightarrow> prevalidate_partial_text pf P' buf' = (Err e, P''))"
proof -
  have r: "platform_ok pf" "parser_at pf p0 (parser P) buf raw" "prot_rel v m P a" "part_checked v p0 P raw a"
    using assms(1) by (auto simp: receiving_def)
  from parse_waits [OF r(2) assms(2)] obtain p' buf' where ps: "parse pf (parser P) buf = (Ok None, p', buf')"
    "parser_at pf p0 p' buf' raw"
    and pend: "pending_payload p' = (case header_spec p0 raw of
       Got h n \<Rightarrow> Some \<lparr>pp_opcode = h_opcode h, pp_fin = h_fin h, pp_rsv1 = h_rsv1 h, pp_ready = length buf',
          pp_total = unat (h_payload_len h)\<rparr> | _ \<Rightarrow> None)"
    and buf: "\<And>h n. header_spec p0 raw = Got h n \<Longrightarrow> buf' = unmask_ref (h_mask h) 0 (drop n raw)"
    by blast
  let ?P = "P\<lparr>parser := p'\<rparr>"
  have "prot_rel v m ?P a" "part_checked v p0 ?P raw a"
    using r(3,4) by (auto simp: prot_rel_def fragment_ok_def part_checked_def checked_def text_at_def)
  from prevalidate_follows [OF r(1) this assms(2) _ buf] pend
  have "case incomplete_text v p0 a raw of
      Some e \<Rightarrow> \<exists>P'. prevalidate_partial_text pf ?P buf' = (Err e, P')
    | None \<Rightarrow> \<exists>P'. prevalidate_partial_text pf ?P buf' = (Ok (), P') \<and> prot_rel v m P' a \<and> parser P' = parser ?P
        \<and> part_checked v p0 P' raw a" by simp
  then show ?thesis
    using ps r(1) by (cases "incomplete_text v p0 a raw") (auto simp: protocol_parse_def receiving_def)
qed

lemma protocol_step_Bad:
  assumes "receiving pf p0 v m P buf raw a" "frame_spec p0 raw = Bad e"
  shows "\<exists>P' buf'. protocol_parse pf P buf = (Err e, P', buf')"
  using frame_decoder.step_Bad [of pf p0 "parser P" buf raw e] assms by (auto simp: receiving_def protocol_parse_def)

text \<open>A frame is given by a parser that is back in its first state.\<close>

lemma parse_gives:
  assumes "parser_at pf p0 p buf raw" "frame_spec p0 raw = Got f n"
  obtains p' buf' where "parse pf p buf = (Ok (Some f), p', buf')" "parser_at pf p0 p' buf' (drop n raw)" "buf' = drop n raw"
proof -
  have ph: "phase_kept (pf_target pf)" and lim: "same_limits p0 p" and rel: "parser_rel p buf raw"
    using assms(1) by (auto simp: parser_at_def)
  obtain r p' buf' where ps: "parse pf p buf = (r, p', buf')" by (cases "parse pf p buf")
  have a: "r = Ok (Some f)" "same_limits p p'" "p_state p' = Header" "parser_rel p' buf' (drop n raw)"
    using parse_agrees [OF rel ph] ps assms(2) frame_spec_cong [OF lim] by (auto simp: agrees_def)
  show thesis
    using that [of p' buf'] ps a same_limits_trans [OF lim a(2)] ph by (auto simp: parser_at_def parser_rel_def)
qed

lemma protocol_step_Got:
  assumes "receiving pf p0 v m P buf raw a" "frame_spec p0 raw = Got f n"
  shows "\<exists>P' buf' P''. protocol_parse pf P buf = (Ok (Some f), P', buf') \<and> (buf' = [] \<longrightarrow> drop n raw = []) \<and>
    (case assemble_frame v m a f of Inl e \<Rightarrow> take_and_handle pf P' f = (Err e, P'')
     | Inr (mo, a') \<Rightarrow> take_and_handle pf P' f = (Ok mo, P'') \<and> receiving pf p0 v m P'' buf' (drop n raw) a')"
proof -
  have r: "platform_ok pf" "parser_at pf p0 (parser P) buf raw" "prot_rel v m P a" "part_checked v p0 P raw a"
    using assms(1) by (auto simp: receiving_def)
  from parse_gives [OF r(2) assms(2)] obtain p' buf' where ps: "parse pf (parser P) buf = (Ok (Some f), p', buf')"
    "parser_at pf p0 p' buf' (drop n raw)" "buf' = drop n raw" by blast
  let ?P = "P\<lparr>parser := p', partial_checked := 0\<rparr>" and ?k = "partial_checked P"
  from frame_spec_Got_header [OF assms(2)] obtain i where
    h: "header_spec p0 raw = Got (f_header f) i"
    "f_payload f = take (unat (h_payload_len (f_header f))) (unmask_ref (h_mask (f_header f)) 0 (drop i raw))" by blast
  have "checked v a (f_header f) (f_payload f) ?P ?k"
    using r(4) h by (auto simp: part_checked_def checked_def text_at_def)
  moreover have "prot_rel v m ?P a" using r(3) by (auto simp: prot_rel_def fragment_ok_def)
  ultimately have "follows v m ?P (assemble_frame v m a f) (handle_frame pf ?P f ?k)"
    using handle_frame_follows [OF r(1)] by blast
  moreover have "take_and_handle pf (P\<lparr>parser := p'\<rparr>) f = handle_frame pf ?P f ?k" by (simp add: take_and_handle_def)
  ultimately show ?thesis
    using ps r(1)
    by (cases "assemble_frame v m a f"; cases "handle_frame pf ?P f ?k")
      (auto simp: follows_def protocol_parse_def receiving_def part_checked_def)
qed

interpretation protocol_reader: frame_receiver "frame_spec p0" "protocol_parse pf" "take_and_handle pf"
    "prevalidate_partial_text pf" "assemble_frame v m" "incomplete_text v p0" "receiving pf p0 v m" for pf p0 v m
proof
  show "receiving pf p0 v m P (buf @ x) (raw @ x) a" if "receiving pf p0 v m P buf raw a" for P buf raw a x
    using that part_checked_append frame_decoder.rel_append by (auto simp: receiving_def)
qed (use protocol_step_More protocol_step_Bad protocol_step_Got incomplete_text_doomed in \<open>simp_all\<close>)

end
