(* ===== verification/WS_Messaging.thy ===== *)
theory WS_Messaging
  imports WS_Protocol_Refine
begin

text \<open>
  A connection as its user sees it. The raw reader is a second \<open>frame_receiver\<close> over the same state
  (\<open>raw_reader\<close>), so that typed and raw calls can be mixed. \<open>send_all\<close> is what an endpoint writes for a
  list of messages; the reference of the peer gives the messages back (\<open>received_sent\<close>). The loops
  return from every state (\<open>frame_loop_returns\<close>), and reading messages one by one is reading them
  all (\<open>drain_next_eq\<close>).
\<close>

section \<open>The raw reader\<close>

fun raw_of :: "message \<Rightarrow> raw_message" where
  "raw_of (Text b) = RawText b"
| "raw_of (Binary b) = RawBinary b"
| "raw_of (Ping b) = RawPing b"
| "raw_of (Pong b) = RawPong b"
| "raw_of (Close r) = RawClose r"

text \<open>The raw reader gathers the same messages without looking at the text.\<close>

definition assemble_raw :: "nat \<Rightarrow> (assembly, raw_message) assembler" where
  "assemble_raw m a f =
     (case assemble_frame False m a f of Inl e \<Rightarrow> Inl e | Inr (mo, a') \<Rightarrow> Inr (map_option raw_of mo, a'))"

definition raw_follows :: "bool \<Rightarrow> nat \<Rightarrow> protocol \<Rightarrow> error + (raw_message option \<times> assembly) \<Rightarrow> (protocol, raw_message option) op \<Rightarrow> bool" where
  "raw_follows v m P ref res \<longleftrightarrow>
     (case ref of
        Inl e \<Rightarrow> fst res = Err e
      | Inr (mo, a') \<Rightarrow> fst res = Ok mo \<and> prot_rel v m (snd res) a' \<and> parser (snd res) = parser P
          \<and> partial_checked (snd res) = partial_checked P)"

lemma handle_raw_data_follows:
  assumes "prot_rel v m P a" "op \<in> {OpText, OpBinary}" "h_opcode (f_header f) = op" "\<And>b. con b = raw_of (if op = OpText then Text b else Binary b)"
  shows "raw_follows v m P (assemble_raw m a f) (handle_raw_data P op con f)"
  using assms
  by (auto simp: raw_follows_def assemble_raw_def assemble_frame_def handle_raw_data_def start_raw_fragment_def
      ensure_message_size_def prot_rel_def gather_raw fragment_ok_def Let_def)

lemma handle_raw_continuation_follows:
  assumes "prot_rel v m P a" "h_opcode (f_header f) = OpContinuation"
  shows "raw_follows v m P (assemble_raw m a f) (handle_raw_continuation P f)"
  using assms
  by (cases "fragment_opcode P")
    (auto simp: raw_follows_def assemble_raw_def assemble_frame_def handle_raw_continuation_def complete_raw_fragment_def
      prot_rel_def gather_raw fragment_ok_def Let_def)

lemma handle_raw_frame_follows:
  assumes pf: "platform_ok pf" and rel: "prot_rel v m P a"
  shows "raw_follows v m P (assemble_raw m a f) (handle_raw_frame pf P f)"
proof (cases "h_opcode (f_header f)")
  case OpContinuation
  then show ?thesis using handle_raw_continuation_follows [OF rel] by (simp add: handle_raw_frame_def)
next
  case OpText
  then show ?thesis using handle_raw_data_follows [OF rel, of OpText] by (simp add: handle_raw_frame_def handle_raw_text_def)
next
  case OpBinary
  then show ?thesis using handle_raw_data_follows [OF rel, of OpBinary] by (simp add: handle_raw_frame_def handle_raw_binary_def)
next
  case OpClose
  then show ?thesis using handle_close_follows [OF pf rel, of f]
    by (cases "close_spec (f_payload f)"; cases "handle_close pf P f")
      (auto simp: follows_def raw_follows_def assemble_raw_def assemble_frame_def handle_raw_frame_def)
qed (use rel in \<open>simp_all add: raw_follows_def assemble_raw_def assemble_frame_def handle_raw_frame_def\<close>)

text \<open>The state between two calls is the one of the typed reader, so the two can be mixed.\<close>

lemma raw_step_More:
  assumes "receiving pf p0 v m P buf raw a" "frame_spec p0 raw = More"
  shows "\<exists>P' buf'. protocol_parse pf P buf = (Ok None, P', buf') \<and> receiving pf p0 v m P' buf' raw a"
proof -
  have r: "platform_ok pf" "parser_at pf p0 (parser P) buf raw" "prot_rel v m P a" "part_checked v p0 P raw a"
    using assms(1) by (auto simp: receiving_def)
  from parse_waits [OF r(2) assms(2)] obtain p' buf' where
    ps: "parse pf (parser P) buf = (Ok None, p', buf')" "parser_at pf p0 p' buf' raw"
    "pending_payload p' = (case header_spec p0 raw of
       Got h n \<Rightarrow> Some \<lparr>pp_opcode = h_opcode h, pp_fin = h_fin h, pp_rsv1 = h_rsv1 h, pp_ready = length buf',
          pp_total = unat (h_payload_len h)\<rparr> | _ \<Rightarrow> None)"
    and buf: "\<And>h n. header_spec p0 raw = Got h n \<Longrightarrow> buf' = unmask_ref (h_mask h) 0 (drop n raw)"
    by blast
  have "incomplete_text v p0 a raw = None" if "buf' = []"
  proof (cases "header_spec p0 raw")
    case (Got h n)
    then show ?thesis using that buf [OF Got] by (simp add: incomplete_text_def Let_def split: option.split)
  qed (simp_all add: incomplete_text_def)
  moreover have "prot_rel v m (P\<lparr>parser := p'\<rparr>) a" "part_checked v p0 (P\<lparr>parser := p'\<rparr>) raw a"
    using r(3,4) by (auto simp: prot_rel_def fragment_ok_def part_checked_def checked_def text_at_def)
  ultimately show ?thesis using ps r(1) by (simp add: protocol_parse_def receiving_def)
qed

lemma raw_step_Got:
  assumes "receiving pf p0 v m P buf raw a" "frame_spec p0 raw = Got f n"
  shows "\<exists>P' buf' P''. protocol_parse pf P buf = (Ok (Some f), P', buf') \<and> (buf' = [] \<longrightarrow> drop n raw = []) \<and>
    (case assemble_raw m a f of Inl e \<Rightarrow> handle_raw_frame pf (P'\<lparr>partial_checked := 0\<rparr>) f = (Err e, P'')
     | Inr (mo, a') \<Rightarrow> handle_raw_frame pf (P'\<lparr>partial_checked := 0\<rparr>) f = (Ok mo, P'')
         \<and> receiving pf p0 v m P'' buf' (drop n raw) a')"
proof -
  have r: "platform_ok pf" "parser_at pf p0 (parser P) buf raw" "prot_rel v m P a" using assms(1) by (auto simp: receiving_def)
  from parse_gives [OF r(2) assms(2)] obtain p' buf' where ps: "parse pf (parser P) buf = (Ok (Some f), p', buf')"
    "parser_at pf p0 p' buf' (drop n raw)" "buf' = drop n raw" by blast
  let ?P = "P\<lparr>parser := p', partial_checked := 0\<rparr>"
  have "prot_rel v m ?P a" using r(3) by (auto simp: prot_rel_def fragment_ok_def)
  from handle_raw_frame_follows [OF r(1) this, of f] show ?thesis
    using ps r(1) by (cases "assemble_raw m a f"; cases "handle_raw_frame pf ?P f")
      (auto simp: raw_follows_def protocol_parse_def receiving_def part_checked_def)
qed

interpretation raw_reader: frame_receiver "frame_spec p0" "protocol_parse pf"
    "\<lambda>P f. handle_raw_frame pf (P\<lparr>partial_checked := 0\<rparr>) f" "\<lambda>P _. (Ok (), P)"
    "assemble_raw m" "\<lambda>_ _. None" "receiving pf p0 v m" for pf p0 v m
proof
  show "receiving pf p0 v m P (buf @ x) (raw @ x) a" if "receiving pf p0 v m P buf raw a" for P buf raw a x
    using that by (rule protocol_reader.rel_append)
  show "\<exists>P' buf' P''. protocol_parse pf P buf = (Ok None, P', buf') \<and>
      (case None of None \<Rightarrow> (Ok (), P') = (Ok (), P'') \<and> receiving pf p0 v m P'' buf' raw a | Some e \<Rightarrow> (Ok (), P') = (Err e, P''))"
    if "receiving pf p0 v m P buf raw a" "frame_spec p0 raw = More" for P buf raw a
    using raw_step_More [OF that] by auto
  show "\<exists>P' buf'. protocol_parse pf P buf = (Err e, P', buf')"
    if "receiving pf p0 v m P buf raw a" "frame_spec p0 raw = Bad e" for P buf raw a e
    using that by (rule protocol_step_Bad)
  show "\<exists>P' buf' P''. protocol_parse pf P buf = (Ok (Some f), P', buf') \<and> (buf' = [] \<longrightarrow> drop n raw = []) \<and>
      (case assemble_raw m a f of Inl e \<Rightarrow> handle_raw_frame pf (P'\<lparr>partial_checked := 0\<rparr>) f = (Err e, P'')
       | Inr (mo, a') \<Rightarrow> handle_raw_frame pf (P'\<lparr>partial_checked := 0\<rparr>) f = (Ok mo, P'')
           \<and> receiving pf p0 v m P'' buf' (drop n raw) a')"
    if "receiving pf p0 v m P buf raw a" "frame_spec p0 raw = Got f n" for P buf raw a f n
    using that by (rule raw_step_Got)
qed simp_all

section \<open>A connection from its start\<close>

definition start_protocol :: "role \<Rightarrow> nat \<Rightarrow> nat \<Rightarrow> bool \<Rightarrow> protocol" where
  "start_protocol r mf mm v = with_text_utf8_validation (protocol_new r mf mm) v"

definition assembly_start :: assembly where
  "assembly_start = \<lparr>a_frag = None, a_state = Open, a_close = None\<rparr>"

abbreviation reader_parser :: "role \<Rightarrow> nat \<Rightarrow> frame_parser" where
  "reader_parser r mf \<equiv> parser_new mf (r = Server)"

lemma process_into_run: "process_into pf = frame_loop (protocol_parse pf) (take_and_handle pf) (prevalidate_partial_text pf)"
  by (rule ext)+ (simp add: process_into_def process_into_with_activity_def)

lemma ready_start:
  assumes "platform_ok pf"
  shows "protocol_reader.ready (reader_parser r mf) v pf mm ((start_protocol r mf mm v)\<lparr>state := s\<rparr>) [] []
    (assembly_start\<lparr>a_state := s\<rparr>)"
  using assms parser_rel_fresh [of mf "r = Server" False]
  by (simp add: protocol_reader.ready_def receiving_def parser_at_def prot_rel_def part_checked_def platform_ok_def fresh_def
      start_protocol_def with_text_utf8_validation_def protocol_new_def assembly_start_def)

lemma receive_start:
  assumes "platform_ok pf" and "received (assemble_frame v mm) (incomplete_text v (reader_parser r mf))
      (frame_spec (reader_parser r mf)) (assembly_start\<lparr>a_state := s\<rparr>) (concat cs) = (ms, e, a, rest)"
  obtains res P' buf' where
    "receive (process_into pf) ((start_protocol r mf mm v)\<lparr>state := s\<rparr>) [] cs = Some (ms, res, P', buf')"
    "case e of None \<Rightarrow> res = Ok () \<and> protocol_reader.ready (reader_parser r mf) v pf mm P' buf' rest a
     | Some e \<Rightarrow> \<exists>e'. res = Err e' \<and> e \<in> {e', MessageTooLarge}"
  using protocol_reader.receive_meaning [OF ready_start [OF assms(1)], where cs = cs, unfolded append_Nil, OF assms(2)] that
  by (fastforce simp: process_into_run)

lemma ready_state:
  "protocol_reader.ready p0 v pf m P buf raw a \<Longrightarrow> state P = a_state a \<and> pending_close P = a_close a"
  by (simp add: protocol_reader.ready_def receiving_def prot_rel_def)

lemma ready_done:
  "protocol_reader.ready p0 v pf m P buf [] a \<Longrightarrow> buf = [] \<and> state P = a_state a \<and> pending_close P = a_close a"
  by (auto simp: protocol_reader.ready_def receiving_def parser_at_def prot_rel_def dest: parser_rel_Nil)

section \<open>Sending\<close>

primrec send_all :: "platform \<Rightarrow> protocol \<Rightarrow> bytes \<Rightarrow> (mask4 \<times> message) list \<Rightarrow> protocol \<times> bytes" where
  "send_all pf P buf [] = (P, buf)"
| "send_all pf P buf (km # kms) = (case encode_message_into pf (fst km) P (snd km) buf of (P, buf) \<Rightarrow> send_all pf P buf kms)"

fun message_frame :: "message \<Rightarrow> opcode \<times> bytes" where
  "message_frame (Text b) = (OpText, b)"
| "message_frame (Binary b) = (OpBinary, b)"
| "message_frame (Ping b) = (OpPing, b)"
| "message_frame (Pong b) = (OpPong, b)"
| "message_frame (Close r) = (OpClose, close_payload r)"

text \<open>What the documentation asks of a sender, with the limits of the receiver.\<close>

definition message_ok :: "bool \<Rightarrow> nat \<Rightarrow> message \<Rightarrow> bool" where
  "message_ok v m msg \<longleftrightarrow>
     (case msg of
        Text b \<Rightarrow> length b \<le> m \<and> (v \<longrightarrow> utf8_valid b)
      | Binary b \<Rightarrow> length b \<le> m
      | Ping b \<Rightarrow> length b \<le> 125
      | Pong b \<Rightarrow> length b \<le> 125
      | Close None \<Rightarrow> True
      | Close (Some r) \<Rightarrow> is_valid_code (code r) \<and> utf8_valid (reason r) \<and> length (reason r) \<le> 123)"

definition fits :: "nat \<Rightarrow> message \<Rightarrow> bool" where
  "fits mf msg \<longleftrightarrow> length (snd (message_frame msg)) \<le> mf \<and> length (snd (message_frame msg)) < 2 ^ 63"

definition mask_of_role :: "role \<Rightarrow> mask4 \<Rightarrow> mask4 option" where
  "mask_of_role r key = (if r = Client then Some key else None)"

definition sent_frame :: "role \<Rightarrow> mask4 \<times> message \<Rightarrow> frame" where
  "sent_frame r km = encoded_frame (fst (message_frame (snd km))) (snd (message_frame (snd km))) True (mask_of_role r (fst km)) False"

lemma encode_message_into_bytes:
  assumes "fits mf msg"
  shows "snd (encode_message_into pf key P msg buf) = buf @ frame_bytes (sent_frame (role P) (key, msg))"
    "role (fst (encode_message_into pf key P msg buf)) = role P"
  using assms
  by (cases msg; simp add: encode_message_into_def Let_def encode_frame_def encode_frame_with_rsv_eq fits_def sent_frame_def
      mask_for_def mask_of_role_def)+

lemma send_all_bytes:
  "list_all (\<lambda>km. fits mf (snd km)) kms \<Longrightarrow>
     snd (send_all pf P buf kms) = buf @ concat (map (frame_bytes \<circ> sent_frame (role P)) kms)"
proof (induction kms arbitrary: P buf)
  case (Cons km kms)
  then show ?case
    using encode_message_into_bytes [of mf "snd km" pf "fst km" P buf]
    by (cases "encode_message_into pf (fst km) P (snd km) buf") simp
qed simp

definition peer :: "role \<Rightarrow> role" where "peer r = (case r of Client \<Rightarrow> Server | Server \<Rightarrow> Client)"

lemma close_payload_size: "message_ok v m (Close r) \<Longrightarrow> length (close_payload r) \<le> 125"
  by (auto simp: message_ok_def close_payload_def split: option.splits)

lemma sent_frame_ok:
  assumes "message_ok v m msg" "fits mf msg"
  shows "frame_ok (reader_parser (peer r) mf) (sent_frame r (key, msg))"
proof -
  have "is_control (fst (message_frame msg)) \<longrightarrow> length (snd (message_frame msg)) \<le> 125"
    using assms(1) close_payload_size [of v m] by (cases msg) (auto simp: message_ok_def)
  then show ?thesis
    using assms(2) by (cases r) (auto simp: frame_ok_def header_ok_def sent_frame_def encoded_frame_def parser_new_def
        fits_def u64_len mask_of_role_def peer_def)
qed

lemma close_spec_payload:
  assumes "message_ok v m (Close r)"
  shows "close_spec (close_payload r) = Inr r"
proof (cases r)
  case (Some c)
  then have "is_valid_code (code c)" "utf8_valid (reason c)" using assms by (simp_all add: message_ok_def)
  moreover have "u16_from_be_bytes (take 2 (close_payload r)) = code c" "drop 2 (close_payload r) = reason c"
    "length (close_payload r) = 2 + length (reason c)"
    using Some by (simp_all add: close_payload_def)
  ultimately show ?thesis using Some by (auto simp: close_spec_def Let_def)
qed (simp add: close_spec_def close_payload_def)

text \<open>The reference gives back a message from its frame.\<close>

lemma assemble_sent:
  assumes "message_ok v m msg" "a_frag a = None"
  shows "assemble_frame v m a (sent_frame r (key, msg)) =
    Inr (Some msg, case msg of Close c \<Rightarrow> close_seen a c | _ \<Rightarrow> a)"
  using assms close_spec_payload [of v m]
  by (cases msg) (auto simp: assemble_frame_def sent_frame_def encoded_frame_def gather_def message_ok_def Let_def)

lemma close_seen_frag [simp]: "a_frag (close_seen a c) = a_frag a"
  by (cases "a_state a") (simp_all add: close_seen_def)

definition after_message :: "assembly \<Rightarrow> message \<Rightarrow> assembly" where
  "after_message a msg = (case msg of Close c \<Rightarrow> close_seen a c | _ \<Rightarrow> a)"

lemma assemble_sent_all:
  "list_all (\<lambda>km. message_ok v m (snd km)) kms \<Longrightarrow> a_frag a = None \<Longrightarrow>
     assemble (assemble_frame v m) a (map (sent_frame r) kms) = (map snd kms, None, foldl after_message a (map snd kms))"
proof (induction kms arbitrary: a)
  case (Cons km kms)
  have "a_frag (after_message a (snd km)) = None" using Cons.prems(2) by (simp add: after_message_def split: message.split)
  then show ?case
    using Cons assemble_sent [of v m "snd km" a r "fst km"] by (simp add: push_message_def after_message_def)
qed simp

lemma received_sent:
  assumes "list_all (\<lambda>km. message_ok v m (snd km) \<and> fits mf (snd km)) kms" "a_frag a = None"
  shows "received (assemble_frame v m) (incomplete_text v (reader_parser (peer r) mf)) (frame_spec (reader_parser (peer r) mf)) a
    (concat (map (frame_bytes \<circ> sent_frame r) kms)) = (map snd kms, None, foldl after_message a (map snd kms), [])"
proof -
  have "list_all (frame_ok (reader_parser (peer r) mf)) (map (sent_frame r) kms)"
    using assms(1) sent_frame_ok by (fastforce simp: list_all_iff)
  from items_of_frames [OF this] show ?thesis
    using assemble_sent_all [of v m kms a r] assms by (simp add: received_def list_all_iff)
qed

section \<open>Every call returns\<close>

text \<open>
  A frame that the parser gives takes bytes from the buffer or ends a frame in progress; no
  handler touches the parser. So the loops end from every state, also one that no connection
  reaches.
\<close>

definition backlog :: "frame_parser \<Rightarrow> bytes \<Rightarrow> nat" where
  "backlog p buf = length buf + (if p_state p = Header then 0 else 1)"

lemma header_with_length_backlog:
  assumes "header_with_length pf p buf op len n = (t, p', buf')" "p_state p = Header" "2 \<le> n" "2 \<le> length buf"
    and "t = Continue \<or> t = Return (Ok (Some f))"
  shows "backlog p' buf' < backlog p buf"
  using assms by (auto simp: header_with_length_def Let_def backlog_def split: result.splits if_splits)

lemma parse_step_backlog:
  assumes s: "parse_step pf p buf = (t, p', buf')"
  shows "t = Continue \<Longrightarrow> backlog p' buf' \<le> backlog p buf"
    "t = Return (Ok (Some f)) \<Longrightarrow> backlog p' buf' < backlog p buf"
proof -
  have "backlog p' buf' < backlog p buf" if h: "p_state p = Header" and t: "t = Continue \<or> t = Return (Ok (Some f))"
  proof -
    have "\<exists>op len n. header_with_length pf p buf op len n = (t, p', buf') \<and> 2 \<le> n \<and> 2 \<le> length buf"
      using s h t by (fastforce simp: parse_step_def step_header_def header_extended_def Let_def split: if_splits result.splits)
    then show ?thesis using header_with_length_backlog h t by blast
  qed
  moreover have "(t = Continue \<longrightarrow> backlog p' buf' \<le> backlog p buf) \<and> (t = Return (Ok (Some f)) \<longrightarrow> backlog p' buf' < backlog p buf)"
    if "p_state p \<noteq> Header"
    using s that
    by (auto simp: parse_step_def step_len16_def step_len64_def step_extended_def step_mask_def step_payload_def Let_def
        save_header_bytes_def backlog_def parser_reset_def split: parse_state.splits result.splits if_splits option.splits)
  ultimately show "t = Continue \<Longrightarrow> backlog p' buf' \<le> backlog p buf"
    "t = Return (Ok (Some f)) \<Longrightarrow> backlog p' buf' < backlog p buf"
    using less_imp_le by blast+
qed

lemma parse_backlog: "parse pf p buf = (Ok (Some f), p', buf') \<Longrightarrow> backlog p' buf' < backlog p buf"
  unfolding parse_is_slow
proof (induction pf p buf rule: parse_slow.induct)
  case (1 pf p buf)
  obtain t q b where s: "parse_step pf p buf = (t, q, b)" by (cases "parse_step pf p buf") auto
  show ?case
  proof (cases t)
    case Continue
    then have "backlog p' buf' < backlog q b" using 1 s by (auto simp: parse_slow.simps [of pf p buf])
    then show ?thesis using parse_step_backlog(1) [OF s Continue] by simp
  next
    case (Return r)
    then show ?thesis using 1(2) parse_step_backlog(2) [OF s, of f] s by (auto simp: parse_slow.simps [of pf p buf])
  qed
qed

lemma frame_loop_returns:
  fixes mu :: "'s \<Rightarrow> bytes \<Rightarrow> nat"
  assumes "\<And>s buf f s' buf'. next_frame s buf = (Ok (Some f), s', buf') \<Longrightarrow> mu s' buf' < mu s buf"
    and "\<And>s f m s' buf. handle s f = (Ok m, s') \<Longrightarrow> mu s' buf = mu s buf"
  shows "\<exists>out. frame_loop next_frame handle wait s buf = Some out"
proof (induction "mu s buf" arbitrary: s buf rule: less_induct)
  case less
  obtain r s1 buf1 where n: "next_frame s buf = (r, s1, buf1)" by (cases "next_frame s buf") auto
  show ?case
  proof (cases "\<exists>f. r = Ok (Some f)")
    case True
    then obtain f where f: "r = Ok (Some f)" by blast
    obtain r2 s2 where h: "handle s1 f = (r2, s2)" by force
    have "\<exists>out. frame_loop next_frame handle wait s2 buf1 = Some out" if "r2 = Ok m" for m
      using less assms(1) [OF n [unfolded f]] assms(2) [OF h [unfolded that], of buf1] by simp
    then show ?thesis using n f h by (cases r2) (auto simp: frame_loop.simps [of _ _ _ s buf])
  next
    case False
    then show ?thesis
      using n by (cases r) (auto simp: frame_loop.simps [of _ _ _ s buf] split: option.split prod.split)
  qed
qed

lemma push_utf8_keeps: "push_utf8 pf P c = (r, P') \<Longrightarrow> parser P' = parser P \<and> role P' = role P"
  by (auto simp: push_utf8_def split: result.splits prod.splits)

lemma resume_utf8_keeps: "resume_utf8 pf P = (r, P') \<Longrightarrow> parser P' = parser P \<and> role P' = role P"
  by (auto simp: resume_utf8_def Let_def split: result.splits prod.splits)

lemma validate_continuation_keeps: "validate_continuation pf P d k = (r, P') \<Longrightarrow> parser P' = parser P \<and> role P' = role P"
  by (auto simp: validate_continuation_def dest!: push_utf8_keeps resume_utf8_keeps split: if_splits result.splits prod.splits)

lemma handle_complete_data_keeps: "handle_complete_data pf P op d k = (r, P') \<Longrightarrow> parser P' = parser P \<and> role P' = role P"
  by (auto simp: handle_complete_data_def dest: push_utf8_keeps split: if_splits result.splits prod.splits)

lemma start_fragment_keeps: "start_fragment pf P op d k = (r, P') \<Longrightarrow> parser P' = parser P \<and> role P' = role P"
  by (auto simp: start_fragment_def Let_def dest!: push_utf8_keeps split: if_splits result.splits prod.splits)

lemma complete_fragment_keeps: "complete_fragment P op = (r, P') \<Longrightarrow> parser P' = parser P \<and> role P' = role P"
  by (cases op) (auto simp: complete_fragment_def Let_def split: if_splits)

lemma complete_raw_fragment_keeps: "complete_raw_fragment P op = (r, P') \<Longrightarrow> parser P' = parser P \<and> role P' = role P"
  by (cases op) (auto simp: complete_raw_fragment_def Let_def split: if_splits)

lemma handle_raw_continuation_keeps: "handle_raw_continuation P f = (r, P') \<Longrightarrow> parser P' = parser P \<and> role P' = role P"
  by (auto simp: handle_raw_continuation_def Let_def dest!: complete_raw_fragment_keeps split: if_splits option.splits)

lemma handle_continuation_keeps: "handle_continuation pf P f k = (r, P') \<Longrightarrow> parser P' = parser P \<and> role P' = role P"
  by (auto simp: handle_continuation_def Let_def split: if_splits result.splits prod.splits option.splits
      dest!: validate_continuation_keeps complete_fragment_keeps handle_raw_continuation_keeps)

lemma handle_raw_data_keeps: "handle_raw_data P op con f = (r, P') \<Longrightarrow> parser P' = parser P \<and> role P' = role P"
  by (auto simp: handle_raw_data_def start_raw_fragment_def Let_def split: if_splits result.splits prod.splits)

lemma handle_close_keeps: "handle_close pf P f = (r, P') \<Longrightarrow> parser P' = parser P \<and> role P' = role P"
  by (auto simp: handle_close_def split: result.splits conn_state.splits)

lemmas handler_keeps = handle_complete_data_keeps start_fragment_keeps handle_continuation_keeps handle_raw_data_keeps
  handle_close_keeps handle_raw_continuation_keeps

lemma handle_frame_keeps: "handle_frame pf P f k = (r, P') \<Longrightarrow> parser P' = parser P \<and> role P' = role P"
  by (auto simp: handle_frame_def handle_text_def handle_binary_def handle_raw_text_def handle_ping_def handle_pong_def
      split: opcode.splits if_splits prod.splits dest!: handler_keeps)

lemma handle_raw_frame_keeps: "handle_raw_frame pf P f = (r, P') \<Longrightarrow> parser P' = parser P \<and> role P' = role P"
  by (auto simp: handle_raw_frame_def handle_raw_text_def handle_raw_binary_def
      split: opcode.splits prod.splits result.splits option.splits message.splits dest!: handler_keeps)

lemma take_and_handle_keeps: "take_and_handle pf P f = (r, P') \<Longrightarrow> parser P' = parser P \<and> role P' = role P"
  by (auto simp: take_and_handle_def Let_def dest!: handle_frame_keeps)

lemma prevalidate_keeps: "prevalidate_partial_text pf P buf = (r, P') \<Longrightarrow> parser P' = parser P \<and> role P' = role P"
  by (auto simp: prevalidate_partial_text_def Let_def dest!: push_utf8_keeps resume_utf8_keeps
      split: if_splits result.splits prod.splits option.splits)

lemma protocol_parse_backlog:
  "protocol_parse pf P buf = (Ok (Some f), P', buf') \<Longrightarrow> backlog (parser P') buf' < backlog (parser P) buf"
  by (auto simp: protocol_parse_def split: prod.splits dest: parse_backlog)

lemma process_into_total: "\<exists>out. process_into_with_activity pf P buf = Some out"
  unfolding process_into_with_activity_def
  by (rule frame_loop_returns [where mu = "\<lambda>P. backlog (parser P)"])
    (auto dest: protocol_parse_backlog take_and_handle_keeps)

lemma process_raw_into_total: "\<exists>out. process_raw_into pf P buf = Some out"
  unfolding process_raw_into_def
  by (rule frame_loop_returns [where mu = "\<lambda>P. backlog (parser P)"])
    (auto dest: protocol_parse_backlog handle_raw_frame_keeps)

text \<open>What no step changes, the loop does not change.\<close>

lemma frame_loop_keeps:
  assumes "frame_loop next_frame handle wait s buf = Some out"
    and "\<forall>s buf. g (fst (snd (next_frame s buf))) = g s" "\<forall>s f. g (snd (handle s f)) = g s" "\<forall>s buf. g (snd (wait s buf)) = g s"
  shows "g (fst (snd (snd (snd out)))) = g s"
proof -
  let ?kept = "\<lambda>next_frame handle wait s (buf :: bytes) out.
    (\<forall>s buf. g (fst (snd (next_frame s buf))) = g s) \<longrightarrow> (\<forall>s f. g (snd (handle s f)) = g s) \<longrightarrow>
    (\<forall>s buf. g (snd (wait s buf)) = g s) \<longrightarrow> g (fst (snd (snd (snd out)))) = g s"
  have "?kept next_frame handle wait s buf out"
  proof (rule frame_loop.raw_induct [where P = ?kept, OF _ assms(1)], intro impI)
    fix loop next_frame handle wait s and buf :: bytes and out
    assume IH: "\<And>next_frame handle wait s (buf :: bytes) out.
        loop next_frame handle wait s buf = Some out \<Longrightarrow> ?kept next_frame handle wait s buf out"
      and step: "(if buf = [] then Some (Ok (), [], False, s, buf)
        else case next_frame s buf of
          (Err e, s, buf) \<Rightarrow> Some (Err e, [], False, s, buf)
        | (Panic, s, buf) \<Rightarrow> Some (Panic, [], False, s, buf)
        | (Ok None, s, buf) \<Rightarrow> (case wait s buf of (r, s) \<Rightarrow> Some (r, [], False, s, buf))
        | (Ok (Some f), s, buf) \<Rightarrow>
            (case handle s f of
               (Err e, s) \<Rightarrow> Some (Err e, [], False, s, buf)
             | (Panic, s) \<Rightarrow> Some (Panic, [], False, s, buf)
             | (Ok m, s) \<Rightarrow>
                 Option.bind (loop next_frame handle wait s buf) (\<lambda>(r, ms, fragment, s, buf).
                   Some (r, (case m of Some m \<Rightarrow> m # ms | None \<Rightarrow> ms), fragment \<or> m = None, s, buf)))) = Some out"
      and keep: "\<forall>s buf. g (fst (snd (next_frame s buf))) = g s" "\<forall>s f. g (snd (handle s f)) = g s"
        "\<forall>s buf. g (snd (wait s buf)) = g s"
    obtain r s1 buf1 where n: "next_frame s buf = (r, s1, buf1)" by (cases "next_frame s buf") auto
    have s1: "g s1 = g s" using keep(1) n by (metis fst_conv snd_conv)
    show "g (fst (snd (snd (snd out)))) = g s"
    proof (cases "\<exists>f. buf \<noteq> [] \<and> r = Ok (Some f)")
      case True
      then obtain f where f: "r = Ok (Some f)" "buf \<noteq> []" by blast
      obtain r2 s2 where h: "handle s1 f = (r2, s2)" by force
      have s2: "g s2 = g s" using keep(2) h s1 by (metis snd_conv)
      show ?thesis
        using step n f h s2 by (cases r2) (auto simp: bind_eq_Some_conv dest!: IH [rule_format, OF _ keep [rule_format]])
    next
      case False
      then show ?thesis
        using step n s1 keep(3) by (cases r) (auto split: if_splits option.splits prod.splits, metis snd_conv)
    qed
  qed
  then show ?thesis using assms(2-4) by blast
qed

lemma role_kept:
  "role (snd (take_and_handle pf P f)) = role P" "role (snd (prevalidate_partial_text pf P buf)) = role P"
  "role (fst (snd (protocol_parse pf P buf))) = role P"
  by (metis take_and_handle_keeps prod.collapse, metis prevalidate_keeps prod.collapse, simp add: protocol_parse_def split: prod.split)

lemma process_into_role: "process_into pf P buf = Some (r, ms, fr, P', buf') \<Longrightarrow> role P' = role P"
  unfolding process_into_def process_into_with_activity_def
  by (drule frame_loop_keeps [where g = role]) (simp_all add: role_kept)

lemma receive_role: "receive (process_into pf) P buf cs = Some (ms, r, P', buf') \<Longrightarrow> role P' = role P"
proof (induction cs arbitrary: P buf ms)
  case (Cons c cs)
  then obtain r1 ms1 fr P1 b1 where p: "process_into pf P (buf @ c) = Some (r1, ms1, fr, P1, b1)"
    by (auto simp: bind_eq_Some_conv)
  then show ?case using Cons process_into_role [OF p] by (cases r1) (auto simp: bind_eq_Some_conv)
qed simp

section \<open>One message at a time\<close>

text \<open>Calling \<^verbatim>\<open>process_next\<close> until it gives no message.\<close>

partial_function (option) drain_next :: "platform \<Rightarrow> protocol \<Rightarrow> bytes \<Rightarrow> (protocol, message) reader option" where
  "drain_next pf P buf =
     Option.bind (process_next_with_activity pf P buf) (\<lambda>(r, fragment, P, buf).
       case r of
         Ok (Some m) \<Rightarrow> Option.bind (drain_next pf P buf) (\<lambda>(r, ms, fragment', P, buf).
             Some (r, m # ms, fragment \<or> fragment', P, buf))
       | Ok None \<Rightarrow> Some (Ok (), [], fragment, P, buf)
       | Err e \<Rightarrow> Some (Err e, [], fragment, P, buf)
       | Panic \<Rightarrow> Some (Panic, [], fragment, P, buf))"

text \<open>The detour over \<^verbatim>\<open>try_parse_complete_unmasked_data\<close> is the parser and the handler of a frame.\<close>

lemma complete_data_opcode:
  "try_parse_complete_unmasked_data p buf = (Some (op, d), buf') \<Longrightarrow> op = OpText \<or> op = OpBinary"
  by (auto simp: try_parse_complete_unmasked_data_def Let_def split: if_splits option.splits)

lemma handle_complete_frame:
  assumes "op = OpText \<or> op = OpBinary" "h_opcode (f_header f) = op" "h_fin (f_header f)"
  shows "take_and_handle pf P f =
    (case handle_complete_data pf (P\<lparr>partial_checked := 0\<rparr>) op (f_payload f) (partial_checked P) of (r, P) \<Rightarrow> (map_result Some r, P))"
  using assms by (auto simp: take_and_handle_def handle_frame_def handle_text_def handle_binary_def handle_complete_data_def Let_def)

lemma process_next_eq:
  "process_next_with_activity pf P buf =
     (if buf = [] then Some (Ok None, False, P, buf)
      else case protocol_parse pf P buf of
        (Err e, P, buf) \<Rightarrow> Some (Err e, False, P, buf)
      | (Panic, P, buf) \<Rightarrow> Some (Panic, False, P, buf)
      | (Ok None, P, buf) \<Rightarrow>
          (case prevalidate_partial_text pf P buf of (r, P) \<Rightarrow> Some (map_result (\<lambda>_. None) r, False, P, buf))
      | (Ok (Some f), P, buf) \<Rightarrow>
          (case take_and_handle pf P f of
             (Err e, P) \<Rightarrow> Some (Err e, False, P, buf)
           | (Panic, P) \<Rightarrow> Some (Panic, False, P, buf)
           | (Ok (Some m), P) \<Rightarrow> Some (Ok (Some m), False, P, buf)
           | (Ok None, P) \<Rightarrow>
               Option.bind (process_next_with_activity pf P buf) (\<lambda>(r, _, P, buf). Some (r, True, P, buf))))"
proof -
  obtain res buf' where t: "try_parse_complete_unmasked_data (parser P) buf = (res, buf')" by force
  show ?thesis
  proof (cases res)
    case (Some v)
    then obtain op d where v: "v = (op, d)" by force
    have op: "op = OpText \<or> op = OpBinary" using t Some v complete_data_opcode by blast
    obtain r P' where h: "handle_complete_data pf (P\<lparr>partial_checked := 0\<rparr>) op d (partial_checked P) = (r, P')" by force
    show ?thesis
      using t Some v op h
      by (subst process_next_with_activity.simps)
        (cases r; simp add: protocol_parse_def parse_def handle_complete_frame [OF op])
  next
    case None
    then show ?thesis
      using t
      by (subst process_next_with_activity.simps)
        (auto simp: protocol_parse_def parse_def split: prod.split result.split option.split)
  qed
qed

lemma drain_next_eq: "drain_next pf P buf = process_into_with_activity pf P buf"
proof (induction "backlog (parser P) buf" arbitrary: P buf rule: less_induct)
  case less
  obtain r P1 buf1 where n: "protocol_parse pf P buf = (r, P1, buf1)" by (cases "protocol_parse pf P buf") auto
  show ?case
  proof (cases "buf \<noteq> [] \<and> (\<exists>f. r = Ok (Some f))")
    case True
    then obtain f where f: "r = Ok (Some f)" and b: "buf \<noteq> []" by blast
    obtain r2 P2 where h: "take_and_handle pf P1 f = (r2, P2)" by force
    have "backlog (parser P2) buf1 < backlog (parser P) buf"
      using protocol_parse_backlog n f take_and_handle_keeps [OF h] by simp
    from less [OF this] have IH: "drain_next pf P2 buf1 = process_into_with_activity pf P2 buf1" .
    show ?thesis
    proof (cases "r2 = Ok None")
      case True
      have "drain_next pf P buf = Option.bind (drain_next pf P2 buf1) (\<lambda>(r, ms, fr, P, buf). Some (r, ms, True, P, buf))"
        using n f b h True process_next_eq [of pf P buf]
        by (subst drain_next.simps, subst (2) drain_next.simps)
          (auto split: option.split result.split prod.split bind_split intro!: Option.bind_cong simp: bind_eq_None_conv)
      then show ?thesis
        using IH n f b h True
        unfolding process_into_with_activity_def by (subst frame_loop.simps) (auto intro: Option.bind_cong)
    next
      case False
      then show ?thesis
        using IH n f b h process_next_eq [of pf P buf] unfolding process_into_with_activity_def
        by (subst drain_next.simps, subst frame_loop.simps) (auto split: result.split option.split)
    qed
  next
    case False
    then show ?thesis
      using n process_next_eq [of pf P buf] unfolding process_into_with_activity_def
      by (subst drain_next.simps, subst frame_loop.simps) (auto split: result.split option.split prod.split)
  qed
qed

section \<open>What a reader may deliver\<close>

lemma assemble_frame_ok:
  assumes "assemble_frame v m a f = Inr (Some msg, a')" "frame_ok p f"
  shows "message_ok v m msg"
proof -
  have len: "is_control (h_opcode (f_header f)) \<longrightarrow> length (f_payload f) \<le> 125"
    using assms(2) by (auto simp: frame_ok_def header_ok_def)
  have gather: "message_ok v m msg" if "gather v m a op d fin = Inr (Some msg, a')" for op d fin
    using that by (auto simp: gather_def message_ok_def split: if_splits)
  show ?thesis
  proof (cases "h_opcode (f_header f)")
    case OpClose
    then show ?thesis
      using assms(1) len
      by (auto simp: assemble_frame_def close_spec_def message_ok_def Let_def split: sum.splits if_splits)
  qed (use assms(1) len gather in \<open>auto simp: assemble_frame_def message_ok_def Let_def split: if_splits option.splits\<close>)
qed

lemma assemble_list_ok:
  assumes "\<And>a f m a'. ref a f = Inr (Some m, a') \<Longrightarrow> ok f \<Longrightarrow> good m"
  shows "list_all ok fs \<Longrightarrow> assemble ref a fs = (ms, e, a') \<Longrightarrow> list_all good ms"
proof (induction fs arbitrary: a ms)
  case (Cons f fs)
  then show ?case
    using assms by (fastforce simp: push_message_def split: sum.splits prod.splits option.splits)
qed simp

lemma received_ok:
  assumes "\<And>a f m a'. ref a f = Inr (Some m, a') \<Longrightarrow> frame_ok p f \<Longrightarrow> good m"
    and "received ref w (frame_spec p) a raw = (ms, e, a', rest)"
  shows "list_all good ms"
  using assms(2) assemble_list_ok [of ref "frame_ok p" good, OF assms(1)] items_of_frame_bytes [of p raw]
  by (fastforce simp: received_def split: prod.splits)

section \<open>Typed and raw calls mixed\<close>

datatype reader_call = Typed bytes | Raw bytes

datatype delivery = GotMessage message | GotRaw raw_message

definition read_call :: "platform \<Rightarrow> protocol \<Rightarrow> bytes \<Rightarrow> reader_call \<Rightarrow> (unit ws_result \<times> delivery list \<times> protocol \<times> bytes) option" where
  "read_call pf P buf c =
     (case c of
        Typed x \<Rightarrow> map_option (\<lambda>(r, ms, _, P, buf). (r, map GotMessage ms, P, buf)) (process_into pf P (buf @ x))
      | Raw x \<Rightarrow> map_option (\<lambda>(r, ms, _, P, buf). (r, map GotRaw ms, P, buf)) (process_raw_into pf P (buf @ x)))"

fun read_calls :: "platform \<Rightarrow> protocol \<Rightarrow> bytes \<Rightarrow> reader_call list \<Rightarrow> (unit ws_result \<times> delivery list \<times> protocol \<times> bytes) option" where
  "read_calls pf P buf [] = Some (Ok (), [], P, buf)"
| "read_calls pf P buf (c # cs) =
     Option.bind (read_call pf P buf c) (\<lambda>(r, ds, P, buf).
       case r of
         Ok _ \<Rightarrow> Option.bind (read_calls pf P buf cs) (\<lambda>(r, ds', P, buf). Some (r, ds @ ds', P, buf))
       | _ \<Rightarrow> Some (r, ds, P, buf))"

definition raw_ok :: "nat \<Rightarrow> raw_message \<Rightarrow> bool" where
  "raw_ok m r \<longleftrightarrow> (\<exists>msg. r = raw_of msg \<and> message_ok False m msg)"

definition delivery_ok :: "bool \<Rightarrow> nat \<Rightarrow> delivery \<Rightarrow> bool" where
  "delivery_ok v m d = (case d of GotMessage msg \<Rightarrow> message_ok v m msg | GotRaw r \<Rightarrow> raw_ok m r)"

lemma process_raw_into_run: "process_raw_into pf =
    frame_loop (protocol_parse pf) (\<lambda>P f. handle_raw_frame pf (P\<lparr>partial_checked := 0\<rparr>) f) (\<lambda>P _. (Ok (), P))"
  by (simp add: process_raw_into_def)

lemma receiving_nothing:
  assumes "receiving pf p0 v m P buf raw a" "buf = [] \<longrightarrow> frame_spec p0 raw = More"
  shows "buf = [] \<longrightarrow> frame_spec p0 raw = More \<and> incomplete_text v p0 a raw = None"
  using assms by (simp add: receiving_def)

lemma read_call_ok:
  assumes "receiving pf p0 v m P buf raw a" "frame_spec p0 raw = More"
  shows "\<exists>r ds P' buf'. read_call pf P buf c = Some (r, ds, P', buf') \<and> r \<noteq> Panic \<and> list_all (delivery_ok v m) ds
    \<and> (is_Ok r \<longrightarrow> (\<exists>raw' a'. receiving pf p0 v m P' buf' raw' a' \<and> frame_spec p0 raw' = More))"
proof (cases c)
  case (Typed x)
  have rel: "receiving pf p0 v m P (buf @ x) (raw @ x) a" using assms(1) by (rule protocol_reader.rel_append)
  have "buf @ x = [] \<longrightarrow> frame_spec p0 (raw @ x) = More \<and> incomplete_text v p0 a (raw @ x) = None"
    by (rule receiving_nothing [OF rel]) (use assms(2) in simp)
  note ret = protocol_reader.run_meaning [OF rel this]
  obtain ms e a' rest where m: "received (assemble_frame v m) (incomplete_text v p0) (frame_spec p0) a (raw @ x) = (ms, e, a', rest)"
    by (cases "received (assemble_frame v m) (incomplete_text v p0) (frame_spec p0) a (raw @ x)") auto
  have "list_all (message_ok v m) ms" by (rule received_ok [OF assemble_frame_ok m])
  then have d: "list_all (delivery_ok v m) (map GotMessage ms)" by (simp add: list_all_iff delivery_ok_def)
  show ?thesis
    using ret d Typed unfolding m protocol_reader.returns_def process_into_run [symmetric]
    by (cases e) (auto simp: read_call_def protocol_reader.ready_def, blast)
next
  case (Raw x)
  have rel: "receiving pf p0 v m P (buf @ x) (raw @ x) a" using assms(1) by (rule protocol_reader.rel_append)
  have "buf @ x = [] \<longrightarrow> frame_spec p0 (raw @ x) = More \<and> None = None"
    using assms(2) by simp
  note ret = raw_reader.run_meaning [OF rel this]
  obtain ms e a' rest where m: "received (assemble_raw m) (\<lambda>_ _. None) (frame_spec p0) a (raw @ x) = (ms, e, a', rest)"
    by (cases "received (assemble_raw m) (\<lambda>_ _. None) (frame_spec p0) a (raw @ x)") auto
  have "list_all (raw_ok m) ms"
    by (rule received_ok [OF _ m])
      (auto simp: assemble_raw_def raw_ok_def split: sum.splits prod.splits dest: assemble_frame_ok)
  then have d: "list_all (delivery_ok v m) (map GotRaw ms)" by (simp add: list_all_iff delivery_ok_def)
  show ?thesis
    using ret d Raw unfolding m raw_reader.returns_def process_raw_into_run [symmetric]
    by (cases e) (auto simp: read_call_def raw_reader.ready_def, blast)
qed

lemma read_calls_ok:
  "receiving pf p0 v m P buf raw a \<Longrightarrow> frame_spec p0 raw = More \<Longrightarrow>
     \<exists>r ds P' buf'. read_calls pf P buf cs = Some (r, ds, P', buf') \<and> r \<noteq> Panic \<and> list_all (delivery_ok v m) ds"
proof (induction cs arbitrary: P buf raw a)
  case (Cons c cs)
  obtain r ds P' buf' where c: "read_call pf P buf c = Some (r, ds, P', buf')" "r \<noteq> Panic" "list_all (delivery_ok v m) ds"
    and n: "is_Ok r \<longrightarrow> (\<exists>raw' a'. receiving pf p0 v m P' buf' raw' a' \<and> frame_spec p0 raw' = More)"
    using read_call_ok [OF Cons.prems, of c] by blast
  show ?case
  proof (cases r)
    case (Ok u)
    then obtain raw' a' where "receiving pf p0 v m P' buf' raw' a'" "frame_spec p0 raw' = More" using n by auto
    from Cons.IH [OF this] show ?thesis using c Ok by auto
  qed (use c in auto)
qed simp

lemma close_received:
  assumes "platform_ok pf" "message_ok v mm (Close c)" "fits mf (Close c)"
    and "concat cs = frame_bytes (sent_frame (peer r) (k, Close c))" "s = Open \<or> s = CloseSent"
  shows "\<exists>B. receive (process_into pf) ((start_protocol r mf mm v)\<lparr>state := s\<rparr>) [] cs = Some ([Close c], Ok (), B, [])
    \<and> state B = (if s = Open then CloseReceived else Closed) \<and> (s = Open \<longrightarrow> pending_close B = c) \<and> role B = r"
proof -
  let ?a = "assembly_start\<lparr>a_state := s\<rparr>"
  have pp: "peer (peer r) = r" by (cases r) (simp_all add: peer_def)
  have "list_all (\<lambda>km. message_ok v mm (snd km) \<and> fits mf (snd km)) [(k, Close c)]" using assms(2,3) by simp
  from received_sent [OF this, of ?a "peer r"]
  have "received (assemble_frame v mm) (incomplete_text v (reader_parser r mf)) (frame_spec (reader_parser r mf)) ?a (concat cs)
      = ([Close c], None, close_seen ?a c, [])"
    using assms(4) pp by (simp add: assembly_start_def after_message_def)
  then obtain res B buf where B: "receive (process_into pf) ((start_protocol r mf mm v)\<lparr>state := s\<rparr>) [] cs = Some ([Close c], res, B, buf)"
    "res = Ok ()" "protocol_reader.ready (reader_parser r mf) v pf mm B buf [] (close_seen ?a c)"
    by (rule receive_start [OF assms(1)]) auto
  have "role B = r"
    using receive_role [OF B(1)] by (simp add: start_protocol_def with_text_utf8_validation_def protocol_new_def)
  then show ?thesis using B(1,2) ready_done [OF B(3)] assms(5) by (auto simp: close_seen_def assembly_start_def)
qed

section \<open>Properties\<close>

text \<open>
  C1. The messages of a connection: for every way the transport cuts its input, the calls of
  \<^verbatim>\<open>process_into\<close> return, do not panic, and give in order the messages of the reference reader on the
  whole input. They fail when it fails, with its error; only the check of a text that is not
  complete may come before the limit on messages is met. Without a failure the state of the
  closing handshake and the stored close reason are those of the reference.
\<close>

theorem protocol_any_chunking:
  assumes "platform_ok pf"
    and "received (assemble_frame v mm) (incomplete_text v (reader_parser r mf)) (frame_spec (reader_parser r mf))
      assembly_start (concat cs) = (ms, e, a, rest)"
  shows "\<exists>res P' buf'. receive (process_into pf) (start_protocol r mf mm v) [] cs = Some (ms, res, P', buf') \<and>
    (case e of
       None \<Rightarrow> res = Ok () \<and> state P' = a_state a \<and> pending_close P' = a_close a
     | Some e \<Rightarrow> res = Err e \<or> e = MessageTooLarge \<and> (\<exists>e'. res = Err e'))"
proof -
  have st: "(start_protocol r mf mm v)\<lparr>state := Open\<rparr> = start_protocol r mf mm v" "assembly_start\<lparr>a_state := Open\<rparr> = assembly_start"
    by (simp_all add: start_protocol_def with_text_utf8_validation_def protocol_new_def assembly_start_def)
  show ?thesis
    by (rule receive_start [OF assms(1), of v mm mf r Open cs ms e a rest]) (use assms st in \<open>auto split: option.splits dest: ready_state\<close>)
qed

theorem protocol_any_chunking_witness:
  "\<exists>P' buf'. receive (process_into std_platform) (start_protocol Client 100 100 True) [] [[0x01], [1, 0xE2, 0x80], [2, 0x82, 0xAC, 0x88], [2, 3, 0xE8]]
     = Some ([Text [0xE2, 0x82, 0xAC], Close (Some \<lparr>code = 1000, reason = []\<rparr>)], Ok (), P', buf') \<and> state P' = CloseReceived"
proof -
  have "received (assemble_frame True 100) (incomplete_text True (reader_parser Client 100)) (frame_spec (reader_parser Client 100))
      assembly_start [0x01, 1, 0xE2, 0x80, 2, 0x82, 0xAC, 0x88, 2, 3, 0xE8]
      = ([Text [0xE2, 0x82, 0xAC], Close (Some \<lparr>code = 1000, reason = []\<rparr>)], None,
         \<lparr>a_frag = None, a_state = CloseReceived, a_close = Some \<lparr>code = 1000, reason = []\<rparr>\<rparr>, [])"
    by code_simp
  then show ?thesis
    using protocol_any_chunking [of std_platform True 100 100 Client "[[0x01], [1, 0xE2, 0x80], [2, 0x82, 0xAC, 0x88], [2, 3, 0xE8]]"]
    by auto
qed

text \<open>
  C2. Round trip of messages: what one end encodes, received by the other end in arbitrary
  pieces, is delivered as the same messages in the same order, with nothing left over.
\<close>

theorem message_roundtrip:
  assumes "platform_ok pf" "role S = peer r"
    and "list_all (\<lambda>km. message_ok v mm (snd km) \<and> fits mf (snd km)) kms"
    and "concat cs = snd (send_all pf S [] kms)"
  shows "\<exists>P'. receive (process_into pf) (start_protocol r mf mm v) [] cs = Some (map snd kms, Ok (), P', [])"
proof -
  have pp: "peer (peer r) = r" by (cases r) (simp_all add: peer_def)
  have "list_all (\<lambda>km. fits mf (snd km)) kms" using assms(3) by (simp add: list_all_iff)
  from send_all_bytes [OF this] have b: "concat cs = concat (map (frame_bytes \<circ> sent_frame (peer r)) kms)"
    using assms(2,4) by simp
  have st: "(start_protocol r mf mm v)\<lparr>state := Open\<rparr> = start_protocol r mf mm v"
    by (simp add: start_protocol_def with_text_utf8_validation_def protocol_new_def)
  show ?thesis
    by (rule receive_start [OF assms(1), of v mm mf r Open cs])
      (use received_sent [OF assms(3), of "assembly_start\<lparr>a_state := Open\<rparr>" "peer r"] b pp st in
        \<open>auto simp: assembly_start_def dest!: ready_done\<close>)
qed

theorem message_roundtrip_witness:
  "\<exists>P'. receive (process_into std_platform) (start_protocol Server 100 100 True) []
      [snd (send_all std_platform (start_protocol Client 50 50 True) [] [((1, 2, 3, 4), Text [72, 105]), ((5, 6, 7, 8), Close None)])]
    = Some ([Text [72, 105], Close None], Ok (), P', [])"
proof -
  let ?kms = "[((1, 2, 3, 4), Text [72, 105]), ((5, 6, 7, 8), Close None)]"
  have "list_all (\<lambda>km. message_ok True 100 (snd km) \<and> fits 100 (snd km)) ?kms"
    by (simp add: message_ok_def fits_def close_payload_def)
  moreover have "role (start_protocol Client 50 50 True) = peer Server"
    by (simp add: start_protocol_def with_text_utf8_validation_def protocol_new_def peer_def)
  ultimately show ?thesis
    using message_roundtrip [of std_platform "start_protocol Client 50 50 True" Server True 100 100 ?kms
        "[snd (send_all std_platform (start_protocol Client 50 50 True) [] ?kms)]"]
    by simp
qed

text \<open>
  C3. What a connection delivers: over every sequence of typed and raw calls, none panics, every
  data message is within the limit, every typed text is valid UTF-8 if validation is on, also
  one whose beginning a raw call has read, control payloads have at most 125 bytes, and close
  reasons have a valid code and valid text.
\<close>

theorem deliveries_ok:
  assumes "platform_ok pf"
  shows "\<exists>res ds P' buf'. read_calls pf (start_protocol r mf mm v) [] cs = Some (res, ds, P', buf')
    \<and> res \<noteq> Panic \<and> list_all (delivery_ok v mm) ds"
proof -
  have st: "(start_protocol r mf mm v)\<lparr>state := Open\<rparr> = start_protocol r mf mm v"
    by (simp add: start_protocol_def with_text_utf8_validation_def protocol_new_def)
  have "receiving pf (reader_parser r mf) v mm (start_protocol r mf mm v) [] [] (assembly_start\<lparr>a_state := Open\<rparr>)"
    using ready_start [OF assms, where r = r and mf = mf and v = v and mm = mm and s = Open] st by (simp add: protocol_reader.ready_def)
  from read_calls_ok [OF this] show ?thesis by simp
qed

theorem deliveries_ok_witness:
  "platform_ok std_platform \<and> (\<exists>res ds P' buf'.
     read_calls std_platform (start_protocol Client 100 100 True) [] [Raw [0x01, 1, 0xE2], Typed [0x80, 2, 0x82, 0xAC]] = Some (res, ds, P', buf')
       \<and> res \<noteq> Panic \<and> list_all (delivery_ok True 100) ds)"
  using deliveries_ok [of std_platform Client 100 100 True "[Raw [0x01, 1, 0xE2], Typed [0x80, 2, 0x82, 0xAC]]"] std_platform_ok by blast

text \<open>
  C4. The closing handshake completes: one end sends a close frame, the other end receives it
  in any pieces, gives the message and answers, the first end receives the answer in any
  pieces, and both are closed.
\<close>

theorem closing_handshake:
  assumes "platform_ok pf" "message_ok v mm (Close c)" "fits mf (Close c)"
    and "encode_message_into pf k (start_protocol r mf mm v) (Close c) [] = (A, out)" "concat cs = out"
  shows "\<exists>B. receive (process_into pf) (start_protocol (peer r) mf mm v) [] cs = Some ([Close c], Ok (), B, [])
    \<and> is_closing B \<and> \<not> is_closed B
    \<and> (\<forall>B' reply ds. encode_close_response pf k' B [] = (B', reply) \<and> concat ds = reply \<longrightarrow>
         is_closed B' \<and> (\<exists>A'. receive (process_into pf) A [] ds = Some ([Close c], Ok (), A', []) \<and> is_closed A'))"
proof -
  have st: "(start_protocol q mf mm v)\<lparr>state := Open\<rparr> = start_protocol q mf mm v" "role (start_protocol q mf mm v) = q" for q
    by (simp_all add: start_protocol_def with_text_utf8_validation_def protocol_new_def)
  have A: "A = (start_protocol r mf mm v)\<lparr>state := CloseSent\<rparr>"
    using assms(4) by (auto simp: encode_message_into_def Let_def start_protocol_def with_text_utf8_validation_def protocol_new_def)
  have out: "concat cs = frame_bytes (sent_frame r (k, Close c))"
    using encode_message_into_bytes(1) [OF assms(3), of pf k "start_protocol r mf mm v" "[]"] assms(4,5) st(2) by simp
  have pp: "peer (peer r) = r" by (cases r) (simp_all add: peer_def)
  obtain B where B: "receive (process_into pf) (start_protocol (peer r) mf mm v) [] cs = Some ([Close c], Ok (), B, [])"
    "state B = CloseReceived" "pending_close B = c" "role B = peer r"
    using close_received [OF assms(1-3), where r = "peer r" and s = Open and k = k and cs = cs] out pp st(1) by auto
  have answer: "is_closed B' \<and> (\<exists>A'. receive (process_into pf) A [] ds = Some ([Close c], Ok (), A', []) \<and> is_closed A')"
    if e: "encode_close_response pf k' B [] = (B', reply)" "concat ds = reply" for B' reply ds
  proof -
    have "reply = frame_bytes (sent_frame (peer r) (k', Close c))" "B' = B\<lparr>state := Closed\<rparr>"
      using e(1) B(2-4) assms(3)
      by (simp_all add: encode_close_response_def encode_frame_def encode_frame_with_rsv_eq fits_def sent_frame_def
          mask_for_def mask_of_role_def)
    then show ?thesis
      using close_received [OF assms(1-3), where r = r and s = CloseSent and k = k' and cs = ds] e(2) A
      by (auto simp: is_closed_def)
  qed
  show ?thesis using B answer by (auto simp: is_closed_def is_closing_def)
qed

theorem closing_handshake_witness:
  "\<exists>B. receive (process_into std_platform) (start_protocol Server 100 100 True) []
       [snd (encode_message_into std_platform (1, 2, 3, 4) (start_protocol Client 100 100 True) (Close (Some \<lparr>code = 1000, reason = [98]\<rparr>)) [])]
     = Some ([Close (Some \<lparr>code = 1000, reason = [98]\<rparr>)], Ok (), B, []) \<and> is_closing B"
proof -
  let ?c = "Some \<lparr>code = 1000, reason = [98]\<rparr>"
  let ?e = "encode_message_into std_platform (1, 2, 3, 4) (start_protocol Client 100 100 True) (Close ?c) []"
  have "message_ok True 100 (Close ?c)" "fits 100 (Close ?c)"
    by (code_simp, simp add: fits_def close_payload_def u16_to_be_bytes_def)
  moreover have "peer Client = Server" by (simp add: peer_def)
  ultimately show ?thesis
    using closing_handshake [of std_platform True 100 ?c 100 "(1, 2, 3, 4)" Client "fst ?e" "snd ?e" "[snd ?e]" "(5, 6, 7, 8)"]
    by (auto simp del: receive.simps)
qed

text \<open>
  C8. Every call of every reader returns, from every state of the protocol and the parser and
  for every buffer, also after failures.
\<close>

theorem readers_return:
  "\<exists>x y z w. process_into pf P buf = Some x \<and> process pf P buf = Some y \<and> process_raw_into pf P buf = Some z
    \<and> process_next_with_activity pf P buf = Some w"
proof -
  have "process_next_with_activity pf P buf \<noteq> None"
    using process_into_total [of pf P buf] unfolding drain_next_eq [symmetric] by (subst (asm) drain_next.simps) (auto simp: bind_eq_Some_conv)
  then show ?thesis
    using process_into_total [of pf P buf] process_raw_into_total [of pf P buf]
    by (auto simp: process_into_def process_def)
qed

text \<open>
  C9. Reading one message at a time is reading them all: calling \<^verbatim>\<open>process_next\<close> until it gives no
  message has the result, the messages, the activity, the state and the remaining bytes of one call
  of \<^verbatim>\<open>process_into\<close>, from every state.
\<close>

theorem next_is_into: "drain_next pf P buf = process_into_with_activity pf P buf"
  by (rule drain_next_eq)

end
