(* ===== verification/WS_Config.thy ===== *)
theory WS_Config
  imports WS_Error
begin

text \<open>
  Constants and configuration, \<^verbatim>\<open>src/lib.rs\<close> and the configuration types of \<^verbatim>\<open>src/deflate.rs\<close>: window
  sizes with their order, compression modes, transport settings, the connection settings and
  their builder. Sizes, counts and seconds are only stored and compared here, so they are natural
  numbers.
\<close>

section \<open>Constants\<close>

definition CACHE_LINE_SIZE :: nat where "CACHE_LINE_SIZE = 64"
definition CORK_BUFFER_SIZE :: nat where "CORK_BUFFER_SIZE = 16 * 1024"
definition RECV_BUFFER_SIZE :: nat where "RECV_BUFFER_SIZE = 64 * 1024"
definition MAX_FRAME_HEADER_SIZE :: nat where "MAX_FRAME_HEADER_SIZE = 14"
definition WS_GUID :: string where "WS_GUID = ''258EAFA5-E914-47DA-95CA-C5AB0DC85B11''"

section \<open>Window sizes\<close>

datatype deflate_window_bits = Bits9 | Bits10 | Bits11 | Bits12 | Bits13 | Bits14 | Bits15

fun window_bits_u8 :: "deflate_window_bits \<Rightarrow> byte" where
  "window_bits_u8 Bits9 = 9"
| "window_bits_u8 Bits10 = 10"
| "window_bits_u8 Bits11 = 11"
| "window_bits_u8 Bits12 = 12"
| "window_bits_u8 Bits13 = 13"
| "window_bits_u8 Bits14 = 14"
| "window_bits_u8 Bits15 = 15"

definition window_bits_try_from :: "byte \<Rightarrow> deflate_window_bits ws_result" where
  "window_bits_try_from value =
     (if value = 9 then Ok Bits9
      else if value = 10 then Ok Bits10
      else if value = 11 then Ok Bits11
      else if value = 12 then Ok Bits12
      else if value = 13 then Ok Bits13
      else if value = 14 then Ok Bits14
      else if value = 15 then Ok Bits15
      else Err (Compression_err (''unsupported deflate window bits '' @ show_nat (unat value) @ ''; backend supports 9-15'')))"

lemma window_bits_roundtrip [simp]: "window_bits_try_from (window_bits_u8 w) = Ok w"
  by (cases w) (simp_all add: window_bits_try_from_def)

lemma window_bits_try_from_Ok: "window_bits_try_from v = Ok w \<longleftrightarrow> v = window_bits_u8 w"
proof
  assume "window_bits_try_from v = Ok w"
  then show "v = window_bits_u8 w"
    unfolding window_bits_try_from_def by (simp only: result.inject result.distinct split: if_split_asm) (simp_all only: window_bits_u8.simps)
qed simp

lemma window_bits_u8_inj [simp]: "window_bits_u8 a = window_bits_u8 b \<longleftrightarrow> a = b"
  using window_bits_try_from_Ok [of "window_bits_u8 a" b] by auto

text \<open>The derived order is the order of the sizes.\<close>

instantiation deflate_window_bits :: linorder
begin

definition less_eq_deflate_window_bits :: "deflate_window_bits \<Rightarrow> deflate_window_bits \<Rightarrow> bool" where
  "a \<le> b \<longleftrightarrow> window_bits_u8 a \<le> window_bits_u8 b"

definition less_deflate_window_bits :: "deflate_window_bits \<Rightarrow> deflate_window_bits \<Rightarrow> bool" where
  "a < b \<longleftrightarrow> window_bits_u8 a < window_bits_u8 b"

instance
proof
  fix a b c :: deflate_window_bits
  show "a < b \<longleftrightarrow> a \<le> b \<and> \<not> b \<le> a"
    unfolding less_eq_deflate_window_bits_def less_deflate_window_bits_def by (rule less_le_not_le)
  show "a \<le> a" unfolding less_eq_deflate_window_bits_def by (rule order_refl)
  show "a \<le> b \<Longrightarrow> b \<le> c \<Longrightarrow> a \<le> c" unfolding less_eq_deflate_window_bits_def by (rule order_trans)
  show "a \<le> b \<or> b \<le> a" unfolding less_eq_deflate_window_bits_def by (rule linear)
  show "a \<le> b \<Longrightarrow> b \<le> a \<Longrightarrow> a = b"
    unfolding less_eq_deflate_window_bits_def using window_bits_u8_inj order_antisym by blast
qed

end

lemma window_bits_range: "9 \<le> unat (window_bits_u8 w) \<and> unat (window_bits_u8 w) \<le> 15"
  by (cases w) simp_all

section \<open>Compression\<close>

record deflate_config =
  server_max_window_bits :: deflate_window_bits
  client_max_window_bits :: deflate_window_bits
  server_no_context_takeover :: bool
  client_no_context_takeover :: bool
  compression_level :: nat
  compression_threshold :: nat

definition DEFAULT_WINDOW_BITS :: deflate_window_bits where "DEFAULT_WINDOW_BITS = Bits15"
definition MIN_WINDOW_BITS :: deflate_window_bits where "MIN_WINDOW_BITS = Bits9"
definition MAX_WINDOW_BITS :: deflate_window_bits where "MAX_WINDOW_BITS = Bits15"

definition deflate_config_default :: deflate_config where
  "deflate_config_default =
     \<lparr>server_max_window_bits = DEFAULT_WINDOW_BITS, client_max_window_bits = DEFAULT_WINDOW_BITS,
      server_no_context_takeover = False, client_no_context_takeover = False,
      compression_level = 6, compression_threshold = 32\<rparr>"

definition low_memory :: deflate_config where
  "low_memory =
     \<lparr>server_max_window_bits = Bits10, client_max_window_bits = Bits10,
      server_no_context_takeover = True, client_no_context_takeover = True,
      compression_level = 1, compression_threshold = 64\<rparr>"

definition best_compression :: deflate_config where
  "best_compression =
     \<lparr>server_max_window_bits = MAX_WINDOW_BITS, client_max_window_bits = MAX_WINDOW_BITS,
      server_no_context_takeover = False, client_no_context_takeover = False,
      compression_level = 9, compression_threshold = 16\<rparr>"

datatype compression = Disabled | Dedicated | Shared | Window1KB | Window2KB | Window4KB | Window8KB
  | Window16KB | Window32KB

definition compression_is_enabled :: "compression \<Rightarrow> bool" where
  "compression_is_enabled c \<longleftrightarrow> c \<noteq> Disabled"

definition compression_is_shared :: "compression \<Rightarrow> bool" where
  "compression_is_shared c \<longleftrightarrow> c = Shared"

definition compression_is_dedicated :: "compression \<Rightarrow> bool" where
  "compression_is_dedicated c \<longleftrightarrow> c \<noteq> Disabled \<and> c \<noteq> Shared"

fun window_bits :: "compression \<Rightarrow> deflate_window_bits option" where
  "window_bits Disabled = None"
| "window_bits Window1KB = Some Bits10"
| "window_bits Window2KB = Some Bits11"
| "window_bits Window4KB = Some Bits12"
| "window_bits Window8KB = Some Bits13"
| "window_bits Window16KB = Some Bits14"
| "window_bits _ = Some Bits15"

fun mode_threshold :: "compression \<Rightarrow> nat" where
  "mode_threshold Disabled = 2 ^ 64 - 1"
| "mode_threshold Window1KB = 64"
| "mode_threshold Window2KB = 48"
| "mode_threshold Window4KB = 40"
| "mode_threshold Window8KB = 32"
| "mode_threshold Window16KB = 24"
| "mode_threshold Window32KB = 24"
| "mode_threshold Dedicated = 16"
| "mode_threshold Shared = 16"

definition context_takeover :: "compression \<Rightarrow> bool" where
  "context_takeover c \<longleftrightarrow> c \<notin> {Disabled, Shared, Window1KB, Window2KB}"

definition to_deflate_config :: "compression \<Rightarrow> deflate_config option" where
  "to_deflate_config c =
     (case window_bits c of
        None \<Rightarrow> None
      | Some w \<Rightarrow>
          let no_takeover = \<not> context_takeover c in
          Some \<lparr>server_max_window_bits = w, client_max_window_bits = w,
                server_no_context_takeover = no_takeover, client_no_context_takeover = no_takeover,
                compression_level = (if c = Window1KB then 1 else if c \<in> {Window2KB, Window4KB} then 3
                                     else if c \<in> {Window8KB, Window16KB} then 5 else 6),
                compression_threshold = mode_threshold c\<rparr>)"

section \<open>Transports\<close>

record http2_config =
  h2_max_frame_size :: nat
  h2_initial_stream_window_size :: nat
  h2_initial_connection_window_size :: nat
  h2_max_concurrent_streams :: nat
  h2_enable_connect_protocol :: bool

definition validated_max_frame_size :: "http2_config \<Rightarrow> nat ws_result" where
  "validated_max_frame_size c =
     (if \<not> (16384 \<le> h2_max_frame_size c \<and> h2_max_frame_size c \<le> 16777215)
      then Err (HandshakeFailed ''HTTP/2 max_frame_size must be in 16384..=16777215'')
      else Ok (h2_max_frame_size c))"

definition http2_config_default :: http2_config where
  "http2_config_default =
     \<lparr>h2_max_frame_size = 16384, h2_initial_stream_window_size = 1024 * 1024,
      h2_initial_connection_window_size = 2 * 1024 * 1024, h2_max_concurrent_streams = 100,
      h2_enable_connect_protocol = True\<rparr>"

record http3_config =
  h3_max_idle_timeout_ms :: nat
  h3_initial_stream_window_size :: nat
  h3_enable_0rtt :: bool
  h3_enable_connect_protocol :: bool
  h3_max_udp_payload_size :: nat

definition http3_config_default :: http3_config where
  "http3_config_default =
     \<lparr>h3_max_idle_timeout_ms = 30000, h3_initial_stream_window_size = 1250000, h3_enable_0rtt = False,
      h3_enable_connect_protocol = True, h3_max_udp_payload_size = 1472\<rparr>"

record io_uring_config =
  registered_buffer_count :: nat
  registered_buffer_size :: nat
  sqpoll :: bool
  sq_entries :: nat

definition io_uring_config_default :: io_uring_config where
  "io_uring_config_default =
     \<lparr>registered_buffer_count = 64, registered_buffer_size = 64 * 1024, sqpoll = False, sq_entries = 256\<rparr>"

section \<open>The configuration of a connection\<close>

record config =
  cfg_validate_text_utf8 :: bool
  cfg_max_message_size :: nat
  cfg_max_frame_size :: nat
  cfg_write_buffer_size :: nat
  cfg_read_buffer_size :: nat
  cfg_compression :: compression
  cfg_idle_timeout :: nat
  cfg_max_backpressure :: nat
  cfg_auto_ping :: bool
  cfg_ping_interval :: nat
  cfg_pong_timeout :: nat
  cfg_pong_timeout_close_code :: u16
  cfg_pong_timeout_close_reason :: string
  cfg_close_timeout :: nat
  cfg_write_coalescing :: bool
  cfg_deflate :: "deflate_config option"
  cfg_http2 :: http2_config
  cfg_http3 :: http3_config
  cfg_io_uring :: io_uring_config

definition config_default :: config where
  "config_default =
     \<lparr>cfg_validate_text_utf8 = True, cfg_max_message_size = 64 * 1024 * 1024, cfg_max_frame_size = 16 * 1024 * 1024,
      cfg_write_buffer_size = CORK_BUFFER_SIZE, cfg_read_buffer_size = RECV_BUFFER_SIZE, cfg_compression = Disabled,
      cfg_idle_timeout = 120, cfg_max_backpressure = 1024 * 1024, cfg_auto_ping = True, cfg_ping_interval = 30,
      cfg_pong_timeout = 10, cfg_pong_timeout_close_code = close_going_away,
      cfg_pong_timeout_close_reason = ''Pong reply not received in time'', cfg_close_timeout = 5,
      cfg_write_coalescing = True, cfg_deflate = None, cfg_http2 = http2_config_default,
      cfg_http3 = http3_config_default, cfg_io_uring = io_uring_config_default\<rparr>"

definition uws_defaults :: config where
  "uws_defaults =
     \<lparr>cfg_validate_text_utf8 = True, cfg_max_message_size = 16 * 1024, cfg_max_frame_size = 16 * 1024,
      cfg_write_buffer_size = CORK_BUFFER_SIZE, cfg_read_buffer_size = RECV_BUFFER_SIZE, cfg_compression = Shared,
      cfg_idle_timeout = 0, cfg_max_backpressure = 1024 * 1024, cfg_auto_ping = True, cfg_ping_interval = 30,
      cfg_pong_timeout = 10, cfg_pong_timeout_close_code = close_going_away,
      cfg_pong_timeout_close_reason = ''Pong reply not received in time'', cfg_close_timeout = 5,
      cfg_write_coalescing = True, cfg_deflate = None, cfg_http2 = http2_config_default,
      cfg_http3 = http3_config_default, cfg_io_uring = io_uring_config_default\<rparr>"

text \<open>
  The builder methods, as the settings a caller chains; \<open>build\<close> applies them in order to the
  default configuration.
\<close>

datatype transport_setting =
    SetHttp2StreamWindowSize nat | SetHttp2ConnectionWindowSize nat | SetHttp2MaxFrameSize nat | SetHttp2MaxStreams nat
  | SetHttp2EnableConnectProtocol bool
  | SetHttp3IdleTimeout nat | SetHttp3StreamWindowSize nat | SetHttp3Enable0rtt bool | SetHttp3EnableConnectProtocol bool
  | SetHttp3MaxUdpPayloadSize nat
  | SetIoUringBuffers nat nat | SetIoUringSqpoll bool | SetIoUringSqEntries nat

fun apply_transport_setting :: "config \<Rightarrow> transport_setting \<Rightarrow> config" where
  "apply_transport_setting c (SetHttp2StreamWindowSize n) = c\<lparr>cfg_http2 := (cfg_http2 c)\<lparr>h2_initial_stream_window_size := n\<rparr>\<rparr>"
| "apply_transport_setting c (SetHttp2ConnectionWindowSize n) = c\<lparr>cfg_http2 := (cfg_http2 c)\<lparr>h2_initial_connection_window_size := n\<rparr>\<rparr>"
| "apply_transport_setting c (SetHttp2MaxFrameSize n) = c\<lparr>cfg_http2 := (cfg_http2 c)\<lparr>h2_max_frame_size := n\<rparr>\<rparr>"
| "apply_transport_setting c (SetHttp2MaxStreams n) = c\<lparr>cfg_http2 := (cfg_http2 c)\<lparr>h2_max_concurrent_streams := n\<rparr>\<rparr>"
| "apply_transport_setting c (SetHttp2EnableConnectProtocol b) = c\<lparr>cfg_http2 := (cfg_http2 c)\<lparr>h2_enable_connect_protocol := b\<rparr>\<rparr>"
| "apply_transport_setting c (SetHttp3IdleTimeout ms) = c\<lparr>cfg_http3 := (cfg_http3 c)\<lparr>h3_max_idle_timeout_ms := ms\<rparr>\<rparr>"
| "apply_transport_setting c (SetHttp3StreamWindowSize n) = c\<lparr>cfg_http3 := (cfg_http3 c)\<lparr>h3_initial_stream_window_size := n\<rparr>\<rparr>"
| "apply_transport_setting c (SetHttp3Enable0rtt b) = c\<lparr>cfg_http3 := (cfg_http3 c)\<lparr>h3_enable_0rtt := b\<rparr>\<rparr>"
| "apply_transport_setting c (SetHttp3EnableConnectProtocol b) = c\<lparr>cfg_http3 := (cfg_http3 c)\<lparr>h3_enable_connect_protocol := b\<rparr>\<rparr>"
| "apply_transport_setting c (SetHttp3MaxUdpPayloadSize n) = c\<lparr>cfg_http3 := (cfg_http3 c)\<lparr>h3_max_udp_payload_size := n\<rparr>\<rparr>"
| "apply_transport_setting c (SetIoUringBuffers k n) =
     c\<lparr>cfg_io_uring := (cfg_io_uring c)\<lparr>registered_buffer_count := k, registered_buffer_size := n\<rparr>\<rparr>"
| "apply_transport_setting c (SetIoUringSqpoll b) = c\<lparr>cfg_io_uring := (cfg_io_uring c)\<lparr>sqpoll := b\<rparr>\<rparr>"
| "apply_transport_setting c (SetIoUringSqEntries n) = c\<lparr>cfg_io_uring := (cfg_io_uring c)\<lparr>sq_entries := n\<rparr>\<rparr>"

datatype setting =
    SetValidateTextUtf8 bool | SetCompression compression | SetMaxPayloadLength nat | SetMaxMessageSize nat
  | SetMaxFrameSize nat | SetIdleTimeout nat | SetMaxBackpressure nat | SetWriteBufferSize nat | SetReadBufferSize nat
  | SetAutoPing bool | SetPingInterval nat | SetPongTimeout nat | SetPongTimeoutClose u16 string | SetCloseTimeout nat
  | SetWriteCoalescing bool | EnableDeflate | SetDeflateConfig deflate_config | SetTransport transport_setting

fun apply_setting :: "config \<Rightarrow> setting \<Rightarrow> config" where
  "apply_setting c (SetValidateTextUtf8 enabled) = c\<lparr>cfg_validate_text_utf8 := enabled\<rparr>"
| "apply_setting c (SetCompression m) = c\<lparr>cfg_compression := m\<rparr>"
| "apply_setting c (SetMaxPayloadLength n) = c\<lparr>cfg_max_message_size := n, cfg_max_frame_size := n\<rparr>"
| "apply_setting c (SetMaxMessageSize n) = c\<lparr>cfg_max_message_size := n\<rparr>"
| "apply_setting c (SetMaxFrameSize n) = c\<lparr>cfg_max_frame_size := n\<rparr>"
| "apply_setting c (SetIdleTimeout seconds) = c\<lparr>cfg_idle_timeout := seconds\<rparr>"
| "apply_setting c (SetMaxBackpressure n) = c\<lparr>cfg_max_backpressure := n\<rparr>"
| "apply_setting c (SetWriteBufferSize n) = c\<lparr>cfg_write_buffer_size := n\<rparr>"
| "apply_setting c (SetReadBufferSize n) = c\<lparr>cfg_read_buffer_size := n\<rparr>"
| "apply_setting c (SetAutoPing enabled) = c\<lparr>cfg_auto_ping := enabled\<rparr>"
| "apply_setting c (SetPingInterval seconds) = c\<lparr>cfg_ping_interval := seconds\<rparr>"
| "apply_setting c (SetPongTimeout seconds) = c\<lparr>cfg_pong_timeout := seconds\<rparr>"
| "apply_setting c (SetPongTimeoutClose cd r) = c\<lparr>cfg_pong_timeout_close_code := cd, cfg_pong_timeout_close_reason := r\<rparr>"
| "apply_setting c (SetCloseTimeout seconds) = c\<lparr>cfg_close_timeout := seconds\<rparr>"
| "apply_setting c (SetWriteCoalescing enabled) = c\<lparr>cfg_write_coalescing := enabled\<rparr>"
| "apply_setting c EnableDeflate = c\<lparr>cfg_deflate := Some deflate_config_default\<rparr>"
| "apply_setting c (SetDeflateConfig d) = c\<lparr>cfg_deflate := Some d\<rparr>"
| "apply_setting c (SetTransport t) = apply_transport_setting c t"

definition build :: "setting list \<Rightarrow> config" where
  "build settings = foldl apply_setting config_default settings"

end
