(* ===== verification/WS_Cork.thy ===== *)
theory WS_Cork
  imports WS_Config
begin

text \<open>
  Write batching, \<^verbatim>\<open>src/cork.rs\<close>: the cork buffer with its open tail and its queued segments, its
  \<^verbatim>\<open>Buf\<close> implementation and batch writers. The locale \<open>byte_queue\<close> is what a flush loop relies on; the
  cork buffer is an instance (\<open>cork_queue\<close>), and histories of its operations keep the stream of
  bytes (\<open>cork_run_content\<close>). A slice is the bytes it refers to; \<^verbatim>\<open>usize\<close> counts are 64-bit words.
\<close>

section \<open>The buffer\<close>

datatype cork_state = Uncorked | Corked

record cork_buffer =
  cork_open :: bytes
  cork_max_size :: nat
  cork_mode :: cork_state
  segments :: "bytes list"
  segment_bytes :: u64

definition ZERO_COPY_MIN :: nat where "ZERO_COPY_MIN = 8 * 1024"

definition cork_with_capacity :: "nat \<Rightarrow> cork_buffer" where
  "cork_with_capacity capacity =
     \<lparr>cork_open = [], cork_max_size = capacity, cork_mode = Uncorked, segments = [], segment_bytes = 0\<rparr>"

definition cork_new :: cork_buffer where
  "cork_new = cork_with_capacity CORK_BUFFER_SIZE"

definition cork :: "cork_buffer \<Rightarrow> cork_buffer" where
  "cork c = c\<lparr>cork_mode := Corked\<rparr>"

definition has_data :: "cork_buffer \<Rightarrow> bool" where
  "has_data c \<longleftrightarrow> cork_open c \<noteq> [] \<or> segments c \<noteq> []"

definition uncork :: "cork_buffer \<Rightarrow> bool \<times> cork_buffer" where
  "uncork c = (let c = c\<lparr>cork_mode := Uncorked\<rparr> in (has_data c, c))"

definition is_corked :: "cork_buffer \<Rightarrow> bool" where
  "is_corked c \<longleftrightarrow> cork_mode c = Corked"

definition has_segments :: "cork_buffer \<Rightarrow> bool" where
  "has_segments c \<longleftrightarrow> segments c \<noteq> []"

definition cork_pending_bytes :: "cork_buffer \<Rightarrow> u64" where
  "cork_pending_bytes c = of_nat (length (cork_open c)) + segment_bytes c"

definition cork_write :: "cork_buffer \<Rightarrow> bytes \<Rightarrow> bool \<times> cork_buffer" where
  "cork_write c data =
     (let c = c\<lparr>cork_open := cork_open c @ data\<rparr> in (length (cork_open c) \<le> cork_max_size c, c))"

definition push_segment :: "cork_buffer \<Rightarrow> bytes \<Rightarrow> cork_buffer" where
  "push_segment c data =
     (if data = [] then c
      else
        let c = (if cork_open c \<noteq> [] then
                   let closed = cork_open c in
                   c\<lparr>cork_open := [], segment_bytes := segment_bytes c + of_nat (length closed),
                     segments := segments c @ [closed]\<rparr>
                 else c)
        in c\<lparr>segment_bytes := segment_bytes c + of_nat (length data), segments := segments c @ [data]\<rparr>)"

definition write_bytes :: "cork_buffer \<Rightarrow> bytes \<Rightarrow> cork_buffer" where
  "write_bytes c data =
     (if length data < ZERO_COPY_MIN then c\<lparr>cork_open := cork_open c @ data\<rparr> else push_segment c data)"

text \<open>
  The slices are the bytes they refer to; \<open>k\<close> is the length of \<^verbatim>\<open>out\<close>, and the result is what
  the first \<open>n\<close> entries of it hold after the call.
\<close>

fun fill_segments :: "bytes list \<Rightarrow> nat \<Rightarrow> bytes list" where
  "fill_segments [] k = []"
| "fill_segments (s # ss) k = (if k = 0 then [] else s # fill_segments ss (k - 1))"

definition fill_write_slices :: "cork_buffer \<Rightarrow> nat \<Rightarrow> bytes list" where
  "fill_write_slices c k =
     (let out = fill_segments (segments c) k in
      if length out < k \<and> cork_open c \<noteq> [] then out @ [cork_open c] else out)"

definition get_write_slices :: "cork_buffer \<Rightarrow> bytes list" where
  "get_write_slices c = segments c @ (if cork_open c \<noteq> [] then [cork_open c] else [])"

fun cork_consume_segments :: "nat \<Rightarrow> bytes list \<Rightarrow> u64 \<Rightarrow> nat \<times> bytes list \<times> u64" where
  "cork_consume_segments n [] held = (n, [], held)"
| "cork_consume_segments n (front # ss) held =
     (if n = 0 then (0, front # ss, held)
      else if n \<ge> length front then cork_consume_segments (n - length front) ss (held - of_nat (length front))
      else (0, drop n front # ss, held - of_nat n))"

definition cork_consume :: "nat \<Rightarrow> cork_buffer \<Rightarrow> cork_buffer" where
  "cork_consume n c =
     (case cork_consume_segments n (segments c) (segment_bytes c) of
        (n, ss, held) \<Rightarrow>
          let c = c\<lparr>segments := ss, segment_bytes := held\<rparr> in
          if n > 0 then c\<lparr>cork_open := drop (min n (length (cork_open c))) (cork_open c)\<rparr> else c)"

definition take_buffer :: "cork_buffer \<Rightarrow> bytes \<times> cork_buffer" where
  "take_buffer c = (cork_open c, c\<lparr>cork_open := []\<rparr>)"

definition cork_clear :: "cork_buffer \<Rightarrow> cork_buffer" where
  "cork_clear c = c\<lparr>cork_open := [], segments := [], segment_bytes := 0\<rparr>"

text \<open>What a caller does with \<^verbatim>\<open>buffer_mut\<close>: it encodes frames at the end of the open buffer.\<close>

definition buffer_mut :: "(bytes \<Rightarrow> bytes) \<Rightarrow> cork_buffer \<Rightarrow> cork_buffer" where
  "buffer_mut f c = c\<lparr>cork_open := f (cork_open c)\<rparr>"

section \<open>The implementation of \<^verbatim>\<open>Buf\<close>\<close>

definition cork_remaining :: "cork_buffer \<Rightarrow> u64" where
  "cork_remaining c = cork_pending_bytes c"

definition cork_chunk :: "cork_buffer \<Rightarrow> bytes" where
  "cork_chunk c = (case segments c of front # _ \<Rightarrow> front | [] \<Rightarrow> cork_open c)"

definition cork_advance :: "nat \<Rightarrow> cork_buffer \<Rightarrow> cork_buffer" where
  "cork_advance cnt c = cork_consume cnt c"

section \<open>Batches\<close>

record batch_writer =
  batch_cork :: cork_buffer
  was_corked :: bool

definition batch_new :: "cork_buffer \<Rightarrow> batch_writer" where
  "batch_new c = (let was = is_corked c in \<lparr>batch_cork = cork c, was_corked = was\<rparr>)"

definition batch_write :: "batch_writer \<Rightarrow> bytes \<Rightarrow> batch_writer" where
  "batch_write b data = b\<lparr>batch_cork := snd (cork_write (batch_cork b) data)\<rparr>"

definition batch_write_bytes :: "batch_writer \<Rightarrow> bytes \<Rightarrow> batch_writer" where
  "batch_write_bytes b data = b\<lparr>batch_cork := write_bytes (batch_cork b) data\<rparr>"

definition batch_buffer_mut :: "(bytes \<Rightarrow> bytes) \<Rightarrow> batch_writer \<Rightarrow> batch_writer" where
  "batch_buffer_mut f b = b\<lparr>batch_cork := buffer_mut f (batch_cork b)\<rparr>"

definition batch_drop :: "batch_writer \<Rightarrow> cork_buffer" where
  "batch_drop b = (if \<not> was_corked b then snd (uncork (batch_cork b)) else batch_cork b)"

section \<open>A queue of bytes that a transport empties\<close>

text \<open>
  What the flush loop of a connection relies on: appended bytes come after what is pending, the
  slices offered are a beginning of what is pending and not empty as long as something is
  pending, and bytes reported as written leave from the front.
\<close>

locale byte_queue =
  fixes ok :: "'s \<Rightarrow> bool"
    and content :: "'s \<Rightarrow> bytes"
    and slices :: "'s \<Rightarrow> nat \<Rightarrow> bytes list"
    and consume :: "nat \<Rightarrow> 's \<Rightarrow> 's"
  assumes slices_prefix: "ok s \<Longrightarrow> concat (slices s k) = take (length (concat (slices s k))) (content s)"
    and slices_some: "ok s \<Longrightarrow> content s \<noteq> [] \<Longrightarrow> 0 < k \<Longrightarrow> concat (slices s k) \<noteq> []"
    and slices_length: "ok s \<Longrightarrow> length (slices s k) \<le> k"
    and content_consume: "ok s \<Longrightarrow> content (consume n s) = drop n (content s)"
    and ok_consume: "ok s \<Longrightarrow> ok (consume n s)"
begin

text \<open>
  A turn of the flush loop: the transport takes at most \<open>n\<close> of the bytes offered in \<open>k\<close> slices.
\<close>

fun transmit :: "'s \<Rightarrow> (nat \<times> nat) list \<Rightarrow> bytes \<times> 's" where
  "transmit s [] = ([], s)"
| "transmit s ((k, n) # turns) =
     (let out = take n (concat (slices s k)); s = consume (length out) s; (rest, s) = transmit s turns in (out @ rest, s))"

lemma turn_content:
  assumes "ok s"
  shows "take n (concat (slices s k)) @ content (consume (length (take n (concat (slices s k)))) s) = content s"
proof -
  let ?out = "take n (concat (slices s k))"
  have "?out = take (length ?out) (content s)"
    using slices_prefix [OF assms, of k] by (metis length_take min.commute take_take)
  then show ?thesis using content_consume [OF assms] by (metis append_take_drop_id)
qed

lemma transmit_content: "ok s \<Longrightarrow> transmit s turns = (out, s') \<Longrightarrow> out @ content s' = content s \<and> ok s'"
proof (induction s turns arbitrary: out rule: transmit.induct)
  case (2 s k n turns)
  obtain rest s2 where r: "transmit (consume (length (take n (concat (slices s k)))) s) turns = (rest, s2)" by force
  have "s' = s2" using 2(3) r by (auto simp: Let_def)
  then have IH: "rest @ content s2 = content (consume (length (take n (concat (slices s k)))) s) \<and> ok s2"
    using 2(1) [OF refl refl, of rest] 2(2) r ok_consume by auto
  have "out = take n (concat (slices s k)) @ rest" "s' = s2" using 2(3) r by (auto simp: Let_def)
  then show ?case using turn_content [OF 2(2), of n k] IH by (metis append.assoc)
qed simp

text \<open>Every turn with room for a byte makes progress, so enough of them empty the queue.\<close>

lemma transmit_empties:
  "ok s \<Longrightarrow> list_all (\<lambda>(k, n). 0 < k \<and> 0 < n) turns \<Longrightarrow> length (content s) \<le> length turns \<Longrightarrow>
     content (snd (transmit s turns)) = []"
proof (induction turns arbitrary: s)
  case (Cons t turns)
  obtain k n where t: "t = (k, n)" by force
  let ?out = "take n (concat (slices s k))"
  let ?s = "consume (length ?out) s"
  have ok: "ok ?s" using Cons.prems(1) by (rule ok_consume)
  have "content s \<noteq> [] \<Longrightarrow> ?out \<noteq> []" using slices_some [OF Cons.prems(1), of k] Cons.prems(2) t by auto
  then have "length (content s) = 0 \<or> 0 < length ?out" by blast
  then have "length (content ?s) \<le> length turns"
    using Cons.prems(3) content_consume [OF Cons.prems(1), of "length ?out"] by (simp only: length_drop list.size) linarith
  from Cons.IH [OF ok _ this] show ?case
    using Cons.prems(2) t by (simp add: Let_def split: prod.split) (metis snd_conv)
qed simp

end

section \<open>The cork buffer is such a queue\<close>

definition cork_content :: "cork_buffer \<Rightarrow> bytes" where
  "cork_content c = concat (segments c) @ cork_open c"

definition cork_ok :: "cork_buffer \<Rightarrow> bool" where
  "cork_ok c \<longleftrightarrow> [] \<notin> set (segments c) \<and> segment_bytes c = of_nat (length (concat (segments c)))"

lemma fill_segments_take: "fill_segments ss k = take k ss"
  by (induction ss arbitrary: k) (auto simp: take_Cons')

lemma fill_write_slices_take: "fill_write_slices c k = take k (get_write_slices c)"
  by (auto simp: fill_write_slices_def get_write_slices_def fill_segments_take Let_def)

lemma concat_write_slices: "concat (get_write_slices c) = cork_content c"
  by (simp add: get_write_slices_def cork_content_def)

lemma concat_take_prefix: "concat (take k xss) = take (length (concat (take k xss))) (concat xss)"
proof -
  have "concat xss = concat (take k xss) @ concat (drop k xss)" by (metis append_take_drop_id concat_append)
  then show ?thesis by (metis append_eq_conv_conj)
qed

lemma consume_segments:
  "[] \<notin> set ss \<Longrightarrow> cork_consume_segments n ss held = (n', ss', held') \<Longrightarrow>
     concat ss' = drop n (concat ss) \<and> n' = n - length (concat ss) \<and> [] \<notin> set ss'
     \<and> held' + of_nat (length (concat ss)) = held + of_nat (length (concat ss'))"
proof (induction n ss held rule: cork_consume_segments.induct)
  case (2 n front ss held)
  show ?case
  proof (cases "n \<noteq> 0 \<and> length front \<le> n")
    case True
    then have "concat ss' = drop (n - length front) (concat ss) \<and> n' = n - length front - length (concat ss) \<and> [] \<notin> set ss'
      \<and> held' + of_nat (length (concat ss)) = held - of_nat (length front) + of_nat (length (concat ss'))"
      using 2 by simp
    then show ?thesis using True by (simp add: algebra_simps)
  next
    case False
    then show ?thesis using 2 by (auto simp: algebra_simps of_nat_diff split: if_splits)
  qed
qed simp

lemma cork_consume_content:
  assumes "cork_ok c"
  shows "cork_content (cork_consume n c) = drop n (cork_content c)" "cork_ok (cork_consume n c)"
proof -
  obtain n' ss held where s: "cork_consume_segments n (segments c) (segment_bytes c) = (n', ss, held)"
    by (cases "cork_consume_segments n (segments c) (segment_bytes c)") auto
  have f: "concat ss = drop n (concat (segments c))" "n' = n - length (concat (segments c))" "[] \<notin> set ss"
    "held + of_nat (length (concat (segments c))) = segment_bytes c + of_nat (length (concat ss))"
    using consume_segments [OF _ s] assms by (auto simp: cork_ok_def)
  have "drop (min n' (length (cork_open c))) (cork_open c) = drop n' (cork_open c)" by (simp add: min_def)
  then show "cork_content (cork_consume n c) = drop n (cork_content c)"
    using s f by (auto simp: cork_consume_def cork_content_def Let_def)
  have "held = of_nat (length (concat ss))" using f(4) assms by (simp add: cork_ok_def)
  then show "cork_ok (cork_consume n c)" using s f(3) by (simp add: cork_consume_def cork_ok_def Let_def)
qed

interpretation cork_queue: byte_queue cork_ok cork_content fill_write_slices cork_consume
proof
  show "concat (fill_write_slices c k) = take (length (concat (fill_write_slices c k))) (cork_content c)" for c k
    unfolding fill_write_slices_take concat_write_slices [symmetric] by (rule concat_take_prefix)
  show "concat (fill_write_slices c k) \<noteq> []" if "cork_ok c" "cork_content c \<noteq> []" "0 < k" for c k
  proof -
    have "[] \<notin> set (get_write_slices c)" "get_write_slices c \<noteq> []"
      using that by (auto simp: get_write_slices_def cork_ok_def cork_content_def)
    then show ?thesis using that(3) by (cases "get_write_slices c"; cases k) (auto simp: fill_write_slices_take)
  qed
  show "length (fill_write_slices c k) \<le> k" for c k by (simp add: fill_write_slices_take)
qed (fact cork_consume_content)+

lemma push_segment_ok:
  assumes "cork_ok c"
  shows "cork_content (push_segment c d) = cork_content c @ d" "cork_ok (push_segment c d)"
  using assms by (auto simp: push_segment_def cork_content_def cork_ok_def Let_def)

lemma write_bytes_ok:
  assumes "cork_ok c"
  shows "cork_content (write_bytes c d) = cork_content c @ d" "cork_ok (write_bytes c d)"
  using assms push_segment_ok [OF assms] by (auto simp: write_bytes_def cork_content_def cork_ok_def)

lemma cork_write_ok:
  "cork_content (snd (cork_write c d)) = cork_content c @ d" "cork_ok c \<Longrightarrow> cork_ok (snd (cork_write c d))"
  by (simp_all add: cork_write_def cork_content_def cork_ok_def Let_def)

section \<open>Histories of a cork buffer\<close>

datatype batch_op = BatchWrite bytes | BatchWriteBytes bytes | BatchEncode bytes

fun batch_written :: "batch_op \<Rightarrow> bytes" where
  "batch_written (BatchWrite d) = d"
| "batch_written (BatchWriteBytes d) = d"
| "batch_written (BatchEncode d) = d"

fun batch_step :: "batch_writer \<Rightarrow> batch_op \<Rightarrow> batch_writer" where
  "batch_step b (BatchWrite d) = batch_write b d"
| "batch_step b (BatchWriteBytes d) = batch_write_bytes b d"
| "batch_step b (BatchEncode d) = batch_buffer_mut (\<lambda>x. x @ d) b"

datatype cork_op = WriteOp bytes | WriteBytesOp bytes | PushSegmentOp bytes | EncodeOp bytes | CorkOp | UncorkOp
  | TransmitOp nat nat | BatchOp "batch_op list"

fun written :: "cork_op \<Rightarrow> bytes" where
  "written (WriteOp d) = d"
| "written (WriteBytesOp d) = d"
| "written (PushSegmentOp d) = d"
| "written (EncodeOp d) = d"
| "written (BatchOp bs) = concat (map batch_written bs)"
| "written _ = []"

fun cork_step :: "cork_buffer \<Rightarrow> cork_op \<Rightarrow> bytes \<times> cork_buffer" where
  "cork_step c (WriteOp d) = ([], snd (cork_write c d))"
| "cork_step c (WriteBytesOp d) = ([], write_bytes c d)"
| "cork_step c (PushSegmentOp d) = ([], push_segment c d)"
| "cork_step c (EncodeOp d) = ([], buffer_mut (\<lambda>b. b @ d) c)"
| "cork_step c CorkOp = ([], cork c)"
| "cork_step c UncorkOp = ([], snd (uncork c))"
| "cork_step c (TransmitOp k n) = (let out = take n (concat (fill_write_slices c k)) in (out, cork_consume (length out) c))"
| "cork_step c (BatchOp bs) = ([], batch_drop (foldl batch_step (batch_new c) bs))"

fun cork_run :: "cork_buffer \<Rightarrow> cork_op list \<Rightarrow> bytes \<times> cork_buffer" where
  "cork_run c [] = ([], c)"
| "cork_run c (a # as) = (let (out, c) = cork_step c a; (rest, c) = cork_run c as in (out @ rest, c))"

lemma batch_fold:
  "cork_ok (batch_cork b) \<Longrightarrow>
     cork_content (batch_cork (foldl batch_step b bs)) = cork_content (batch_cork b) @ concat (map batch_written bs)
     \<and> cork_ok (batch_cork (foldl batch_step b bs))"
proof (induction bs arbitrary: b)
  case (Cons a bs)
  have "cork_content (batch_cork (batch_step b a)) = cork_content (batch_cork b) @ batch_written a \<and> cork_ok (batch_cork (batch_step b a))"
    using Cons.prems by (cases a)
      (auto simp: batch_write_def batch_write_bytes_def batch_buffer_mut_def buffer_mut_def write_bytes_ok cork_write_ok
         cork_content_def [of "cork_open_update _ _"] cork_content_def [of "batch_cork b"] cork_ok_def [of "cork_open_update _ _"] cork_ok_def [of "batch_cork b"])
  then show ?case using Cons.IH [of "batch_step b a"] by simp
qed simp

lemma mode_content [simp]:
  "cork_content (c\<lparr>cork_mode := m\<rparr>) = cork_content c" "cork_ok (c\<lparr>cork_mode := m\<rparr>) = cork_ok c"
  by (simp_all add: cork_content_def cork_ok_def)

lemma cork_step_content:
  assumes "cork_ok c" "cork_step c a = (out, c')"
  shows "out @ cork_content c' = cork_content c @ written a \<and> cork_ok c'"
proof (cases a)
  case (TransmitOp k n)
  then show ?thesis
    using assms cork_queue.turn_content [OF assms(1), of n k] cork_queue.ok_consume by (auto simp: Let_def)
next
  case (BatchOp bs)
  have "batch_cork (batch_new c) = c\<lparr>cork_mode := Corked\<rparr>" by (simp add: batch_new_def cork_def Let_def)
  then show ?thesis
    using assms BatchOp batch_fold [of "batch_new c" bs] by (auto simp: batch_drop_def uncork_def Let_def)
next
  case (EncodeOp d)
  then show ?thesis using assms by (auto simp: buffer_mut_def cork_content_def cork_ok_def)
qed (use assms in \<open>auto simp: write_bytes_ok push_segment_ok cork_write_ok cork_def uncork_def Let_def\<close>)

lemma cork_run_content:
  "cork_ok c \<Longrightarrow> cork_run c as = (out, c') \<Longrightarrow> out @ cork_content c' = cork_content c @ concat (map written as) \<and> cork_ok c'"
proof (induction as arbitrary: c out)
  case (Cons a as)
  obtain o1 c1 where s: "cork_step c a = (o1, c1)" by force
  obtain o2 where r: "cork_run c1 as = (o2, c')" using Cons.prems(2) s by (cases "cork_run c1 as") (auto simp: Let_def)
  have c1: "o1 @ cork_content c1 = cork_content c @ written a" "cork_ok c1" using cork_step_content [OF Cons.prems(1) s] by blast+
  have c2: "o2 @ cork_content c' = cork_content c1 @ concat (map written as)" "cork_ok c'"
    using Cons.IH [OF c1(2) r] by blast+
  have "(o1 @ o2) @ cork_content c' = (o1 @ cork_content c1) @ concat (map written as)" using c2(1) by simp
  then show ?case using Cons.prems(2) s r c1(1) c2(2) by (auto simp: Let_def)
qed simp

lemma has_data_content: "cork_ok c \<Longrightarrow> has_data c \<longleftrightarrow> cork_content c \<noteq> []"
  by (cases "segments c") (auto simp: has_data_def cork_content_def cork_ok_def)

lemma transmit_run: "cork_run c (map (\<lambda>(k, w). TransmitOp k w) turns) = cork_queue.transmit c turns"
  by (induction turns arbitrary: c) (auto simp: Let_def)

section \<open>Properties\<close>

text \<open>
  C19. Corking keeps the stream: over every sequence of copying writes, queued segments, frames
  encoded in place, batches, cork and uncork calls and partial vectored writes of the transport,
  the bytes the transport has taken followed by the bytes still pending are the bytes written, in
  order; no byte is lost, doubled or moved, and the count of pending bytes is right.
\<close>

theorem cork_stream:
  assumes "cork_run (cork_with_capacity n) as = (out, c)"
  shows "out @ cork_content c = concat (map written as) \<and> cork_pending_bytes c = of_nat (length (cork_content c))
    \<and> cork_pending_bytes c = cork_remaining c \<and> (has_data c \<longleftrightarrow> cork_content c \<noteq> [])"
proof -
  have "cork_ok (cork_with_capacity n)" "cork_content (cork_with_capacity n) = []"
    by (simp_all add: cork_ok_def cork_content_def cork_with_capacity_def)
  from cork_run_content [OF this(1) assms] this(2) have f: "out @ cork_content c = concat (map written as)" "cork_ok c"
    by simp_all
  then show ?thesis
    by (simp add: has_data_content cork_pending_bytes_def cork_remaining_def cork_content_def cork_ok_def)
qed

theorem cork_stream_witness:
  "fst (cork_run (cork_with_capacity 4) [WriteOp [1, 2], PushSegmentOp [3], TransmitOp 1 1, EncodeOp [4], TransmitOp 3 2])
     @ cork_content (snd (cork_run (cork_with_capacity 4) [WriteOp [1, 2], PushSegmentOp [3], TransmitOp 1 1, EncodeOp [4], TransmitOp 3 2]))
   = [1, 2, 3, 4]"
  using cork_stream [OF surjective_pairing, of 4 "[WriteOp [1, 2], PushSegmentOp [3], TransmitOp 1 1, EncodeOp [4], TransmitOp 3 2]"]
  by simp

text \<open>
  C20. A flush ends: if the transport takes at least one byte in each turn, then as many turns as
  there are bytes pending empty the buffer, and what it took is what was pending.
\<close>

theorem cork_flush_ends:
  assumes "cork_run (cork_with_capacity n) as = (out, c)"
    and "list_all (\<lambda>(k, w). 0 < k \<and> 0 < w) turns" "length (cork_content c) \<le> length turns"
  shows "\<exists>c'. cork_run c (map (\<lambda>(k, w). TransmitOp k w) turns) = (cork_content c, c') \<and> \<not> has_data c'"
proof -
  have ok: "cork_ok c"
    using cork_run_content [OF _ assms(1)] by (simp add: cork_ok_def cork_with_capacity_def)
  obtain out' c' where t: "cork_queue.transmit c turns = (out', c')" by force
  have "out' @ cork_content c' = cork_content c" "cork_ok c'" using cork_queue.transmit_content [OF ok t] by auto
  moreover have "cork_content c' = []" using cork_queue.transmit_empties [OF ok assms(2,3)] t by simp
  ultimately show ?thesis using t by (simp add: transmit_run has_data_content)
qed

theorem cork_flush_ends_witness:
  "\<exists>c'. cork_run (cork_with_capacity 4\<lparr>cork_open := [1, 2]\<rparr>) [TransmitOp 1 1, TransmitOp 1 5] = ([1, 2], c') \<and> \<not> has_data c'"
  using cork_flush_ends [of 4 "[WriteOp [1, 2]]" "[]" "cork_with_capacity 4\<lparr>cork_open := [1, 2]\<rparr>" "[(1, 1), (1, 5)]"]
  by (simp add: cork_write_def cork_with_capacity_def cork_content_def)

end
