(* ===== verification/WS_Heartbeat.thy ===== *)
theory WS_Heartbeat
  imports WS_Utf8 WS_Config
begin

text \<open>
  The heartbeat of a connection, \<^verbatim>\<open>src/heartbeat.rs\<close>: deadlines, native Pings with their nonces, Pong
  correlation and the reason of the closing frame. Times are milliseconds below \<open>2^64\<close> with the
  saturating addition written out. \<open>hb_reach\<close> are the states that the calls of a connection reach,
  with other connections drawing nonces in between.
\<close>

section \<open>Time\<close>

definition U64_MAX :: nat where "U64_MAX = 2 ^ 64 - 1"

definition saturating_add :: "nat \<Rightarrow> nat \<Rightarrow> nat" where
  "saturating_add a b = min (a + b) U64_MAX"

definition seconds_ms :: "nat \<Rightarrow> nat" where
  "seconds_ms seconds = seconds * 1000"

section \<open>State\<close>

datatype deadline = PongAt nat | IdleAt nat | PingAt nat

fun deadline_at :: "deadline \<Rightarrow> nat" where
  "deadline_at (PongAt t) = t"
| "deadline_at (IdleAt t) = t"
| "deadline_at (PingAt t) = t"

record outstanding_ping =
  op_payload :: bytes
  deadline_ms :: "nat option"
  flushed :: bool
  acknowledged :: bool

record heartbeat =
  auto_ping :: bool
  ping_interval_ms :: nat
  idle_timeout_ms :: nat
  pong_timeout_ms :: nat
  last_inbound_ms :: nat
  outstanding :: "outstanding_ping option"
  stopped :: bool

definition heartbeat_new :: "config \<Rightarrow> nat \<Rightarrow> heartbeat" where
  "heartbeat_new cfg now =
     \<lparr>auto_ping = (cfg_auto_ping cfg \<and> cfg_ping_interval cfg \<noteq> 0),
      ping_interval_ms = seconds_ms (cfg_ping_interval cfg),
      idle_timeout_ms = seconds_ms (cfg_idle_timeout cfg),
      pong_timeout_ms = seconds_ms (cfg_pong_timeout cfg),
      last_inbound_ms = now, outstanding = None, stopped = False\<rparr>"

definition tracks_inbound_activity :: "heartbeat \<Rightarrow> bool" where
  "tracks_inbound_activity h \<longleftrightarrow> \<not> stopped h \<and> (auto_ping h \<or> idle_timeout_ms h \<noteq> 0)"

definition idle_deadline :: "heartbeat \<Rightarrow> nat option" where
  "idle_deadline h =
     (if idle_timeout_ms h \<noteq> 0 then Some (saturating_add (last_inbound_ms h) (idle_timeout_ms h)) else None)"

definition next_hard_deadline :: "heartbeat \<Rightarrow> deadline option" where
  "next_hard_deadline h =
     (if stopped h then None
      else let pong = Option.bind (outstanding h) deadline_ms; idle = idle_deadline h in
        case (pong, idle) of
          (Some pong, Some idle) \<Rightarrow> if idle < pong then Some (IdleAt idle) else Some (PongAt pong)
        | (Some pong, None) \<Rightarrow> Some (PongAt pong)
        | (None, Some idle) \<Rightarrow> Some (IdleAt idle)
        | (None, None) \<Rightarrow> None)"

definition next_deadline :: "heartbeat \<Rightarrow> deadline option" where
  "next_deadline h =
     (if stopped h then None
      else if (case outstanding h of Some ping \<Rightarrow> deadline_ms ping \<noteq> None | None \<Rightarrow> False) then next_hard_deadline h
      else
        let idle = idle_deadline h;
            ping = (if auto_ping h \<and> outstanding h = None
                    then Some (saturating_add (last_inbound_ms h) (ping_interval_ms h)) else None)
        in case (idle, ping) of
             (Some idle, Some ping) \<Rightarrow> if idle \<le> ping then Some (IdleAt idle) else Some (PingAt ping)
           | (Some idle, None) \<Rightarrow> Some (IdleAt idle)
           | (None, Some ping) \<Rightarrow> Some (PingAt ping)
           | (None, None) \<Rightarrow> None)"

text \<open>The counter of nonces is shared by all connections; \<^verbatim>\<open>fetch_add\<close> wraps.\<close>

definition ping_due :: "heartbeat \<Rightarrow> nat \<Rightarrow> u64 \<Rightarrow> bytes option \<times> heartbeat \<times> u64" where
  "ping_due h now next_nonce =
     (case next_deadline h of
        Some (PingAt t) \<Rightarrow>
          if t \<le> now then
            let nonce = next_nonce; payload = u64_to_be_bytes nonce in
            (Some payload,
             h\<lparr>outstanding := Some \<lparr>op_payload = payload, deadline_ms = None, flushed = False, acknowledged = False\<rparr>\<rparr>,
             next_nonce + 1)
          else (None, h, next_nonce)
      | _ \<Rightarrow> (None, h, next_nonce))"

definition ping_flushed :: "heartbeat \<Rightarrow> nat \<Rightarrow> heartbeat" where
  "ping_flushed h now =
     (case outstanding h of
        Some ping \<Rightarrow>
          if \<not> flushed ping then
            if acknowledged ping then h\<lparr>outstanding := None\<rparr>
            else h\<lparr>outstanding := Some (ping\<lparr>flushed := True,
                     deadline_ms := (if pong_timeout_ms h \<noteq> 0 then Some (saturating_add now (pong_timeout_ms h)) else None)\<rparr>)\<rparr>
          else h
      | None \<Rightarrow> h)"

definition on_inbound :: "heartbeat \<Rightarrow> nat \<Rightarrow> bytes option \<Rightarrow> bool \<times> heartbeat" where
  "on_inbound h now pong =
     (if stopped h then (False, h)
      else
        let h = h\<lparr>last_inbound_ms := max (last_inbound_ms h) now\<rparr>;
            (matched, h) =
              (case outstanding h of
                 Some ping \<Rightarrow>
                   let matching_payload = (pong = Some (op_payload ping));
                       ping = (if matching_payload \<and> \<not> flushed ping then ping\<lparr>acknowledged := True\<rparr> else ping)
                   in (matching_payload \<and> flushed ping \<and> (case deadline_ms ping of None \<Rightarrow> True | Some deadline \<Rightarrow> now < deadline),
                       h\<lparr>outstanding := Some ping\<rparr>)
               | None \<Rightarrow> (False, h))
        in (matched, if matched then h\<lparr>outstanding := None\<rparr> else h))"

definition heartbeat_stop :: "heartbeat \<Rightarrow> heartbeat" where
  "heartbeat_stop h = h\<lparr>stopped := True, outstanding := None\<rparr>"

section \<open>The reason of a close frame\<close>

definition is_char_boundary :: "bytes \<Rightarrow> nat \<Rightarrow> bool" where
  "is_char_boundary bs i \<longleftrightarrow> i = 0 \<or> i = length bs \<or> (i < length bs \<and> \<not> is_cont (bs ! i))"

function boundary_below :: "bytes \<Rightarrow> nat \<Rightarrow> nat" where
  "boundary_below bs stop = (if is_char_boundary bs stop then stop else boundary_below bs (stop - 1))"
  by pat_completeness auto
termination
  by (relation "measure snd") (auto simp: is_char_boundary_def)

definition bounded_close_reason :: "bytes \<Rightarrow> bytes" where
  "bounded_close_reason r = (if length r \<le> 123 then r else take (boundary_below r 123) r)"

declare boundary_below.simps [simp del]

section \<open>What a connection does to its heartbeat\<close>

datatype hb_event = PingDue nat | PingFlushed nat | Inbound nat "bytes option" | Stop

fun hb_step :: "heartbeat \<times> u64 \<Rightarrow> hb_event \<Rightarrow> heartbeat \<times> u64" where
  "hb_step (h, n) (PingDue now) = snd (ping_due h now n)"
| "hb_step (h, n) (PingFlushed now) = (ping_flushed h now, n)"
| "hb_step (h, n) (Inbound now pong) = (snd (on_inbound h now pong), n)"
| "hb_step (h, n) Stop = (heartbeat_stop h, n)"

text \<open>The states of a connection; the rule \<open>other\<close> is another connection drawing a nonce.\<close>

inductive hb_reach :: "config \<Rightarrow> heartbeat \<Rightarrow> u64 \<Rightarrow> bool" for cfg where
  start: "hb_reach cfg (heartbeat_new cfg now) n"
| other: "hb_reach cfg h n \<Longrightarrow> hb_reach cfg h (n + 1)"
| event: "hb_reach cfg h n \<Longrightarrow> hb_step (h, n) e = (h', n') \<Longrightarrow> hb_reach cfg h' n'"

definition ping_ok :: "heartbeat \<Rightarrow> outstanding_ping \<Rightarrow> bool" where
  "ping_ok h p \<longleftrightarrow> auto_ping h \<and> \<not> stopped h \<and> length (op_payload p) = 8 \<and> (acknowledged p \<longrightarrow> \<not> flushed p)
     \<and> (deadline_ms p \<noteq> None \<longleftrightarrow> flushed p \<and> pong_timeout_ms h \<noteq> 0)"

definition hb_inv :: "config \<Rightarrow> heartbeat \<Rightarrow> bool" where
  "hb_inv cfg h \<longleftrightarrow> auto_ping h = (cfg_auto_ping cfg \<and> cfg_ping_interval cfg \<noteq> 0)
     \<and> ping_interval_ms h = seconds_ms (cfg_ping_interval cfg) \<and> idle_timeout_ms h = seconds_ms (cfg_idle_timeout cfg)
     \<and> pong_timeout_ms h = seconds_ms (cfg_pong_timeout cfg) \<and> (\<forall>p. outstanding h = Some p \<longrightarrow> ping_ok h p)"

lemma ping_due_cases:
  obtains "ping_due h now n = (None, h, n)"
  | t where "next_deadline h = Some (PingAt t)" "t \<le> now"
      "ping_due h now n = (Some (u64_to_be_bytes n),
         h\<lparr>outstanding := Some \<lparr>op_payload = u64_to_be_bytes n, deadline_ms = None, flushed = False, acknowledged = False\<rparr>\<rparr>, n + 1)"
proof (cases "\<exists>t. next_deadline h = Some (PingAt t) \<and> t \<le> now")
  case True
  then show ?thesis using that(2) by (auto simp: ping_due_def Let_def)
next
  case False
  then show ?thesis using that(1) by (auto simp: ping_due_def split: option.splits deadline.splits)
qed

lemma next_deadline_ping:
  "next_deadline h = Some (PingAt t) \<Longrightarrow>
     \<not> stopped h \<and> auto_ping h \<and> outstanding h = None \<and> t = saturating_add (last_inbound_ms h) (ping_interval_ms h)"
  by (auto simp: next_deadline_def next_hard_deadline_def Let_def split: if_splits option.splits)

lemma ping_due_inv: "hb_inv cfg h \<Longrightarrow> hb_inv cfg (fst (snd (ping_due h now n)))"
  by (rule ping_due_cases [of h now n]) (auto simp: hb_inv_def ping_ok_def dest!: next_deadline_ping)

lemma ping_flushed_inv: "hb_inv cfg h \<Longrightarrow> hb_inv cfg (ping_flushed h now)"
  by (cases "outstanding h") (simp_all add: hb_inv_def ping_ok_def ping_flushed_def, blast)

lemma on_inbound_inv:
  assumes "hb_inv cfg h"
  shows "hb_inv cfg (snd (on_inbound h now pong))"
proof (cases "outstanding h")
  case None
  then show ?thesis using assms by (simp add: hb_inv_def on_inbound_def Let_def)
next
  case (Some p)
  then have "ping_ok h p" using assms by (simp add: hb_inv_def)
  then show ?thesis using Some assms by (simp add: hb_inv_def on_inbound_def ping_ok_def Let_def)
qed

lemma hb_step_inv: "hb_inv cfg h \<Longrightarrow> hb_step (h, n) e = (h', n') \<Longrightarrow> hb_inv cfg h'"
proof (cases e)
  case (PingDue now)
  assume "hb_inv cfg h" "hb_step (h, n) e = (h', n')"
  then show ?thesis using PingDue ping_due_inv [of cfg h now n] by simp
next
  case Stop
  assume "hb_inv cfg h" "hb_step (h, n) e = (h', n')"
  then show ?thesis using Stop by (auto simp: hb_inv_def heartbeat_stop_def)
qed (auto intro: ping_flushed_inv on_inbound_inv)

lemma hb_reach_inv: "hb_reach cfg h n \<Longrightarrow> hb_inv cfg h"
proof (induction rule: hb_reach.induct)
  case (start now n)
  then show ?case by (simp add: hb_inv_def heartbeat_new_def)
qed (auto intro: hb_step_inv)

section \<open>Close reasons\<close>

lemma utf8_step_cont: "utf8_step p b = Some q \<Longrightarrow> p \<noteq> [] \<Longrightarrow> is_cont b"
  by (cases "(p, b)" rule: utf8_step.cases) (auto simp: second_ok_cont split: if_splits)

lemma utf8_step_lead: "utf8_step [] b = Some q \<Longrightarrow> \<not> is_cont b"
  by (auto simp: utf8_nat split: if_splits)

lemma utf8_valid_take:
  assumes "utf8_valid bs" "i \<le> length bs"
  shows "utf8_valid (take i bs) \<longleftrightarrow> is_char_boundary bs i"
proof (cases "i < length bs")
  case True
  then have bs: "bs = take i bs @ bs ! i # drop (Suc i) bs" by (simp add: id_take_nth_drop)
  have "utf8_run [] (take i bs @ bs ! i # drop (Suc i) bs) = Some []" using assms(1) bs by (simp add: utf8_valid_run)
  then obtain p where p: "utf8_run [] (take i bs) = Some p" "utf8_run p (bs ! i # drop (Suc i) bs) = Some []"
    by (auto simp: utf8_run_append split: option.splits)
  then obtain q where q: "utf8_step p (bs ! i) = Some q" by (auto split: option.splits)
  have "p = [] \<longleftrightarrow> \<not> is_cont (bs ! i)" using utf8_step_cont [OF q] utf8_step_lead [of "bs ! i" q] q by blast
  moreover have "i = 0 \<Longrightarrow> p = []" using p(1) by simp
  ultimately show ?thesis using p(1) True by (auto simp: utf8_valid_run is_char_boundary_def)
qed (use assms in \<open>simp add: is_char_boundary_def\<close>)

lemma boundary_below_max:
  "is_char_boundary bs (boundary_below bs k) \<and> boundary_below bs k \<le> k \<and> (\<forall>j\<le>k. is_char_boundary bs j \<longrightarrow> j \<le> boundary_below bs k)"
proof (induction bs k rule: boundary_below.induct)
  case (1 bs k)
  show ?case
  proof (cases "is_char_boundary bs k")
    case False
    then have k: "boundary_below bs k = boundary_below bs (k - 1)" "k \<noteq> 0" by (auto simp: boundary_below.simps [of bs k] is_char_boundary_def)
    have "j \<le> k - 1" if "j \<le> k" "is_char_boundary bs j" for j using that False by (cases "j = k") auto
    then show ?thesis using 1 [OF False] k by fastforce
  qed (simp add: boundary_below.simps [of bs k])
qed

section \<open>Properties\<close>

text \<open>
  C21. At every moment of a connection at most one Ping is outstanding: a Ping falls due only
  with none outstanding and after a whole interval without input, its payload is eight bytes, a
  Pong deadline exists exactly for a flushed Ping when a timeout is configured, an early Pong is
  remembered only until the flush, and a stopped heartbeat has no deadline and no Ping.
\<close>

theorem heartbeat_invariant:
  assumes "hb_reach cfg h n"
  shows "(\<forall>p. outstanding h = Some p \<longrightarrow> ping_ok h p)
    \<and> (\<forall>now payload h' n'. ping_due h now n = (Some payload, h', n') \<longrightarrow>
         outstanding h = None \<and> length payload = 8
         \<and> saturating_add (last_inbound_ms h) (seconds_ms (cfg_ping_interval cfg)) \<le> now)
    \<and> (stopped h \<longrightarrow> next_deadline h = None \<and> outstanding h = None)"
proof -
  note inv = hb_reach_inv [OF assms]
  have "outstanding h = None \<and> length payload = 8
      \<and> saturating_add (last_inbound_ms h) (seconds_ms (cfg_ping_interval cfg)) \<le> now"
    if "ping_due h now n = (Some payload, h', n')" for now payload h' n'
    by (rule ping_due_cases [of h now n]) (use that inv in \<open>auto simp: hb_inv_def dest!: next_deadline_ping\<close>)
  moreover have "stopped h \<longrightarrow> outstanding h = None" using inv by (cases "outstanding h") (auto simp: hb_inv_def ping_ok_def)
  ultimately show ?thesis using inv by (auto simp: hb_inv_def next_deadline_def)
qed

theorem heartbeat_invariant_witness:
  "ping_ok
     (heartbeat_new uws_defaults 0\<lparr>outstanding := Some \<lparr>op_payload = u64_to_be_bytes 3, deadline_ms = None, flushed = False, acknowledged = False\<rparr>\<rparr>)
     \<lparr>op_payload = u64_to_be_bytes 3, deadline_ms = None, flushed = False, acknowledged = False\<rparr>"
proof -
  let ?p = "\<lparr>op_payload = u64_to_be_bytes 3, deadline_ms = None, flushed = False, acknowledged = False\<rparr>"
  let ?h = "heartbeat_new uws_defaults 0"
  have "next_deadline ?h = Some (PingAt 30000)"
    by (simp add: next_deadline_def heartbeat_new_def uws_defaults_def idle_deadline_def seconds_ms_def saturating_add_def U64_MAX_def)
  then have "hb_step (?h, 3) (PingDue 40000) = (?h\<lparr>outstanding := Some ?p\<rparr>, 4)"
    by (simp add: ping_due_def Let_def)
  then have "hb_reach uws_defaults (?h\<lparr>outstanding := Some ?p\<rparr>) 4" by (rule hb_reach.event [OF hb_reach.start])
  from heartbeat_invariant [OF this] show ?thesis by simp
qed

text \<open>
  C24. Timers are set early enough: the next deadline of a connection is no later than its idle
  deadline and its Pong deadline, and there is one whenever the connection waits for input, for
  a Pong or for the time of the next Ping.
\<close>

theorem deadlines_timely:
  assumes "\<not> stopped h"
  shows "(\<forall>d. next_deadline h = Some d \<longrightarrow>
      (\<forall>t. idle_deadline h = Some t \<longrightarrow> deadline_at d \<le> t)
      \<and> (\<forall>p t. outstanding h = Some p \<and> deadline_ms p = Some t \<longrightarrow> deadline_at d \<le> t))
    \<and> (idle_timeout_ms h \<noteq> 0 \<or> auto_ping h \<and> outstanding h = None
       \<or> (\<exists>p. outstanding h = Some p \<and> deadline_ms p \<noteq> None) \<longrightarrow> next_deadline h \<noteq> None)"
  using assms
  by (cases "outstanding h")
    (auto simp: next_deadline_def next_hard_deadline_def idle_deadline_def Let_def split: option.splits if_splits)

theorem deadlines_timely_witness:
  "next_deadline (heartbeat_new config_default 0) \<noteq> None"
proof -
  have "idle_timeout_ms (heartbeat_new config_default 0) \<noteq> 0" "\<not> stopped (heartbeat_new config_default 0)"
    by (simp_all add: heartbeat_new_def config_default_def seconds_ms_def)
  then show ?thesis using deadlines_timely by blast
qed

definition answers :: "bytes \<Rightarrow> nat \<Rightarrow> hb_event \<Rightarrow> bool" where
  "answers payload deadline e =
     (case e of Inbound now pong \<Rightarrow> pong = Some payload \<and> now < deadline | Stop \<Rightarrow> True | _ \<Rightarrow> False)"

lemma unanswered_step:
  assumes "outstanding h = Some p" "flushed p" "deadline_ms p = Some d" "\<not> stopped h" "\<not> answers (op_payload p) d e"
    and "hb_step (h, n) e = (h', n')"
  shows "outstanding h' = Some p \<and> \<not> stopped h'"
proof (cases e)
  case (PingDue now)
  then show ?thesis
    by - (rule ping_due_cases [of h now n], use assms in \<open>auto dest: next_deadline_ping\<close>)
qed (use assms in \<open>auto simp: ping_flushed_def on_inbound_def answers_def Let_def split: if_splits\<close>)

lemma unanswered_steps:
  "outstanding h = Some p \<Longrightarrow> flushed p \<Longrightarrow> deadline_ms p = Some d \<Longrightarrow> \<not> stopped h \<Longrightarrow>
     list_all (\<lambda>e. \<not> answers (op_payload p) d e) es \<Longrightarrow> foldl hb_step (h, n) es = (h', n') \<Longrightarrow>
     outstanding h' = Some p \<and> \<not> stopped h'"
proof (induction es arbitrary: h n)
  case (Cons e es)
  obtain h1 n1 where s: "hb_step (h, n) e = (h1, n1)" by force
  from unanswered_step [OF Cons.prems(1-4) _ s] Cons.prems(5) have "outstanding h1 = Some p \<and> \<not> stopped h1" by simp
  then show ?case using Cons.IH [of h1 n1] Cons.prems s by simp
qed simp

text \<open>
  C22. A peer that does not answer is noticed: as long as no Pong with the payload of the flushed
  Ping arrives before its deadline and the heartbeat is not stopped, nothing, neither other input
  nor other Pongs nor timer calls, moves that deadline, and the next deadline is not after it.
\<close>

theorem unanswered_ping_times_out:
  assumes "outstanding h = Some p" "flushed p" "deadline_ms p = Some d" "\<not> stopped h"
    and "list_all (\<lambda>e. \<not> answers (op_payload p) d e) es" "foldl hb_step (h, n) es = (h', n')"
  shows "\<exists>x. next_deadline h' = Some x \<and> deadline_at x \<le> d \<and> outstanding h' = Some p"
  using unanswered_steps [OF assms] assms(3)
  by (auto simp: next_deadline_def next_hard_deadline_def Let_def split: option.split)

theorem unanswered_ping_times_out_witness:
  "\<exists>x. next_deadline (fst (foldl hb_step
       (heartbeat_new config_default 0\<lparr>outstanding := Some \<lparr>op_payload = [1], deadline_ms = Some 50, flushed = True, acknowledged = False\<rparr>\<rparr>, 7)
       [Inbound 20 None, Inbound 60 (Some [1])])) = Some x \<and> deadline_at x \<le> 50"
proof -
  let ?p = "\<lparr>op_payload = [1], deadline_ms = Some 50, flushed = True, acknowledged = False\<rparr>"
  let ?h = "heartbeat_new config_default 0\<lparr>outstanding := Some ?p\<rparr>"
  have "\<not> stopped ?h" by (simp add: heartbeat_new_def)
  then show ?thesis
    using unanswered_ping_times_out [of ?h ?p 50 "[Inbound 20 None, Inbound 60 (Some [1])]" 7, OF _ _ _ _ _ surjective_pairing]
    by (simp add: answers_def) blast
qed

text \<open>
  C23. Only the Pong of the outstanding Ping counts: a Pong that carries the payload of an earlier
  Ping, drawn less than \<open>2^64\<close> nonces before, does not clear the outstanding one, and the Pong of the
  outstanding one, in time, does, so that the next Ping can fall due.
\<close>

theorem pong_correlation:
  assumes "ping_due h now n = (Some old, h1, n1)" "ping_due g now' (n + of_nat k) = (Some payload, g1, n2)"
    and "0 < k" "k < 2 ^ 64" "ping_flushed g1 t = g2"
  shows "\<not> fst (on_inbound g2 s (Some old)) \<and> outstanding (snd (on_inbound g2 s (Some old))) = outstanding g2
    \<and> (pong_timeout_ms g \<noteq> 0 \<and> saturating_add t (pong_timeout_ms g) \<le> s \<or>
       fst (on_inbound g2 s (Some payload)) \<and> outstanding (snd (on_inbound g2 s (Some payload))) = None)"
proof -
  have o: "old = u64_to_be_bytes n" by (rule ping_due_cases [of h now n]) (use assms(1) in auto)
  have g: "payload = u64_to_be_bytes (n + of_nat k)" "\<not> stopped g"
    "g1 = g\<lparr>outstanding := Some \<lparr>op_payload = payload, deadline_ms = None, flushed = False, acknowledged = False\<rparr>\<rparr>"
    by (rule ping_due_cases [of g now' "n + of_nat k"]; use assms(2) in \<open>auto dest: next_deadline_ping\<close>)+
  have "unat (of_nat k :: u64) = k" using assms(4) by (simp add: unsigned_of_nat take_bit_nat_eq_self)
  then have "(of_nat k :: u64) \<noteq> 0" using assms(3) by auto
  then have ne: "old \<noteq> payload" using o g(1) u64_be_roundtrip by (metis add_cancel_right_right)
  show ?thesis using assms(5) g ne by (cases "pong_timeout_ms g = 0") (auto simp: ping_flushed_def on_inbound_def Let_def)
qed

theorem pong_correlation_witness:
  "fst (on_inbound (ping_flushed (fst (snd (ping_due (heartbeat_new uws_defaults 0) 40000 3))) 40001) 40002 (Some (u64_to_be_bytes 3)))
   \<and> \<not> fst (on_inbound (ping_flushed (fst (snd (ping_due (heartbeat_new uws_defaults 0) 40000 3))) 40001) 40002 (Some (u64_to_be_bytes 2)))"
proof -
  have d: "next_deadline (heartbeat_new uws_defaults 0) = Some (PingAt 30000)"
    by (simp add: next_deadline_def heartbeat_new_def uws_defaults_def idle_deadline_def seconds_ms_def saturating_add_def U64_MAX_def)
  have p: "ping_due (heartbeat_new uws_defaults 0) 40000 m = (Some (u64_to_be_bytes m), fst (snd (ping_due (heartbeat_new uws_defaults 0) 40000 m)), m + 1)" for m
    by (simp add: ping_due_def d Let_def)
  have "pong_timeout_ms (heartbeat_new uws_defaults 0) = 10000" "saturating_add 40001 10000 = 50001"
    by (simp_all add: heartbeat_new_def uws_defaults_def seconds_ms_def saturating_add_def U64_MAX_def)
  then show ?thesis
    using pong_correlation [OF p [of 2] p [of "2 + of_nat 1"] _ _ refl, of 40001 40002] by simp
qed

text \<open>
  C25. The reason of a timeout close frame fits the control frame: it has at most 123 bytes, is
  valid UTF-8, and is the longest such beginning of the configured reason; the search for the
  character boundary ends.
\<close>

theorem bounded_close_reason_fits:
  assumes "utf8_valid r"
  shows "length (bounded_close_reason r) \<le> 123 \<and> utf8_valid (bounded_close_reason r)
    \<and> (\<exists>k. bounded_close_reason r = take k r)
    \<and> (\<forall>k. k \<le> 123 \<and> k \<le> length r \<and> utf8_valid (take k r) \<longrightarrow> k \<le> length (bounded_close_reason r))"
proof (cases "length r \<le> 123")
  case True
  then show ?thesis using assms by (auto simp: bounded_close_reason_def intro: exI [of _ "length r"])
next
  case False
  let ?b = "boundary_below r 123"
  have b: "is_char_boundary r ?b" "?b \<le> 123" "\<And>j. j \<le> 123 \<Longrightarrow> is_char_boundary r j \<Longrightarrow> j \<le> ?b"
    using boundary_below_max [of r 123] by blast+
  have "utf8_valid (take ?b r)" using utf8_valid_take [OF assms, of ?b] b(1,2) False by simp
  moreover have "k \<le> ?b" if "k \<le> 123" "utf8_valid (take k r)" for k
    using utf8_valid_take [OF assms, of k] b(3) that False by simp
  ultimately show ?thesis using False b(2) by (auto simp: bounded_close_reason_def)
qed

theorem bounded_close_reason_fits_witness:
  "length (bounded_close_reason (replicate 122 65 @ [0xE2, 0x82, 0xAC])) \<le> 123
   \<and> utf8_valid (bounded_close_reason (replicate 122 65 @ [0xE2, 0x82, 0xAC]))"
proof -
  have "utf8_valid (replicate 122 65 @ [0xE2, 0x82, 0xAC])" by code_simp
  then show ?thesis using bounded_close_reason_fits by blast
qed

end
