(* ===== verification/WS_Ring.thy ===== *)
theory WS_Ring
  imports WS_Config
begin

text \<open>
  The single-producer single-consumer ring of \<^verbatim>\<open>src/queue.rs\<close>. The calls are given twice: as functions,
  for callers that do not overlap, and as their memory accesses in \<open>spsc_step\<close>, for one producer and
  one consumer running at the same time. The counters are words and wrap around. The locale
  \<open>bounded_fifo\<close> is what both queues of the file promise to callers that do not overlap.
\<close>

unbundle bit_operations_syntax

section \<open>The single-producer single-consumer ring\<close>

text \<open>A slot of the buffer is \<open>None\<close> until it has been written (\<^verbatim>\<open>MaybeUninit\<close>).\<close>

record 'a spsc_queue =
  sq_head :: u64
  sq_tail :: u64
  sq_buffer :: "'a option list"

definition spsc_new :: "nat \<Rightarrow> 'a spsc_queue" where
  "spsc_new n = \<lparr>sq_head = 0, sq_tail = 0, sq_buffer = replicate n None\<rparr>"

definition ring_mask :: "nat \<Rightarrow> u64" where
  "ring_mask n = of_nat (n - 1)"

definition ring_slot :: "nat \<Rightarrow> u64 \<Rightarrow> nat" where
  "ring_slot n pos = unat (pos AND ring_mask n)"

definition spsc_full :: "nat \<Rightarrow> u64 \<Rightarrow> u64 \<Rightarrow> bool" where
  "spsc_full n head tail \<longleftrightarrow> n \<le> unat (head - tail)"

definition spsc_is_empty :: "'a spsc_queue \<Rightarrow> bool" where
  "spsc_is_empty q \<longleftrightarrow> sq_tail q = sq_head q"

definition spsc_len :: "'a spsc_queue \<Rightarrow> nat" where
  "spsc_len q = unat (sq_head q - sq_tail q)"

definition spsc_try_push :: "nat \<Rightarrow> 'a spsc_queue \<Rightarrow> 'a \<Rightarrow> (unit, 'a) result \<times> 'a spsc_queue" where
  "spsc_try_push n q item =
     (let head = sq_head q; tail = sq_tail q in
      if spsc_full n head tail then (Err item, q)
      else (Ok (), q\<lparr>sq_buffer := (sq_buffer q)[ring_slot n head := Some item], sq_head := head + 1\<rparr>))"

text \<open>Reading a slot that was never written is undefined; it counts as a panic.\<close>

definition spsc_try_pop :: "nat \<Rightarrow> 'a spsc_queue \<Rightarrow> ('a option, unit) result \<times> 'a spsc_queue" where
  "spsc_try_pop n q =
     (let tail = sq_tail q; head = sq_head q in
      if tail = head then (Ok None, q)
      else case sq_buffer q ! ring_slot n tail of
        None \<Rightarrow> (Panic, q)
      | Some item \<Rightarrow> (Ok (Some item), q\<lparr>sq_tail := tail + 1\<rparr>))"

text \<open>Dropping the ring pops what is left.\<close>

partial_function (option) spsc_drop :: "nat \<Rightarrow> 'a spsc_queue \<Rightarrow> 'a spsc_queue option" where
  "spsc_drop n q =
     (case spsc_try_pop n q of
        (Ok (Some _), q) \<Rightarrow> spsc_drop n q
      | (_, q) \<Rightarrow> Some q)"

text \<open>
  The two calls as their memory accesses, in program order. Each of \<^verbatim>\<open>head\<close> and \<^verbatim>\<open>tail\<close> is written by one
  thread and published with release and acquire, so an execution is an interleaving of these
  accesses. A call that has returned is \<open>idle\<close>.
\<close>

datatype 'a spsc_producer =
    PIdle
  | PHead 'a u64
  | PTail 'a u64 u64
  | PWrote u64 'a

datatype 'a spsc_consumer =
    CIdle
  | CTail u64
  | CHead u64 u64
  | CRead u64 "'a option"

record 'a spsc_system =
  ring :: "'a spsc_queue"
  producer :: "'a spsc_producer"
  consumer :: "'a spsc_consumer"
  pushed :: "'a list"
  popped :: "'a option list"

text \<open>\<open>pushed\<close> and \<open>popped\<close> record the items of the calls that have succeeded; an entry \<open>None\<close> is a read of a slot never written.\<close>

inductive spsc_step :: "nat \<Rightarrow> 'a spsc_system \<Rightarrow> 'a spsc_system \<Rightarrow> bool" for n where
  push_load_head: "producer s = PIdle \<Longrightarrow> spsc_step n s (s\<lparr>producer := PHead x (sq_head (ring s))\<rparr>)"
| push_load_tail: "producer s = PHead x h \<Longrightarrow> spsc_step n s (s\<lparr>producer := PTail x h (sq_tail (ring s))\<rparr>)"
| push_full: "producer s = PTail x h t \<Longrightarrow> spsc_full n h t \<Longrightarrow> spsc_step n s (s\<lparr>producer := PIdle\<rparr>)"
| push_write: "producer s = PTail x h t \<Longrightarrow> \<not> spsc_full n h t \<Longrightarrow>
    spsc_step n s (s\<lparr>producer := PWrote h x, ring := (ring s)\<lparr>sq_buffer := (sq_buffer (ring s))[ring_slot n h := Some x]\<rparr>\<rparr>)"
| push_store_head: "producer s = PWrote h x \<Longrightarrow>
    spsc_step n s (s\<lparr>producer := PIdle, ring := (ring s)\<lparr>sq_head := h + 1\<rparr>, pushed := pushed s @ [x]\<rparr>)"
| pop_load_tail: "consumer s = CIdle \<Longrightarrow> spsc_step n s (s\<lparr>consumer := CTail (sq_tail (ring s))\<rparr>)"
| pop_load_head: "consumer s = CTail t \<Longrightarrow> spsc_step n s (s\<lparr>consumer := CHead t (sq_head (ring s))\<rparr>)"
| pop_empty: "consumer s = CHead t h \<Longrightarrow> t = h \<Longrightarrow> spsc_step n s (s\<lparr>consumer := CIdle\<rparr>)"
| pop_read: "consumer s = CHead t h \<Longrightarrow> t \<noteq> h \<Longrightarrow>
    spsc_step n s (s\<lparr>consumer := CRead t (sq_buffer (ring s) ! ring_slot n t)\<rparr>)"
| pop_store_tail: "consumer s = CRead t x \<Longrightarrow>
    spsc_step n s (s\<lparr>consumer := CIdle, ring := (ring s)\<lparr>sq_tail := t + 1\<rparr>, popped := popped s @ [x]\<rparr>)"

definition spsc_start :: "nat \<Rightarrow> 'a spsc_system" where
  "spsc_start n = \<lparr>ring = spsc_new n, producer = PIdle, consumer = CIdle, pushed = [], popped = []\<rparr>"

definition spsc_reach :: "nat \<Rightarrow> 'a spsc_system \<Rightarrow> bool" where
  "spsc_reach n s \<longleftrightarrow> (spsc_step n)\<^sup>*\<^sup>* (spsc_start n) s"

section \<open>Positions and slots\<close>

definition ring_size :: "nat \<Rightarrow> bool" where
  "ring_size n \<longleftrightarrow> (\<exists>k<64. n = 2 ^ k)"

lemma ring_slot_of_nat: "ring_size n \<Longrightarrow> ring_slot n (of_nat p) = p mod n"
proof -
  assume "ring_size n"
  then obtain k where k: "k < 64" "n = 2 ^ k" by (auto simp: ring_size_def)
  have "ring_mask n = Bit_Operations.mask k" using k by (simp add: ring_mask_def mask_eq_exp_minus_1 of_nat_diff)
  then have "ring_slot n (of_nat p) = take_bit k (unat (of_nat p :: u64))"
    by (simp add: ring_slot_def unsigned_take_bit_eq flip: take_bit_eq_mask)
  also have "\<dots> = take_bit k p" using k(1) by (simp add: unsigned_of_nat)
  finally show ?thesis using k by (simp add: take_bit_eq_mod)
qed

lemma ring_size_pos: "ring_size n \<Longrightarrow> 0 < n \<and> n < 2 ^ 64"
proof -
  assume "ring_size n"
  then obtain k where "k < 64" "n = 2 ^ k" by (auto simp: ring_size_def)
  then show ?thesis using power_strict_increasing [of k 64 "2 :: nat"] by simp
qed

lemma unat_of_nat_diff: "a \<le> b \<Longrightarrow> b - a < 2 ^ 64 \<Longrightarrow> unat (of_nat b - of_nat a :: u64) = b - a"
  by (simp add: unsigned_of_nat take_bit_nat_eq_self flip: of_nat_diff)

lemma of_nat_eq_close: "a \<le> b \<Longrightarrow> b - a < 2 ^ 64 \<Longrightarrow> (of_nat a :: u64) = of_nat b \<longleftrightarrow> a = b"
  using unat_of_nat_diff [of a b] by auto

lemma mod_close: "a < b \<Longrightarrow> b - a < n \<Longrightarrow> a mod n \<noteq> b mod n" for a b n :: nat
  by (metis diff_is_0_eq' less_imp_le_nat mod_eq_dvd_iff_nat nat_dvd_not_less not_less zero_less_diff)

section \<open>The invariant of the ring\<close>

text \<open>
  With \<open>H\<close> items pushed and \<open>T\<close> popped, the positions from \<open>T\<close> to \<open>H\<close> are filled with the items not yet
  popped. A thread in the middle of a call knows its own counter and an old value of the other.
\<close>

definition spsc_ring_ok :: "nat \<Rightarrow> 'a spsc_queue \<Rightarrow> 'a list \<Rightarrow> nat \<Rightarrow> bool" where
  "spsc_ring_ok n q items T \<longleftrightarrow> ring_size n \<and> length (sq_buffer q) = n \<and> T \<le> length items \<and> length items - T \<le> n
     \<and> sq_head q = of_nat (length items) \<and> sq_tail q = of_nat T
     \<and> (\<forall>i. T \<le> i \<and> i < length items \<longrightarrow> sq_buffer q ! (i mod n) = Some (items ! i))"

definition producer_ok :: "nat \<Rightarrow> 'a spsc_queue \<Rightarrow> nat \<Rightarrow> nat \<Rightarrow> 'a spsc_producer \<Rightarrow> bool" where
  "producer_ok n q H T p =
     (case p of
        PIdle \<Rightarrow> True
      | PHead _ h \<Rightarrow> h = of_nat H
      | PTail _ h t \<Rightarrow> h = of_nat H \<and> (\<exists>T'\<le>T. t = of_nat T' \<and> H - T' \<le> n)
      | PWrote h x \<Rightarrow> h = of_nat H \<and> H - T < n \<and> sq_buffer q ! (H mod n) = Some x)"

definition consumer_ok :: "'a list \<Rightarrow> nat \<Rightarrow> 'a spsc_consumer \<Rightarrow> bool" where
  "consumer_ok items T c =
     (case c of
        CIdle \<Rightarrow> True
      | CTail t \<Rightarrow> t = of_nat T
      | CHead t h \<Rightarrow> t = of_nat T \<and> (\<exists>H'. T \<le> H' \<and> H' \<le> length items \<and> h = of_nat H')
      | CRead t x \<Rightarrow> t = of_nat T \<and> T < length items \<and> x = Some (items ! T))"

definition spsc_inv :: "nat \<Rightarrow> 'a spsc_system \<Rightarrow> bool" where
  "spsc_inv n s \<longleftrightarrow>
     (let T = length (popped s) in
      spsc_ring_ok n (ring s) (pushed s) T \<and> popped s = map Some (take T (pushed s))
      \<and> producer_ok n (ring s) (length (pushed s)) T (producer s) \<and> consumer_ok (pushed s) T (consumer s))"

lemma spsc_inv_start: "ring_size n \<Longrightarrow> spsc_inv n (spsc_start n)"
  by (simp add: spsc_inv_def spsc_start_def spsc_new_def spsc_ring_ok_def producer_ok_def consumer_ok_def)

lemma spsc_write_ok:
  assumes "spsc_ring_ok n q items T" "length items - T < n"
  shows "spsc_ring_ok n (q\<lparr>sq_buffer := (sq_buffer q)[length items mod n := Some x]\<rparr>) items T"
proof -
  have "length items mod n \<noteq> i mod n" if "T \<le> i" "i < length items" for i
    using mod_close [of i "length items" n] that assms(2) by linarith
  then show ?thesis using assms(1) by (simp add: spsc_ring_ok_def nth_list_update_neq)
qed

lemma spsc_full_iff:
  "spsc_ring_ok n q items T \<Longrightarrow> T' \<le> T \<Longrightarrow> length items - T' \<le> n \<Longrightarrow>
     spsc_full n (of_nat (length items)) (of_nat T') \<longleftrightarrow> length items - T' = n"
  using ring_size_pos [of n] unat_of_nat_diff [of T' "length items"] by (auto simp: spsc_full_def spsc_ring_ok_def)

lemma spsc_publish_ok:
  assumes "spsc_ring_ok n q items T" "length items - T < n" "sq_buffer q ! (length items mod n) = Some x"
  shows "spsc_ring_ok n (q\<lparr>sq_head := of_nat (length items) + 1\<rparr>) (items @ [x]) T"
  using assms by (auto simp: spsc_ring_ok_def nth_append less_Suc_eq add.commute)

lemma spsc_consume_ok:
  assumes "spsc_ring_ok n q items T" "T < length items"
  shows "spsc_ring_ok n (q\<lparr>sq_tail := of_nat T + 1\<rparr>) items (Suc T)"
  using assms by (auto simp: spsc_ring_ok_def add.commute)

lemma spsc_slot_filled:
  assumes "spsc_ring_ok n q items T" "T < length items"
  shows "sq_buffer q ! ring_slot n (of_nat T) = Some (items ! T)"
  using assms by (simp add: spsc_ring_ok_def ring_slot_of_nat)

lemma spsc_inv_step: "spsc_step n s s' \<Longrightarrow> spsc_inv n s \<Longrightarrow> spsc_inv n s'"
proof (induction rule: spsc_step.induct)
  case (push_load_tail s x h)
  then have "producer_ok n (ring s) (length (pushed s)) (length (popped s)) (PTail x h (sq_tail (ring s)))"
    by (auto simp: spsc_inv_def producer_ok_def spsc_ring_ok_def Let_def)
  then show ?case using push_load_tail by (simp add: spsc_inv_def Let_def)
next
  case (push_write s x h t)
  let ?H = "length (pushed s)" and ?T = "length (popped s)"
  have ok: "spsc_ring_ok n (ring s) (pushed s) ?T" using push_write by (simp add: spsc_inv_def Let_def)
  obtain T' where t: "h = of_nat ?H" "T' \<le> ?T" "t = of_nat T'" "?H - T' \<le> n"
    using push_write by (auto simp: spsc_inv_def producer_ok_def Let_def)
  have room: "?H - ?T < n" using spsc_full_iff [OF ok t(2,4)] push_write(2) t by auto
  have slot: "ring_slot n h = ?H mod n" "?H mod n < n"
    using ok t(1) ring_size_pos [of n] by (auto simp: spsc_ring_ok_def ring_slot_of_nat)
  show ?case
    using push_write(3) spsc_write_ok [OF ok room, of x] room slot t(1) ok
    by (simp add: spsc_inv_def producer_ok_def spsc_ring_ok_def Let_def)
next
  case (push_store_head s h x)
  let ?H = "length (pushed s)" and ?T = "length (popped s)"
  have ok: "spsc_ring_ok n (ring s) (pushed s) ?T" and w: "h = of_nat ?H" "?H - ?T < n" "sq_buffer (ring s) ! (?H mod n) = Some x"
    using push_store_head by (auto simp: spsc_inv_def producer_ok_def Let_def)
  have T: "?T \<le> ?H" using ok by (simp add: spsc_ring_ok_def)
  have c: "consumer_ok (pushed s @ [x]) ?T (consumer s)"
    using push_store_head(2) by (cases "consumer s") (auto simp: spsc_inv_def consumer_ok_def nth_append Let_def)
  show ?case
    using push_store_head(2) spsc_publish_ok [OF ok w(2,3)] w(1) T c by (simp add: spsc_inv_def producer_ok_def Let_def)
next
  case (pop_load_head s t)
  then show ?case by (auto simp: spsc_inv_def consumer_ok_def spsc_ring_ok_def Let_def)
next
  case (pop_read s t h)
  let ?T = "length (popped s)"
  have ok: "spsc_ring_ok n (ring s) (pushed s) ?T" using pop_read by (simp add: spsc_inv_def Let_def)
  obtain H' where h: "t = of_nat ?T" "?T \<le> H'" "H' \<le> length (pushed s)" "h = of_nat H'"
    using pop_read by (auto simp: spsc_inv_def consumer_ok_def Let_def)
  then have "?T < length (pushed s)" using pop_read(2) by (cases "?T = H'") auto
  then show ?case
    using pop_read(3) h(1) spsc_slot_filled [OF ok] by (simp add: spsc_inv_def consumer_ok_def Let_def)
next
  case (pop_store_tail s t x)
  let ?T = "length (popped s)"
  have ok: "spsc_ring_ok n (ring s) (pushed s) ?T" and r: "t = of_nat ?T" "?T < length (pushed s)" "x = Some (pushed s ! ?T)"
    using pop_store_tail by (auto simp: spsc_inv_def consumer_ok_def Let_def)
  have p: "producer_ok n ((ring s)\<lparr>sq_tail := t + 1\<rparr>) (length (pushed s)) (Suc ?T) (producer s)"
    using pop_store_tail(2) by (cases "producer s") (auto simp: spsc_inv_def producer_ok_def Let_def intro: le_SucI)
  show ?case
    using pop_store_tail(2) spsc_consume_ok [OF ok r(2)] r p
    by (simp add: spsc_inv_def consumer_ok_def take_Suc_conv_app_nth Let_def)
qed (auto simp: spsc_inv_def producer_ok_def consumer_ok_def spsc_ring_ok_def Let_def)

lemma spsc_reach_inv:
  assumes "ring_size n" "spsc_reach n s"
  shows "spsc_inv n s"
  using assms(2) unfolding spsc_reach_def
  by (induction rule: rtranclp_induct) (auto intro: spsc_inv_start [OF assms(1)] spsc_inv_step)

section \<open>Calls that run alone\<close>

text \<open>
  Sequences of calls, \<open>Some x\<close> for a push of \<open>x\<close> and \<open>None\<close> for a pop, with the result of every call. A call
  that does not return makes the whole run \<open>None\<close>. The reference is a list of at most \<open>cap\<close> items: it
  rejects an item exactly when it is full and gives items back from its front.
\<close>

type_synonym 'a call_result = "(unit, 'a) result + ('a option, unit) result"

fun run_calls :: "('q \<Rightarrow> 'a \<Rightarrow> ((unit, 'a) result \<times> 'q) option) \<Rightarrow> ('q \<Rightarrow> (('a option, unit) result \<times> 'q) option)
    \<Rightarrow> 'q \<Rightarrow> 'a option list \<Rightarrow> ('a call_result list \<times> 'q) option" where
  "run_calls push pop q [] = Some ([], q)"
| "run_calls push pop q (Some x # cs) =
     Option.bind (push q x) (\<lambda>(r, q). map_option (apfst ((#) (Inl r))) (run_calls push pop q cs))"
| "run_calls push pop q (None # cs) =
     Option.bind (pop q) (\<lambda>(r, q). map_option (apfst ((#) (Inr r))) (run_calls push pop q cs))"

fun fifo_calls :: "nat \<Rightarrow> 'a list \<Rightarrow> 'a option list \<Rightarrow> 'a call_result list \<times> 'a list" where
  "fifo_calls cap xs [] = ([], xs)"
| "fifo_calls cap xs (Some x # cs) =
     (if length xs < cap then apfst ((#) (Inl (Ok ()))) (fifo_calls cap (xs @ [x]) cs)
      else apfst ((#) (Inl (Err x))) (fifo_calls cap xs cs))"
| "fifo_calls cap xs (None # cs) =
     (case xs of [] \<Rightarrow> apfst ((#) (Inr (Ok None))) (fifo_calls cap [] cs)
      | y # ys \<Rightarrow> apfst ((#) (Inr (Ok (Some y)))) (fifo_calls cap ys cs))"

text \<open>
  What a bounded queue promises to callers that do not overlap: its calls return, it never holds more than its
  capacity, rejects an item exactly when full and gives items back in their order.
\<close>

locale bounded_fifo =
  fixes ok :: "'q \<Rightarrow> bool"
    and content :: "'q \<Rightarrow> 'a list"
    and capacity :: nat
    and push :: "'q \<Rightarrow> 'a \<Rightarrow> ((unit, 'a) result \<times> 'q) option"
    and pop :: "'q \<Rightarrow> (('a option, unit) result \<times> 'q) option"
  assumes content_bounded: "ok q \<Longrightarrow> length (content q) \<le> capacity"
    and push_full: "ok q \<Longrightarrow> length (content q) = capacity \<Longrightarrow> push q x = Some (Err x, q)"
    and push_room: "ok q \<Longrightarrow> length (content q) < capacity \<Longrightarrow>
      \<exists>q'. push q x = Some (Ok (), q') \<and> ok q' \<and> content q' = content q @ [x]"
    and pop_empty: "ok q \<Longrightarrow> content q = [] \<Longrightarrow> pop q = Some (Ok None, q)"
    and pop_front: "ok q \<Longrightarrow> content q = x # xs \<Longrightarrow> \<exists>q'. pop q = Some (Ok (Some x), q') \<and> ok q' \<and> content q' = xs"
begin

lemma calls_refine:
  "ok q \<Longrightarrow> \<exists>q'. run_calls push pop q cs = Some (fst (fifo_calls capacity (content q) cs), q') \<and> ok q'
     \<and> content q' = snd (fifo_calls capacity (content q) cs)"
proof (induction cs arbitrary: q)
  case (Cons c cs)
  show ?case
  proof (cases c)
    case (Some x)
    show ?thesis
    proof (cases "length (content q) = capacity")
      case True
      then show ?thesis using Cons.IH [OF Cons.prems] push_full [OF Cons.prems True, of x] Some by auto
    next
      case False
      then have l: "length (content q) < capacity" using content_bounded [OF Cons.prems] by simp
      then obtain q1 where "push q x = Some (Ok (), q1)" "ok q1" "content q1 = content q @ [x]"
        using push_room [OF Cons.prems] by blast
      then show ?thesis using Cons.IH [of q1] l Some by auto
    qed
  next
    case None
    show ?thesis
    proof (cases "content q")
      case Nil
      then show ?thesis using Cons.IH [OF Cons.prems] pop_empty [OF Cons.prems Nil] None by auto
    next
      case front: (Cons x xs)
      then obtain q1 where "pop q = Some (Ok (Some x), q1)" "ok q1" "content q1 = xs"
        using pop_front [OF Cons.prems] by blast
      then show ?thesis using Cons.IH [of q1] front None by auto
    qed
  qed
qed simp

end

definition spsc_content :: "nat \<Rightarrow> 'a spsc_queue \<Rightarrow> 'a list" where
  "spsc_content n q =
     map (\<lambda>i. the (sq_buffer q ! ring_slot n (sq_tail q + of_nat i))) [0..<spsc_len q]"

definition spsc_ok :: "nat \<Rightarrow> 'a spsc_queue \<Rightarrow> bool" where
  "spsc_ok n q \<longleftrightarrow> (\<exists>items T. spsc_ring_ok n q items T)"

lemma spsc_len_eq: "spsc_ring_ok n q items T \<Longrightarrow> spsc_len q = length items - T"
  using ring_size_pos [of n] unat_of_nat_diff [of T "length items"] by (auto simp: spsc_len_def spsc_ring_ok_def)

lemma spsc_content_eq: "spsc_ring_ok n q items T \<Longrightarrow> spsc_content n q = drop T items"
proof (rule nth_equalityI)
  assume ok: "spsc_ring_ok n q items T"
  then show l: "length (spsc_content n q) = length (drop T items)" by (simp add: spsc_content_def spsc_len_eq)
  fix i
  assume "i < length (spsc_content n q)"
  then have i: "T + i < length items" using l ok by (simp add: spsc_ring_ok_def)
  have "ring_slot n (sq_tail q + of_nat i) = (T + i) mod n"
    using ok ring_slot_of_nat [of n "T + i"] by (simp add: spsc_ring_ok_def)
  moreover have "sq_buffer q ! ((T + i) mod n) = Some (items ! (T + i))"
    using ok i unfolding spsc_ring_ok_def by (metis le_add1)
  ultimately show "spsc_content n q ! i = drop T items ! i"
    using i by (simp add: spsc_content_def spsc_len_eq [OF ok] ok [unfolded spsc_ring_ok_def])
qed

lemma spsc_push_alone:
  assumes "spsc_ring_ok n q items T"
  shows "spsc_try_push n q x =
      (if length items - T = n then (Err x, q)
       else (Ok (), q\<lparr>sq_buffer := (sq_buffer q)[length items mod n := Some x], sq_head := of_nat (length items) + 1\<rparr>))"
    "length items - T \<noteq> n \<Longrightarrow> spsc_ring_ok n (snd (spsc_try_push n q x)) (items @ [x]) T"
proof -
  have h: "sq_head q = of_nat (length items)" "sq_tail q = of_nat T" "length items - T \<le> n" "0 < n" "length (sq_buffer q) = n"
    "ring_slot n (of_nat (length items)) = length items mod n"
    using assms ring_size_pos [of n] by (auto simp: spsc_ring_ok_def ring_slot_of_nat)
  show e: "spsc_try_push n q x =
      (if length items - T = n then (Err x, q)
       else (Ok (), q\<lparr>sq_buffer := (sq_buffer q)[length items mod n := Some x], sq_head := of_nat (length items) + 1\<rparr>))"
    using h spsc_full_iff [OF assms order_refl h(3)] by (simp add: spsc_try_push_def Let_def)
  show "spsc_ring_ok n (snd (spsc_try_push n q x)) (items @ [x]) T" if "length items - T \<noteq> n"
    using spsc_publish_ok [OF spsc_write_ok [OF assms, of x]] that h e by simp
qed

interpretation spsc_fifo: bounded_fifo "spsc_ok n" "spsc_content n" n "\<lambda>q x. Some (spsc_try_push n q x)" "\<lambda>q. Some (spsc_try_pop n q)" for n
proof
  fix q :: "'a spsc_queue" and x xs
  assume "spsc_ok n q"
  then obtain items T where r: "spsc_ring_ok n q items T" by (auto simp: spsc_ok_def)
  note c = spsc_content_eq [OF r] and p = spsc_push_alone [OF r]
  have T: "T \<le> length items" "sq_head q = of_nat (length items)" "sq_tail q = of_nat T" using r by (auto simp: spsc_ring_ok_def)
  show "length (spsc_content n q) \<le> n" using c r by (simp add: spsc_ring_ok_def)
  show "Some (spsc_try_push n q x) = Some (Err x, q)" if "length (spsc_content n q) = n" using c p(1) that by simp
  show "\<exists>q'. Some (spsc_try_push n q x) = Some (Ok (), q') \<and> spsc_ok n q' \<and> spsc_content n q' = spsc_content n q @ [x]"
    if "length (spsc_content n q) < n"
    using c p(1) [of x] p(2) [of x] that spsc_content_eq [OF p(2), of x] T(1) by (auto simp: spsc_ok_def)
  have e: "sq_tail q = sq_head q \<longleftrightarrow> T = length items"
    using T r ring_size_pos [of n] of_nat_eq_close [of T "length items"] by (auto simp: spsc_ring_ok_def)
  show "Some (spsc_try_pop n q) = Some (Ok None, q)" if "spsc_content n q = []" using that c T e by (simp add: spsc_try_pop_def Let_def)
  show "\<exists>q'. Some (spsc_try_pop n q) = Some (Ok (Some x), q') \<and> spsc_ok n q' \<and> spsc_content n q' = xs" if "spsc_content n q = x # xs"
  proof -
    have l: "T < length items" "items ! T = x" "drop (Suc T) items = xs"
      using that c nth_via_drop [of T items x xs] tl_drop [of T items] by (auto simp: drop_Suc not_le [symmetric])
    show ?thesis
      using e l spsc_slot_filled [OF r l(1)] spsc_consume_ok [OF r l(1)] spsc_content_eq [OF spsc_consume_ok [OF r l(1)]] T
      by (auto simp: spsc_try_pop_def spsc_ok_def Let_def)
  qed
qed

lemma spsc_drop_empties: "spsc_ok n q \<Longrightarrow> \<exists>q'. spsc_drop n q = Some q' \<and> spsc_content n q' = []"
proof (induction "spsc_content n q" arbitrary: q)
  case Nil
  then show ?case using spsc_fifo.pop_empty [OF Nil(2)] by (subst spsc_drop.simps) simp
next
  case (Cons x xs)
  then obtain q1 where "spsc_try_pop n q = (Ok (Some x), q1)" "spsc_ok n q1" "spsc_content n q1 = xs"
    using spsc_fifo.pop_front [OF Cons(3), of x xs] by auto
  then show ?case using Cons(1) [of q1] by (subst spsc_drop.simps) simp
qed

section \<open>Calls as runs of their accesses\<close>

lemma spsc_push_steps:
  assumes "producer s = PIdle" "spsc_try_push n (ring s) x = (Ok (), q)"
  shows "(spsc_step n)\<^sup>*\<^sup>* s (s\<lparr>ring := q, pushed := pushed s @ [x]\<rparr>)"
proof -
  let ?h = "sq_head (ring s)" and ?t = "sq_tail (ring s)"
  have nf: "\<not> spsc_full n ?h ?t" using assms(2) by (auto simp: spsc_try_push_def Let_def split: if_splits)
  have q: "q = (ring s)\<lparr>sq_buffer := (sq_buffer (ring s))[ring_slot n ?h := Some x], sq_head := ?h + 1\<rparr>"
    using assms(2) nf by (simp add: spsc_try_push_def Let_def)
  let ?s1 = "s\<lparr>producer := PHead x ?h\<rparr>" and ?s2 = "s\<lparr>producer := PTail x ?h ?t\<rparr>"
  let ?s3 = "s\<lparr>producer := PWrote ?h x, ring := (ring s)\<lparr>sq_buffer := (sq_buffer (ring s))[ring_slot n ?h := Some x]\<rparr>\<rparr>"
  have "spsc_step n s ?s1" by (rule spsc_step.push_load_head) fact
  moreover have "spsc_step n ?s1 ?s2" using spsc_step.push_load_tail [of ?s1 x ?h n] by simp
  moreover have "spsc_step n ?s2 ?s3" using spsc_step.push_write [of ?s2 x ?h ?t n] nf by simp
  moreover have "spsc_step n ?s3 (s\<lparr>ring := q, pushed := pushed s @ [x]\<rparr>)"
    using spsc_step.push_store_head [of ?s3 ?h x n] assms(1) q by (cases s) simp
  ultimately show ?thesis by (meson converse_rtranclp_into_rtranclp rtranclp.rtrancl_refl)
qed

lemma spsc_pop_steps:
  assumes "consumer s = CIdle" "spsc_try_pop n (ring s) = (Ok (Some x), q)"
  shows "(spsc_step n)\<^sup>*\<^sup>* s (s\<lparr>ring := q, popped := popped s @ [Some x]\<rparr>)"
proof -
  let ?h = "sq_head (ring s)" and ?t = "sq_tail (ring s)"
  have ne: "?t \<noteq> ?h" "sq_buffer (ring s) ! ring_slot n ?t = Some x" "q = (ring s)\<lparr>sq_tail := ?t + 1\<rparr>"
    using assms(2) by (auto simp: spsc_try_pop_def Let_def split: if_splits option.splits)
  let ?s1 = "s\<lparr>consumer := CTail ?t\<rparr>" and ?s2 = "s\<lparr>consumer := CHead ?t ?h\<rparr>" and ?s3 = "s\<lparr>consumer := CRead ?t (Some x)\<rparr>"
  have "spsc_step n s ?s1" by (rule spsc_step.pop_load_tail) fact
  moreover have "spsc_step n ?s1 ?s2" using spsc_step.pop_load_head [of ?s1 ?t n] by simp
  moreover have "spsc_step n ?s2 ?s3" using spsc_step.pop_read [of ?s2 ?t ?h n] ne by simp
  moreover have "spsc_step n ?s3 (s\<lparr>ring := q, popped := popped s @ [Some x]\<rparr>)"
    using spsc_step.pop_store_tail [of ?s3 ?t "Some x" n] assms(1) ne by (cases s) simp
  ultimately show ?thesis by (meson converse_rtranclp_into_rtranclp rtranclp.rtrancl_refl)
qed

lemma ring_size_2: "ring_size 2" unfolding ring_size_def by (rule exI [of _ 1]) simp

lemma spsc_reach_7: "\<exists>s. spsc_reach 2 s \<and> pushed s = [7 :: nat] \<and> popped s = [Some 7]"
proof -
  let ?s = "spsc_start 2 :: nat spsc_system"
  let ?q = "\<lparr>sq_head = 1, sq_tail = 0, sq_buffer = [Some 7, None]\<rparr>"
  let ?s1 = "?s\<lparr>ring := ?q, pushed := [7]\<rparr>"
  let ?s2 = "?s1\<lparr>ring := ?q\<lparr>sq_tail := 1\<rparr>, popped := [Some 7]\<rparr>"
  have z: "ring_slot 2 0 = 0" using ring_slot_of_nat [OF ring_size_2, of 0] by simp
  have "(replicate 2 None :: nat option list) = [None, None]" by (simp add: numeral_2_eq_2)
  then have "spsc_try_push 2 (ring ?s) 7 = (Ok (), ?q)"
    by (simp add: spsc_try_push_def spsc_start_def spsc_new_def spsc_full_def z Let_def)
  from spsc_push_steps [OF _ this] have "(spsc_step 2)\<^sup>*\<^sup>* ?s ?s1" by (simp add: spsc_start_def)
  moreover have "spsc_try_pop 2 (ring ?s1) = (Ok (Some 7), ?q\<lparr>sq_tail := 1\<rparr>)" by (simp add: spsc_try_pop_def z Let_def)
  from spsc_pop_steps [OF _ this] have "(spsc_step 2)\<^sup>*\<^sup>* ?s1 ?s2" by (simp add: spsc_start_def)
  ultimately have "spsc_reach 2 ?s2" unfolding spsc_reach_def by (rule rtranclp_trans)
  then show ?thesis by (rule exI [of _ ?s2, OF conjI]) simp
qed

section \<open>Properties\<close>

text \<open>
  C27. The single-producer single-consumer ring under every interleaving of the memory accesses of
  its two threads: the items popped are a beginning of the items pushed, in order, none lost,
  doubled or read before it was written; at most the capacity is in flight; and the two threads
  never access the same slot at the same time. This holds also after the counters wrap around.
\<close>

theorem spsc_concurrent_fifo:
  assumes "ring_size n" "spsc_reach n s"
  shows "popped s = map Some (take (length (popped s)) (pushed s)) \<and> length (popped s) \<le> length (pushed s)
    \<and> length (pushed s) \<le> length (popped s) + n
    \<and> (\<forall>x h t t' h'. producer s = PTail x h t \<and> \<not> spsc_full n h t \<and> consumer s = CHead t' h' \<and> t' \<noteq> h' \<longrightarrow>
         ring_slot n h \<noteq> ring_slot n t')"
proof -
  let ?H = "length (pushed s)" and ?T = "length (popped s)"
  note inv = spsc_reach_inv [OF assms]
  then have ok: "spsc_ring_ok n (ring s) (pushed s) ?T" by (simp add: spsc_inv_def Let_def)
  have "ring_slot n h \<noteq> ring_slot n t'"
    if c: "producer s = PTail x h t" "\<not> spsc_full n h t" "consumer s = CHead t' h'" "t' \<noteq> h'" for x h t t' h'
  proof -
    obtain T' where t: "h = of_nat ?H" "T' \<le> ?T" "t = of_nat T'" "?H - T' \<le> n"
      using inv c(1) by (auto simp: spsc_inv_def producer_ok_def Let_def)
    obtain H' where h: "t' = of_nat ?T" "?T \<le> H'" "H' \<le> ?H" "h' = of_nat H'"
      using inv c(3) by (auto simp: spsc_inv_def consumer_ok_def Let_def)
    have "?H - ?T < n" using spsc_full_iff [OF ok t(2,4)] c(2) t by auto
    moreover have "?T < ?H" using h c(4) by (cases "?T = H'") auto
    ultimately have "?T mod n \<noteq> ?H mod n" by (intro mod_close)
    then show ?thesis using t(1) h(1) assms(1) by (simp add: ring_slot_of_nat)
  qed
  then show ?thesis using inv ok by (auto simp: spsc_inv_def spsc_ring_ok_def Let_def)
qed

theorem spsc_concurrent_fifo_witness:
  "\<exists>s. spsc_reach 2 s \<and> popped s = [Some (7 :: nat)] \<and> popped s = map Some (take (length (popped s)) (pushed s))"
  using spsc_reach_7 spsc_concurrent_fifo [OF ring_size_2] by blast

text \<open>
  C29. Calls that do not overlap: over every sequence of pushes and pops from a new ring, every call
  has the result of the same call on a list of at most \<open>n\<close> items. So an item is rejected exactly when
  \<open>n\<close> items are held, and a pop gives the oldest item held or, when there is none, nothing. The ring
  then holds the items of the list, the length and emptiness reported are theirs, and dropping the
  ring ends with it empty.
\<close>

theorem spsc_alone_fifo:
  assumes "ring_size n" "fifo_calls n [] (cs :: 'a option list) = (rs, xs)"
  shows "\<exists>q. run_calls (\<lambda>q x. Some (spsc_try_push n q x)) (\<lambda>q. Some (spsc_try_pop n q)) (spsc_new n) cs = Some (rs, q)
    \<and> spsc_content n q = xs \<and> spsc_len q = length xs \<and> (spsc_is_empty q \<longleftrightarrow> xs = [])
    \<and> (\<exists>q'. spsc_drop n q = Some q' \<and> spsc_content n q' = [])"
proof -
  have r: "spsc_ring_ok n (spsc_new n :: 'a spsc_queue) [] 0" using assms(1) by (simp add: spsc_ring_ok_def spsc_new_def)
  then have "spsc_ok n (spsc_new n :: 'a spsc_queue)" "spsc_content n (spsc_new n :: 'a spsc_queue) = []"
    using spsc_content_eq [OF r] by (auto simp: spsc_ok_def)
  from spsc_fifo.calls_refine [OF this(1), of cs] this(2) assms(2) obtain q
    where q: "run_calls (\<lambda>q x. Some (spsc_try_push n q x)) (\<lambda>q. Some (spsc_try_pop n q)) (spsc_new n) cs = Some (rs, q)"
      "spsc_ok n q" "spsc_content n q = xs" by auto
  have "spsc_len q = length (spsc_content n q)" by (simp add: spsc_content_def)
  moreover have "spsc_is_empty q \<longleftrightarrow> spsc_len q = 0" by (auto simp: spsc_is_empty_def spsc_len_def unat_eq_0)
  ultimately show ?thesis using q spsc_drop_empties [OF q(2)] by (intro exI [of _ q]) simp
qed

theorem spsc_alone_fifo_witness:
  "\<exists>q. run_calls (\<lambda>q x. Some (spsc_try_push 2 q x)) (\<lambda>q. Some (spsc_try_pop 2 q)) (spsc_new 2)
       [None, Some (7 :: nat), Some 8, Some 9, None, Some 9] =
     Some ([Inr (Ok None), Inl (Ok ()), Inl (Ok ()), Inl (Err 9), Inr (Ok (Some 7)), Inl (Ok ())], q)
     \<and> spsc_content 2 q = [8, 9] \<and> spsc_len q = 2"
proof -
  have "fifo_calls 2 [] [None, Some (7 :: nat), Some 8, Some 9, None, Some 9] =
      ([Inr (Ok None), Inl (Ok ()), Inl (Ok ()), Inl (Err 9), Inr (Ok (Some 7)), Inl (Ok ())], [8, 9])" by simp
  from spsc_alone_fifo [OF ring_size_2 this] show ?thesis by auto
qed

end
