(* ===== verification/WS_Queue.thy ===== *)
theory WS_Queue
  imports WS_Ring
begin

text \<open>
  The multi-producer multi-consumer queue of \<^verbatim>\<open>src/queue.rs\<close>: the calls as functions, for callers that
  do not overlap, and as their memory accesses in \<open>mpmc_step\<close>, for any number of threads. Executions
  are interleavings of these accesses. The invariant follows every slot through its phases.
\<close>

section \<open>The multi-producer multi-consumer queue\<close>

record 'a mpmc_queue =
  mq_head :: u64
  mq_tail :: u64
  sequences :: "u64 list"
  mq_buffer :: "'a option list"

definition mpmc_new :: "nat \<Rightarrow> 'a mpmc_queue" where
  "mpmc_new n = \<lparr>mq_head = 0, mq_tail = 0, sequences = map of_nat [0..<n], mq_buffer = replicate n None\<rparr>"

text \<open>
  The difference of two counters as \<^verbatim>\<open>isize\<close>: the subtraction wraps as in a release build.
\<close>

definition seq_diff :: "u64 \<Rightarrow> u64 \<Rightarrow> int" where
  "seq_diff seq pos = sint (seq - pos)"

text \<open>
  A call while no other thread runs. With no other thread the compare-exchange succeeds, and a
  positive difference makes the call load the same counter again: it does not return.
\<close>

partial_function (option) mpmc_push_loop :: "nat \<Rightarrow> 'a mpmc_queue \<Rightarrow> 'a \<Rightarrow> u64 \<Rightarrow> ((unit, 'a) result \<times> 'a mpmc_queue) option" where
  "mpmc_push_loop n q item head =
     (let idx = ring_slot n head; diff = seq_diff (sequences q ! idx) head in
      if diff = 0 then
        if mq_head q = head then
          Some (Ok (), q\<lparr>mq_head := head + 1, mq_buffer := (mq_buffer q)[idx := Some item],
                  sequences := (sequences q)[idx := head + 1]\<rparr>)
        else mpmc_push_loop n q item (mq_head q)
      else if diff < 0 then Some (Err item, q)
      else mpmc_push_loop n q item (mq_head q))"

definition mpmc_try_push :: "nat \<Rightarrow> 'a mpmc_queue \<Rightarrow> 'a \<Rightarrow> ((unit, 'a) result \<times> 'a mpmc_queue) option" where
  "mpmc_try_push n q item = mpmc_push_loop n q item (mq_head q)"

partial_function (option) mpmc_pop_loop :: "nat \<Rightarrow> 'a mpmc_queue \<Rightarrow> u64 \<Rightarrow> (('a option, unit) result \<times> 'a mpmc_queue) option" where
  "mpmc_pop_loop n q tail =
     (let idx = ring_slot n tail; diff = seq_diff (sequences q ! idx) (tail + 1) in
      if diff = 0 then
        if mq_tail q = tail then
          case mq_buffer q ! idx of
            None \<Rightarrow> Some (Panic, q)
          | Some item \<Rightarrow> Some (Ok (Some item), q\<lparr>mq_tail := tail + 1, sequences := (sequences q)[idx := tail + of_nat n]\<rparr>)
        else mpmc_pop_loop n q (mq_tail q)
      else if diff < 0 then Some (Ok None, q)
      else mpmc_pop_loop n q (mq_tail q))"

definition mpmc_try_pop :: "nat \<Rightarrow> 'a mpmc_queue \<Rightarrow> (('a option, unit) result \<times> 'a mpmc_queue) option" where
  "mpmc_try_pop n q = mpmc_pop_loop n q (mq_tail q)"

partial_function (option) mpmc_drop :: "nat \<Rightarrow> 'a mpmc_queue \<Rightarrow> 'a mpmc_queue option" where
  "mpmc_drop n q =
     (case mpmc_try_pop n q of
        None \<Rightarrow> None
      | Some (Ok (Some _), q) \<Rightarrow> mpmc_drop n q
      | Some (_, q) \<Rightarrow> Some q)"

definition mpmc_is_empty :: "'a mpmc_queue \<Rightarrow> bool" where
  "mpmc_is_empty q \<longleftrightarrow> mq_tail q = mq_head q"

definition mpmc_len :: "'a mpmc_queue \<Rightarrow> nat" where
  "mpmc_len q = unat (mq_head q - mq_tail q)"

section \<open>Threads that share the queue\<close>

text \<open>
  The calls as their memory accesses: loading a counter, loading the sequence number of the
  slot, the compare-exchange, and, for its winner, the access to the slot and the store of the
  sequence number. \<open>entered\<close> records the items in the order of the winning exchanges on \<^verbatim>\<open>head\<close>,
  \<open>taken\<close> the finished pops with the position they claimed on \<^verbatim>\<open>tail\<close>.
\<close>

datatype 'a mpmc_thread =
    Idle
  | PushAt 'a u64
  | PushSeq 'a u64 u64
  | PushOwn 'a u64
  | PushWrote u64
  | PopAt u64
  | PopSeq u64 u64
  | PopOwn u64
  | PopRead u64 "'a option"

record 'a mpmc_system =
  mq :: "'a mpmc_queue"
  threads :: "nat \<Rightarrow> 'a mpmc_thread"
  entered :: "'a list"
  taken :: "(nat \<times> 'a option) list"

abbreviation go :: "'a mpmc_system \<Rightarrow> nat \<Rightarrow> 'a mpmc_thread \<Rightarrow> 'a mpmc_system" where
  "go s i p \<equiv> s\<lparr>threads := (threads s)(i := p)\<rparr>"

inductive mpmc_step :: "nat \<Rightarrow> 'a mpmc_system \<Rightarrow> 'a mpmc_system \<Rightarrow> bool" for n where
  push_start: "threads s i = Idle \<Longrightarrow> mpmc_step n s (go s i (PushAt x (mq_head (mq s))))"
| push_load: "threads s i = PushAt x h \<Longrightarrow> mpmc_step n s (go s i (PushSeq x h (sequences (mq s) ! ring_slot n h)))"
| push_claim: "threads s i = PushSeq x h v \<Longrightarrow> seq_diff v h = 0 \<Longrightarrow> mq_head (mq s) = h \<Longrightarrow>
    mpmc_step n s ((go s i (PushOwn x h))\<lparr>mq := (mq s)\<lparr>mq_head := h + 1\<rparr>, entered := entered s @ [x]\<rparr>)"
| push_lost: "threads s i = PushSeq x h v \<Longrightarrow> seq_diff v h = 0 \<Longrightarrow> mq_head (mq s) \<noteq> h \<Longrightarrow>
    mpmc_step n s (go s i (PushAt x (mq_head (mq s))))"
| push_full: "threads s i = PushSeq x h v \<Longrightarrow> seq_diff v h < 0 \<Longrightarrow> mpmc_step n s (go s i Idle)"
| push_again: "threads s i = PushSeq x h v \<Longrightarrow> 0 < seq_diff v h \<Longrightarrow> mpmc_step n s (go s i (PushAt x (mq_head (mq s))))"
| push_write: "threads s i = PushOwn x h \<Longrightarrow>
    mpmc_step n s ((go s i (PushWrote h))\<lparr>mq := (mq s)\<lparr>mq_buffer := (mq_buffer (mq s))[ring_slot n h := Some x]\<rparr>\<rparr>)"
| push_done: "threads s i = PushWrote h \<Longrightarrow>
    mpmc_step n s ((go s i Idle)\<lparr>mq := (mq s)\<lparr>sequences := (sequences (mq s))[ring_slot n h := h + 1]\<rparr>\<rparr>)"
| pop_start: "threads s i = Idle \<Longrightarrow> mpmc_step n s (go s i (PopAt (mq_tail (mq s))))"
| pop_load: "threads s i = PopAt t \<Longrightarrow> mpmc_step n s (go s i (PopSeq t (sequences (mq s) ! ring_slot n t)))"
| pop_claim: "threads s i = PopSeq t v \<Longrightarrow> seq_diff v (t + 1) = 0 \<Longrightarrow> mq_tail (mq s) = t \<Longrightarrow>
    mpmc_step n s ((go s i (PopOwn t))\<lparr>mq := (mq s)\<lparr>mq_tail := t + 1\<rparr>\<rparr>)"
| pop_lost: "threads s i = PopSeq t v \<Longrightarrow> seq_diff v (t + 1) = 0 \<Longrightarrow> mq_tail (mq s) \<noteq> t \<Longrightarrow>
    mpmc_step n s (go s i (PopAt (mq_tail (mq s))))"
| pop_empty: "threads s i = PopSeq t v \<Longrightarrow> seq_diff v (t + 1) < 0 \<Longrightarrow> mpmc_step n s (go s i Idle)"
| pop_again: "threads s i = PopSeq t v \<Longrightarrow> 0 < seq_diff v (t + 1) \<Longrightarrow> mpmc_step n s (go s i (PopAt (mq_tail (mq s))))"
| pop_read: "threads s i = PopOwn t \<Longrightarrow> mpmc_step n s (go s i (PopRead t (mq_buffer (mq s) ! ring_slot n t)))"
| pop_done: "threads s i = PopRead t x \<Longrightarrow>
    mpmc_step n s ((go s i Idle)\<lparr>mq := (mq s)\<lparr>sequences := (sequences (mq s))[ring_slot n t := t + of_nat n]\<rparr>,
      taken := taken s @ [(unat t, x)]\<rparr>)"

definition mpmc_start :: "nat \<Rightarrow> 'a mpmc_system" where
  "mpmc_start n = \<lparr>mq = mpmc_new n, threads = (\<lambda>_. Idle), entered = [], taken = []\<rparr>"

definition mpmc_reach :: "nat \<Rightarrow> 'a mpmc_system \<Rightarrow> bool" where
  "mpmc_reach n s \<longleftrightarrow> (mpmc_step n)\<^sup>*\<^sup>* (mpmc_start n) s"

section \<open>The life of a slot\<close>

text \<open>
  A slot belongs to one position at a time: free for it, being written by the thread that claimed
  it, full, being read by the thread that claimed it; then it is free for the position one
  round later.
\<close>

datatype phase = Free | Writing nat | Full | Reading nat

text \<open>\<open>H\<close> positions are claimed by producers, \<open>T\<close> by consumers.\<close>

definition slot_ok :: "nat \<Rightarrow> 'a mpmc_system \<Rightarrow> nat \<Rightarrow> nat \<Rightarrow> nat \<Rightarrow> nat \<Rightarrow> phase \<Rightarrow> bool" where
  "slot_ok n s H T j p ph \<longleftrightarrow> p mod n = j \<and> H \<le> p + n \<and>
     (case ph of
        Free \<Rightarrow> sequences (mq s) ! j = of_nat p \<and> H \<le> p \<and> p < H + n
      | Writing i \<Rightarrow> sequences (mq s) ! j = of_nat p \<and> T \<le> p \<and> p < H
          \<and> (threads s i = PushOwn (entered s ! p) (of_nat p)
             \<or> threads s i = PushWrote (of_nat p) \<and> mq_buffer (mq s) ! j = Some (entered s ! p))
      | Full \<Rightarrow> sequences (mq s) ! j = of_nat p + 1 \<and> T \<le> p \<and> p < H \<and> mq_buffer (mq s) ! j = Some (entered s ! p)
      | Reading i \<Rightarrow> sequences (mq s) ! j = of_nat p + 1 \<and> p < T \<and> mq_buffer (mq s) ! j = Some (entered s ! p)
          \<and> (threads s i = PopOwn (of_nat p) \<or> threads s i = PopRead (of_nat p) (Some (entered s ! p))))"

definition thread_ok :: "nat \<Rightarrow> nat \<Rightarrow> nat \<Rightarrow> (nat \<Rightarrow> nat) \<Rightarrow> (nat \<Rightarrow> phase) \<Rightarrow> nat \<Rightarrow> 'a mpmc_thread \<Rightarrow> bool" where
  "thread_ok n H T cur ph i p =
     (case p of
        Idle \<Rightarrow> True
      | PushAt x h \<Rightarrow> \<exists>a\<le>H. h = of_nat a
      | PushSeq x h v \<Rightarrow> \<exists>a\<le>H. h = of_nat a \<and> (v = h \<and> a = H \<longrightarrow> ph (a mod n) = Free \<and> cur (a mod n) = a)
      | PushOwn x h \<Rightarrow> \<exists>a<H. h = of_nat a \<and> ph (a mod n) = Writing i \<and> cur (a mod n) = a
      | PushWrote h \<Rightarrow> \<exists>a<H. h = of_nat a \<and> ph (a mod n) = Writing i \<and> cur (a mod n) = a
      | PopAt t \<Rightarrow> \<exists>a\<le>T. t = of_nat a
      | PopSeq t v \<Rightarrow> \<exists>a\<le>T. t = of_nat a \<and> (v = t + 1 \<and> a = T \<longrightarrow> ph (a mod n) = Full \<and> cur (a mod n) = a)
      | PopOwn t \<Rightarrow> \<exists>a<T. t = of_nat a \<and> ph (a mod n) = Reading i \<and> cur (a mod n) = a
      | PopRead t x \<Rightarrow> \<exists>a<T. t = of_nat a \<and> ph (a mod n) = Reading i \<and> cur (a mod n) = a)"

definition taken_ok :: "nat \<Rightarrow> 'a mpmc_system \<Rightarrow> nat \<Rightarrow> (nat \<Rightarrow> nat) \<Rightarrow> (nat \<Rightarrow> phase) \<Rightarrow> bool" where
  "taken_ok n s T cur ph \<longleftrightarrow> distinct (map fst (taken s)) \<and>
     (\<forall>(a, x) \<in> set (taken s). a < T \<and> x = Some (entered s ! a) \<and> (\<forall>i. \<not> (ph (a mod n) = Reading i \<and> cur (a mod n) = a)))"

definition mpmc_inv_with :: "nat \<Rightarrow> 'a mpmc_system \<Rightarrow> nat \<Rightarrow> nat \<Rightarrow> (nat \<Rightarrow> nat) \<Rightarrow> (nat \<Rightarrow> phase) \<Rightarrow> bool" where
  "mpmc_inv_with n s H T cur ph \<longleftrightarrow> H = length (entered s) \<and> mq_head (mq s) = of_nat H \<and> mq_tail (mq s) = of_nat T \<and> T \<le> H
     \<and> length (sequences (mq s)) = n \<and> length (mq_buffer (mq s)) = n
     \<and> (\<forall>j<n. slot_ok n s H T j (cur j) (ph j)) \<and> (\<forall>i. thread_ok n H T cur ph i (threads s i)) \<and> taken_ok n s T cur ph"

lemma word_of_nat_inj: "a < 2 ^ 64 \<Longrightarrow> b < 2 ^ 64 \<Longrightarrow> (of_nat a :: u64) = of_nat b \<longleftrightarrow> a = b"
proof -
  have "unat (of_nat c :: u64) = c" if "c < 2 ^ 64" for c using that by (simp add: unsigned_of_nat take_bit_nat_eq_self)
  then show "a < 2 ^ 64 \<Longrightarrow> b < 2 ^ 64 \<Longrightarrow> (of_nat a :: u64) = of_nat b \<longleftrightarrow> a = b" by metis
qed

lemma seq_diff_0: "seq_diff v h = 0 \<longleftrightarrow> v = h"
  by (simp add: seq_diff_def signed_eq_0_iff)

lemma mod_Suc_neq: "2 \<le> n \<Longrightarrow> Suc p mod n \<noteq> p mod n"
  using mod_close [of p "Suc p" n] by auto

fun owning :: "'a mpmc_thread \<Rightarrow> bool" where
  "owning (PushOwn _ _) = True"
| "owning (PushWrote _) = True"
| "owning (PopOwn _) = True"
| "owning (PopRead _ _) = True"
| "owning _ = False"

lemma slot_ok_owner: "slot_ok n s H T j p (Writing i) \<or> slot_ok n s H T j p (Reading i) \<Longrightarrow> owning (threads s i)"
  by (auto simp: slot_ok_def)

lemma inv_slot: "mpmc_inv_with n s H T cur ph \<Longrightarrow> j < n \<Longrightarrow> slot_ok n s H T j (cur j) (ph j)"
  unfolding mpmc_inv_with_def by blast

lemma inv_thread: "mpmc_inv_with n s H T cur ph \<Longrightarrow> thread_ok n H T cur ph i (threads s i)"
  unfolding mpmc_inv_with_def by blast

text \<open>What a thread knows stays true when no slot it relies on changes.\<close>

lemma thread_ok_keeps:
  assumes "thread_ok n H T cur ph k p" "H \<le> H'" "T \<le> T'"
    and "\<And>a. cur (a mod n) = a \<Longrightarrow> ph (a mod n) = Writing k \<or> ph (a mod n) = Reading k
      \<or> ph (a mod n) = Free \<and> a = H' \<or> ph (a mod n) = Full \<and> a = T' \<Longrightarrow> ph' (a mod n) = ph (a mod n) \<and> cur' (a mod n) = a"
  shows "thread_ok n H' T' cur' ph' k p"
proof (cases p)
  case (PushSeq x h v)
  then obtain a where a: "a \<le> H" "h = of_nat a" "v = h \<and> a = H \<longrightarrow> ph (a mod n) = Free \<and> cur (a mod n) = a"
    using assms(1) by (auto simp: thread_ok_def)
  then have "v = h \<and> a = H' \<longrightarrow> ph' (a mod n) = Free \<and> cur' (a mod n) = a" using assms(2,4) by (metis le_antisym)
  then show ?thesis using PushSeq a assms(2) by (auto simp: thread_ok_def intro: exI [of _ a])
next
  case (PopSeq t v)
  then obtain a where a: "a \<le> T" "t = of_nat a" "v = t + 1 \<and> a = T \<longrightarrow> ph (a mod n) = Full \<and> cur (a mod n) = a"
    using assms(1) by (auto simp: thread_ok_def)
  then have "v = t + 1 \<and> a = T' \<longrightarrow> ph' (a mod n) = Full \<and> cur' (a mod n) = a" using assms(3,4) by (metis le_antisym)
  then show ?thesis using PopSeq a assms(3) by (auto simp: thread_ok_def intro: exI [of _ a])
next
  case (PushOwn x h)
  then obtain a where "a < H" "h = of_nat a" "ph (a mod n) = Writing k" "cur (a mod n) = a" using assms(1) by (auto simp: thread_ok_def)
  then show ?thesis using PushOwn assms(2) assms(4) [of a] by (auto simp: thread_ok_def intro!: exI [of _ a])
next
  case (PushWrote h)
  then obtain a where "a < H" "h = of_nat a" "ph (a mod n) = Writing k" "cur (a mod n) = a" using assms(1) by (auto simp: thread_ok_def)
  then show ?thesis using PushWrote assms(2) assms(4) [of a] by (auto simp: thread_ok_def intro!: exI [of _ a])
next
  case (PopOwn t)
  then obtain a where "a < T" "t = of_nat a" "ph (a mod n) = Reading k" "cur (a mod n) = a" using assms(1) by (auto simp: thread_ok_def)
  then show ?thesis using PopOwn assms(3) assms(4) [of a] by (auto simp: thread_ok_def intro!: exI [of _ a])
next
  case (PopRead t x)
  then obtain a where "a < T" "t = of_nat a" "ph (a mod n) = Reading k" "cur (a mod n) = a" using assms(1) by (auto simp: thread_ok_def)
  then show ?thesis using PopRead assms(3) assms(4) [of a] by (auto simp: thread_ok_def intro!: exI [of _ a])
next
  case (PushAt x h)
  then show ?thesis using assms(1,2) order_trans by (fastforce simp: thread_ok_def)
next
  case (PopAt t)
  then show ?thesis using assms(1,3) order_trans by (fastforce simp: thread_ok_def)
qed (simp add: thread_ok_def)

text \<open>Steps of a thread that holds no slot and takes none.\<close>

lemma mpmc_go:
  assumes "mpmc_inv_with n s H T cur ph" "\<not> owning (threads s i)" "thread_ok n H T cur ph i p"
  shows "mpmc_inv_with n (go s i p) H T cur ph"
proof -
  have "slot_ok n (go s i p) H T j (cur j) (ph j)" if "j < n" for j
  proof -
    have sl: "slot_ok n s H T j (cur j) (ph j)" using inv_slot [OF assms(1) that] .
    show ?thesis
    proof (cases "ph j")
      case (Writing k)
      then have "k \<noteq> i" using slot_ok_owner [of n s H T j "cur j" k] sl assms(2) by auto
      then show ?thesis using sl Writing by (simp add: slot_ok_def)
    next
      case (Reading k)
      then have "k \<noteq> i" using slot_ok_owner [of n s H T j "cur j" k] sl assms(2) by auto
      then show ?thesis using sl Reading by (simp add: slot_ok_def)
    qed (use sl in \<open>simp_all add: slot_ok_def\<close>)
  qed
  moreover have "thread_ok n H T cur ph k (threads (go s i p) k)" for k using inv_thread [OF assms(1), of k] assms(3) by simp
  ultimately show ?thesis using assms(1) unfolding mpmc_inv_with_def taken_ok_def by auto
qed

lemma mpmc_load_push:
  assumes inv: "mpmc_inv_with n s H T cur ph" and n: "ring_size n" "2 \<le> n" "H + n < 2 ^ 64" and a: "a \<le> H" "h = of_nat a"
  shows "thread_ok n H T cur ph i (PushSeq x h (sequences (mq s) ! ring_slot n h))"
proof -
  let ?j = "a mod n"
  have j: "ring_slot n h = ?j" "?j < n" using a n by (simp_all add: ring_slot_of_nat)
  have sl: "slot_ok n s H T ?j (cur ?j) (ph ?j)" using inv_slot [OF inv j(2)] .
  have "ph ?j = Free \<and> cur ?j = a" if e: "sequences (mq s) ! ?j = h" "a = H"
  proof (cases "ph ?j")
    case Free
    then show ?thesis using sl e a n(3) word_of_nat_inj [of "cur ?j" a] by (auto simp: slot_ok_def)
  next
    case (Writing k)
    then have "cur ?j = a" using sl e a n(3) word_of_nat_inj [of "cur ?j" a] by (auto simp: slot_ok_def)
    then show ?thesis using sl Writing e by (simp add: slot_ok_def)
  next
    case Full
    then have "Suc (cur ?j) = a" using sl e a n(3) word_of_nat_inj [of "Suc (cur ?j)" a] by (auto simp: slot_ok_def add.commute)
    then show ?thesis using sl mod_Suc_neq [OF n(2), of "cur ?j"] by (auto simp: slot_ok_def)
  next
    case (Reading k)
    then have "cur ?j < T" using sl by (simp add: slot_ok_def)
    then have "Suc (cur ?j) = a" using sl e a n(3) inv Reading word_of_nat_inj [of "Suc (cur ?j)" a]
      by (auto simp: slot_ok_def add.commute mpmc_inv_with_def)
    then show ?thesis using sl mod_Suc_neq [OF n(2), of "cur ?j"] by (auto simp: slot_ok_def)
  qed
  then show ?thesis using a j by (auto simp: thread_ok_def intro: exI [of _ a])
qed

lemma mpmc_load_pop:
  assumes inv: "mpmc_inv_with n s H T cur ph" and n: "ring_size n" "2 \<le> n" "H + n < 2 ^ 64" and a: "a \<le> T" "t = of_nat a"
  shows "thread_ok n H T cur ph i (PopSeq t (sequences (mq s) ! ring_slot n t))"
proof -
  let ?j = "a mod n"
  have j: "ring_slot n t = ?j" "?j < n" using a n by (simp_all add: ring_slot_of_nat)
  have sl: "slot_ok n s H T ?j (cur ?j) (ph ?j)" using inv_slot [OF inv j(2)] .
  have TH: "T \<le> H" using inv by (simp add: mpmc_inv_with_def)
  have "ph ?j = Full \<and> cur ?j = a" if e: "sequences (mq s) ! ?j = t + 1" "a = T"
  proof (cases "ph ?j")
    case Free
    then have "cur ?j = Suc a" using sl e a n TH word_of_nat_inj [of "cur ?j" "Suc a"] by (auto simp: slot_ok_def add.commute)
    then show ?thesis using sl mod_Suc_neq [OF n(2), of a] by (auto simp: slot_ok_def)
  next
    case (Writing k)
    then have "cur ?j = Suc a" using sl e a n TH word_of_nat_inj [of "cur ?j" "Suc a"] by (auto simp: slot_ok_def add.commute)
    then show ?thesis using sl mod_Suc_neq [OF n(2), of a] by (auto simp: slot_ok_def)
  next
    case Full
    then show ?thesis using sl e a n(3) TH word_of_nat_inj [of "cur ?j" a] by (auto simp: slot_ok_def)
  next
    case (Reading k)
    then have "cur ?j = a" using sl e a n(3) TH word_of_nat_inj [of "cur ?j" a] by (auto simp: slot_ok_def)
    then show ?thesis using sl Reading e by (simp add: slot_ok_def)
  qed
  then show ?thesis using a j by (auto simp: thread_ok_def intro: exI [of _ a])
qed

lemma inv_facts:
  assumes "mpmc_inv_with n s H T cur ph"
  shows "H = length (entered s)" "mq_head (mq s) = of_nat H" "mq_tail (mq s) = of_nat T" "T \<le> H"
    "length (sequences (mq s)) = n" "length (mq_buffer (mq s)) = n" "taken_ok n s T cur ph"
  using assms unfolding mpmc_inv_with_def by blast+

lemma taken_ok_keeps:
  assumes "taken_ok n s T cur ph" "taken s' = taken s" "T \<le> T'" "\<And>b. b < T \<Longrightarrow> entered s' ! b = entered s ! b"
    and "\<And>b k. b < T \<Longrightarrow> ph' (b mod n) = Reading k \<Longrightarrow> cur' (b mod n) = b \<Longrightarrow> (\<exists>k. ph (b mod n) = Reading k) \<and> cur (b mod n) = b"
  shows "taken_ok n s' T' cur' ph'"
  unfolding taken_ok_def
proof (intro conjI ballI, unfold split_paired_all prod.case)
  show "distinct (map fst (taken s'))" using assms(1,2) by (simp add: taken_ok_def)
  fix b x
  assume "(b, x) \<in> set (taken s')"
  then have b: "b < T" "x = Some (entered s ! b)" "\<forall>k. \<not> (ph (b mod n) = Reading k \<and> cur (b mod n) = b)"
    using assms(1,2) by (auto simp: taken_ok_def)
  show "b < T' \<and> x = Some (entered s' ! b) \<and> (\<forall>k. \<not> (ph' (b mod n) = Reading k \<and> cur' (b mod n) = b))"
    using b assms(3,4) assms(5) [of b] by (metis order_less_le_trans)
qed

lemma mpmc_push_claim:
  assumes inv: "mpmc_inv_with n s H T cur ph" and n: "ring_size n" "2 \<le> n" "Suc H + n < 2 ^ 64"
    and t: "threads s i = PushSeq x h h" "mq_head (mq s) = h"
  shows "mpmc_inv_with n ((go s i (PushOwn x h))\<lparr>mq := (mq s)\<lparr>mq_head := h + 1\<rparr>, entered := entered s @ [x]\<rparr>)
    (Suc H) T cur (ph(H mod n := Writing i))"
    (is "mpmc_inv_with n ?s (Suc H) T cur ?ph")
proof -
  note f = inv_facts [OF inv]
  let ?J = "H mod n"
  obtain a where a: "a \<le> H" "h = of_nat a" "a = H \<longrightarrow> ph (a mod n) = Free \<and> cur (a mod n) = a"
    using inv_thread [OF inv, of i] t(1) by (auto simp: thread_ok_def)
  have "a = H" using word_of_nat_inj [of a H] a f(2) t(2) n(3) by simp
  then have J: "ph ?J = Free" "cur ?J = H" using a by auto
  have jn: "?J < n" using n(2) by simp
  have own: "\<not> owning (threads s i)" using t(1) by simp
  have slots: "slot_ok n ?s (Suc H) T j (cur j) (?ph j)" if j: "j < n" for j
  proof (cases "j = ?J")
    case True
    then show ?thesis using inv_slot [OF inv jn] J f(1,4) n(2) a(2) \<open>a = H\<close> by (simp add: slot_ok_def)
  next
    case False
    have sl: "slot_ok n s H T j (cur j) (ph j)" by (rule inv_slot [OF inv j])
    then have c: "cur j \<noteq> H" "H \<noteq> cur j + n" "H \<le> cur j + n" using False by (auto simp: slot_ok_def)
    have k: "ph j = Writing k \<or> ph j = Reading k \<Longrightarrow> k \<noteq> i" for k
      using slot_ok_owner [of n s H T j "cur j" k] sl own by auto
    show ?thesis
      using False sl c k f(1,4) by (cases "ph j") (auto simp: slot_ok_def nth_append)
  qed
  have thr: "thread_ok n (Suc H) T cur ?ph k (threads ?s k)" for k
  proof (cases "k = i")
    case True
    then show ?thesis using J a(2) \<open>a = H\<close> by (auto simp: thread_ok_def intro!: exI [of _ H])
  next
    case False
    have "thread_ok n (Suc H) T cur ?ph k (threads s k)"
    proof (rule thread_ok_keeps [OF inv_thread [OF inv, of k]])
      fix a
      assume c: "cur (a mod n) = a"
        and p: "ph (a mod n) = Writing k \<or> ph (a mod n) = Reading k \<or> ph (a mod n) = Free \<and> a = Suc H \<or> ph (a mod n) = Full \<and> a = T"
      have "a mod n \<noteq> ?J"
      proof
        assume e: "a mod n = ?J"
        then have "a = H" using c J(2) by metis
        then show False using p J(1) e by simp
      qed
      then show "?ph (a mod n) = ph (a mod n) \<and> cur (a mod n) = a" using c by simp
    qed simp_all
    moreover have "threads ?s k = threads s k" using False by simp
    ultimately show ?thesis by (simp only:)
  qed
  have "taken_ok n ?s T cur ?ph"
  proof (rule taken_ok_keeps [OF f(7)])
    show "entered ?s ! b = entered s ! b" if "b < T" for b using that f(1,4) by (simp add: nth_append)
    show "(\<exists>k. ph (b mod n) = Reading k) \<and> cur (b mod n) = b" if "?ph (b mod n) = Reading k" "cur (b mod n) = b" for b k
      using that by (cases "b mod n = ?J") auto
  qed simp_all
  then show ?thesis
    using slots thr f unfolding mpmc_inv_with_def by (simp add: a(2) \<open>a = H\<close>)
qed

lemma mpmc_pop_claim:
  assumes inv: "mpmc_inv_with n s H T cur ph" and n: "ring_size n" "2 \<le> n" "H + n < 2 ^ 64"
    and t: "threads s i = PopSeq t (t + 1)" "mq_tail (mq s) = t"
  shows "mpmc_inv_with n ((go s i (PopOwn t))\<lparr>mq := (mq s)\<lparr>mq_tail := t + 1\<rparr>\<rparr>) H (Suc T) cur (ph(T mod n := Reading i))"
    (is "mpmc_inv_with n ?s H (Suc T) cur ?ph")
proof -
  note f = inv_facts [OF inv]
  let ?J = "T mod n"
  obtain a where a: "a \<le> T" "t = of_nat a" "a = T \<longrightarrow> ph (a mod n) = Full \<and> cur (a mod n) = a"
    using inv_thread [OF inv, of i] t(1) by (auto simp: thread_ok_def)
  have "a = T" using word_of_nat_inj [of a T] a f(3,4) t(2) n(3) by simp
  then have J: "ph ?J = Full" "cur ?J = T" using a by auto
  have jn: "?J < n" using n(2) by simp
  have own: "\<not> owning (threads s i)" using t(1) by simp
  have TH: "T < H" using inv_slot [OF inv jn] J by (simp add: slot_ok_def)
  have slots: "slot_ok n ?s H (Suc T) j (cur j) (?ph j)" if j: "j < n" for j
  proof (cases "j = ?J")
    case True
    then show ?thesis using inv_slot [OF inv jn] J a(2) \<open>a = T\<close> by (simp add: slot_ok_def)
  next
    case False
    have sl: "slot_ok n s H T j (cur j) (ph j)" by (rule inv_slot [OF inv j])
    then have c: "cur j \<noteq> T" using False by (auto simp: slot_ok_def)
    have k: "ph j = Writing k \<or> ph j = Reading k \<Longrightarrow> k \<noteq> i" for k
      using slot_ok_owner [of n s H T j "cur j" k] sl own by auto
    show ?thesis using False sl c k by (cases "ph j") (auto simp: slot_ok_def)
  qed
  have thr: "thread_ok n H (Suc T) cur ?ph k (threads ?s k)" for k
  proof (cases "k = i")
    case True
    then show ?thesis using J a(2) \<open>a = T\<close> by (auto simp: thread_ok_def intro!: exI [of _ T])
  next
    case False
    have "thread_ok n H (Suc T) cur ?ph k (threads s k)"
    proof (rule thread_ok_keeps [OF inv_thread [OF inv, of k]])
      fix a
      assume c: "cur (a mod n) = a"
        and p: "ph (a mod n) = Writing k \<or> ph (a mod n) = Reading k \<or> ph (a mod n) = Free \<and> a = H \<or> ph (a mod n) = Full \<and> a = Suc T"
      have "a mod n \<noteq> ?J"
      proof
        assume e: "a mod n = ?J"
        then have "a = T" using c J(2) by metis
        then show False using p J(1) e by simp
      qed
      then show "?ph (a mod n) = ph (a mod n) \<and> cur (a mod n) = a" using c by simp
    qed simp_all
    moreover have "threads ?s k = threads s k" using False by simp
    ultimately show ?thesis by (simp only:)
  qed
  have "taken_ok n ?s (Suc T) cur ?ph"
  proof (rule taken_ok_keeps [OF f(7)])
    show "(\<exists>k. ph (b mod n) = Reading k) \<and> cur (b mod n) = b" if "b < T" "?ph (b mod n) = Reading k" "cur (b mod n) = b" for b k
      using that J(2) by (cases "b mod n = ?J") auto
  qed simp_all
  then show ?thesis
    using slots thr f TH unfolding mpmc_inv_with_def by (simp add: a(2) \<open>a = T\<close>)
qed

text \<open>A thread that has claimed a position owns its slot, and no other.\<close>

lemma inv_owner:
  assumes inv: "mpmc_inv_with n s H T cur ph" and n: "2 \<le> n" "H + n < 2 ^ 64"
    and j: "j < n" "ph j = Writing i \<or> ph j = Reading i" and t: "threads s i \<in> {PushOwn x h, PushWrote h, PopOwn h, PopRead h y}"
    and a: "h = of_nat a" "a < H"
  shows "j = a mod n" "cur j = a"
proof -
  note f = inv_facts [OF inv]
  have sl: "slot_ok n s H T j (cur j) (ph j)" by (rule inv_slot [OF inv j(1)])
  then have "cur j < H" "of_nat (cur j) = h" using j(2) t f(4) by (auto simp: slot_ok_def)
  then show "cur j = a" using word_of_nat_inj [of "cur j" a] a n(2) by simp
  then show "j = a mod n" using sl by (simp add: slot_ok_def)
qed

lemma mpmc_push_write:
  assumes inv: "mpmc_inv_with n s H T cur ph" and n: "ring_size n" "2 \<le> n" "H + n < 2 ^ 64"
    and t: "threads s i = PushOwn x h"
  shows "mpmc_inv_with n ((go s i (PushWrote h))\<lparr>mq := (mq s)\<lparr>mq_buffer := (mq_buffer (mq s))[ring_slot n h := Some x]\<rparr>\<rparr>) H T cur ph"
    (is "mpmc_inv_with n ?s H T cur ph")
proof -
  note f = inv_facts [OF inv]
  obtain a where a: "a < H" "h = of_nat a" "ph (a mod n) = Writing i" "cur (a mod n) = a"
    using inv_thread [OF inv, of i] t by (auto simp: thread_ok_def)
  let ?J = "a mod n"
  have J: "ring_slot n h = ?J" "?J < n" using a(2) n by (simp_all add: ring_slot_of_nat)
  have x: "x = entered s ! a" using inv_slot [OF inv J(2)] a t by (simp add: slot_ok_def)
  have slots: "slot_ok n ?s H T j (cur j) (ph j)" if j: "j < n" for j
  proof (cases "j = ?J")
    case True
    then show ?thesis using inv_slot [OF inv J(2)] a x J f(6) by (simp add: slot_ok_def)
  next
    case False
    have k: "k \<noteq> i" if "ph j = Writing k \<or> ph j = Reading k" for k
      using inv_owner(1) [OF inv n(2,3) j _ _ a(2,1), of i x None] that t False by auto
    have "mq_buffer (mq ?s) ! j = mq_buffer (mq s) ! j" using False J by simp
    then show ?thesis using inv_slot [OF inv j] k by (cases "ph j") (auto simp: slot_ok_def)
  qed
  have "thread_ok n H T cur ph k (threads ?s k)" for k
    using inv_thread [OF inv, of k] a by (cases "k = i") (auto simp: thread_ok_def intro: exI [of _ a])
  moreover have "taken_ok n ?s T cur ph" using f(7) by (simp add: taken_ok_def)
  ultimately show ?thesis using slots f unfolding mpmc_inv_with_def by simp
qed

lemma mpmc_push_done:
  assumes inv: "mpmc_inv_with n s H T cur ph" and n: "ring_size n" "2 \<le> n" "H + n < 2 ^ 64"
    and t: "threads s i = PushWrote h"
  shows "mpmc_inv_with n ((go s i Idle)\<lparr>mq := (mq s)\<lparr>sequences := (sequences (mq s))[ring_slot n h := h + 1]\<rparr>\<rparr>) H T cur
    (ph(ring_slot n h := Full))"
    (is "mpmc_inv_with n ?s H T cur ?ph")
proof -
  note f = inv_facts [OF inv]
  obtain a where a: "a < H" "h = of_nat a" "ph (a mod n) = Writing i" "cur (a mod n) = a"
    using inv_thread [OF inv, of i] t by (auto simp: thread_ok_def)
  let ?J = "a mod n"
  have J: "ring_slot n h = ?J" "?J < n" using a(2) n by (simp_all add: ring_slot_of_nat)
  have slots: "slot_ok n ?s H T j (cur j) (?ph j)" if j: "j < n" for j
  proof (cases "j = ?J")
    case True
    then show ?thesis using inv_slot [OF inv J(2)] a t J f(5) by (simp add: slot_ok_def)
  next
    case False
    have k: "k \<noteq> i" if "ph j = Writing k \<or> ph j = Reading k" for k
      using inv_owner(1) [OF inv n(2,3) j _ _ a(2,1), of i undefined None] that t False by auto
    have "sequences (mq ?s) ! j = sequences (mq s) ! j" using False J by simp
    then show ?thesis using inv_slot [OF inv j] k False J by (cases "ph j") (auto simp: slot_ok_def)
  qed
  have thr: "thread_ok n H T cur ?ph k (threads ?s k)" for k
  proof (cases "k = i")
    case False
    have "thread_ok n H T cur ?ph k (threads s k)"
      by (rule thread_ok_keeps [OF inv_thread [OF inv, of k]]) (use a(3) J False in auto)
    moreover have "threads ?s k = threads s k" using False by simp
    ultimately show ?thesis by (simp only:)
  qed (simp add: thread_ok_def)
  have "taken_ok n ?s T cur ?ph"
    by (rule taken_ok_keeps [OF f(7)]) (auto split: if_splits)
  then show ?thesis using slots thr f unfolding mpmc_inv_with_def by simp
qed

lemma mpmc_pop_read:
  assumes inv: "mpmc_inv_with n s H T cur ph" and n: "ring_size n" "2 \<le> n" "H + n < 2 ^ 64"
    and t: "threads s i = PopOwn h"
  shows "mpmc_inv_with n (go s i (PopRead h (mq_buffer (mq s) ! ring_slot n h))) H T cur ph"
    (is "mpmc_inv_with n ?s H T cur ph")
proof -
  note f = inv_facts [OF inv]
  obtain a where a: "a < T" "h = of_nat a" "ph (a mod n) = Reading i" "cur (a mod n) = a"
    using inv_thread [OF inv, of i] t by (auto simp: thread_ok_def)
  then have aH: "a < H" using f(4) by simp
  let ?J = "a mod n"
  have J: "ring_slot n h = ?J" "?J < n" using a(2) n by (simp_all add: ring_slot_of_nat)
  have slots: "slot_ok n ?s H T j (cur j) (ph j)" if j: "j < n" for j
  proof (cases "j = ?J")
    case True
    then show ?thesis using inv_slot [OF inv J(2)] a J by (simp add: slot_ok_def)
  next
    case False
    have k: "k \<noteq> i" if "ph j = Writing k \<or> ph j = Reading k" for k
      using inv_owner(1) [OF inv n(2,3) j _ _ a(2) aH, of i undefined None] that t False by auto
    then show ?thesis using inv_slot [OF inv j] by (cases "ph j") (auto simp: slot_ok_def)
  qed
  have "thread_ok n H T cur ph k (threads ?s k)" for k
    using inv_thread [OF inv, of k] a by (cases "k = i") (auto simp: thread_ok_def intro: exI [of _ a])
  moreover have "taken_ok n ?s T cur ph" using f(7) by (simp add: taken_ok_def)
  ultimately show ?thesis using slots f unfolding mpmc_inv_with_def by simp
qed

lemma mpmc_pop_done:
  assumes inv: "mpmc_inv_with n s H T cur ph" and n: "ring_size n" "2 \<le> n" "H + n < 2 ^ 64"
    and t: "threads s i = PopRead h x"
  shows "mpmc_inv_with n ((go s i Idle)\<lparr>mq := (mq s)\<lparr>sequences := (sequences (mq s))[ring_slot n h := h + of_nat n]\<rparr>,
      taken := taken s @ [(unat h, x)]\<rparr>) H T (cur(ring_slot n h := unat h + n)) (ph(ring_slot n h := Free))"
    (is "mpmc_inv_with n ?s H T ?cur ?ph")
proof -
  note f = inv_facts [OF inv]
  obtain a where a: "a < T" "h = of_nat a" "ph (a mod n) = Reading i" "cur (a mod n) = a"
    using inv_thread [OF inv, of i] t by (auto simp: thread_ok_def)
  then have aH: "a < H" using f(4) by simp
  let ?J = "a mod n"
  have J: "ring_slot n h = ?J" "?J < n" using a(2) n by (simp_all add: ring_slot_of_nat)
  have u: "unat h = a" using unat_of_nat_diff [of 0 a] aH n(3) a(2) by simp
  have x: "x = Some (entered s ! a)" using inv_slot [OF inv J(2)] a t by (simp add: slot_ok_def)
  have slots: "slot_ok n ?s H T j (?cur j) (?ph j)" if j: "j < n" for j
  proof (cases "j = ?J")
    case True
    then show ?thesis using inv_slot [OF inv J(2)] a aH J f(5) u by (simp add: slot_ok_def)
  next
    case False
    have k: "k \<noteq> i" if "ph j = Writing k \<or> ph j = Reading k" for k
      using inv_owner(1) [OF inv n(2,3) j _ _ a(2) aH, of i undefined x] that t False by auto
    have "sequences (mq ?s) ! j = sequences (mq s) ! j" using False J by simp
    then show ?thesis using inv_slot [OF inv j] k False J by (cases "ph j") (auto simp: slot_ok_def)
  qed
  have thr: "thread_ok n H T ?cur ?ph k (threads ?s k)" for k
  proof (cases "k = i")
    case False
    have "thread_ok n H T ?cur ?ph k (threads s k)"
      by (rule thread_ok_keeps [OF inv_thread [OF inv, of k]]) (use a(3) J False in auto)
    moreover have "threads ?s k = threads s k" using False by simp
    ultimately show ?thesis by (simp only:)
  qed (simp add: thread_ok_def)
  have new: "b \<noteq> a" if "(b, y) \<in> set (taken s)" for b y using f(7) that a(3,4) by (auto simp: taken_ok_def)
  have "taken_ok n (?s\<lparr>taken := taken s\<rparr>) T ?cur ?ph"
    by (rule taken_ok_keeps [OF f(7)]) (auto split: if_splits)
  then have "taken_ok n ?s T ?cur ?ph"
    using new u x a(1) J by (force simp: taken_ok_def)
  then show ?thesis using slots thr f unfolding mpmc_inv_with_def by simp
qed

definition mpmc_inv :: "nat \<Rightarrow> 'a mpmc_system \<Rightarrow> bool" where
  "mpmc_inv n s \<longleftrightarrow> (\<exists>H T cur ph. mpmc_inv_with n s H T cur ph)"

lemma mpmc_inv_start: "0 < n \<Longrightarrow> mpmc_inv n (mpmc_start n)"
  unfolding mpmc_inv_def mpmc_inv_with_def
  by (intro exI [of _ 0] exI [of _ "\<lambda>j. j"] exI [of _ "\<lambda>_. Free"])
    (simp add: mpmc_start_def mpmc_new_def slot_ok_def thread_ok_def taken_ok_def)

lemma mpmc_step_entered: "mpmc_step n s s' \<Longrightarrow> length (entered s) \<le> length (entered s')"
  by (induction rule: mpmc_step.induct) auto

lemma mpmc_inv_step:
  assumes "mpmc_step n s s'" "ring_size n" "2 \<le> n" "length (entered s') + n < 2 ^ 64" "mpmc_inv n s"
  shows "mpmc_inv n s'"
proof -
  obtain H T cur ph where inv: "mpmc_inv_with n s H T cur ph" using assms(5) by (auto simp: mpmc_inv_def)
  note f = inv_facts [OF inv]
  have b: "H + n < 2 ^ 64" using mpmc_step_entered [OF assms(1)] assms(4) f(1) by simp
  note go = mpmc_go [OF inv] and args = inv assms(2,3) b
  have at: "thread_ok n H T cur ph i (PushAt x (mq_head (mq s)))" "thread_ok n H T cur ph i (PopAt (mq_tail (mq s)))"
    "thread_ok n H T cur ph i Idle" for i and x :: 'a
    using f by (auto simp: thread_ok_def)
  have free: "\<exists>H T cur ph. mpmc_inv_with n (go s i p) H T cur ph"
    if "\<not> owning (threads s i)" "thread_ok n H T cur ph i p" for i p
    using go [OF that] by blast
  have "\<exists>H T cur ph. mpmc_inv_with n s' H T cur ph"
    using assms(1)
  proof cases
    case (push_load i x h)
    then obtain a where "a \<le> H" "h = of_nat a" using inv_thread [OF inv, of i] by (auto simp: thread_ok_def)
    then show ?thesis using go [of i] mpmc_load_push [OF args] push_load by fastforce
  next
    case (push_claim i x h v)
    then have "Suc H + n < 2 ^ 64" "v = h" using assms(4) f(1) by (simp_all add: seq_diff_0)
    then show ?thesis using mpmc_push_claim [OF inv assms(2,3)] push_claim by blast
  next
    case (push_write i x h)
    then show ?thesis using mpmc_push_write [OF args] by blast
  next
    case (push_done i h)
    then show ?thesis using mpmc_push_done [OF args] by blast
  next
    case (pop_load i t)
    then obtain a where "a \<le> T" "t = of_nat a" using inv_thread [OF inv, of i] by (auto simp: thread_ok_def)
    then show ?thesis using go [of i] mpmc_load_pop [OF args] pop_load by fastforce
  next
    case (pop_claim i t v)
    then have "v = t + 1" by (simp add: seq_diff_0)
    then show ?thesis using mpmc_pop_claim [OF args] pop_claim by blast
  next
    case (pop_read i t)
    then show ?thesis using mpmc_pop_read [OF args] by blast
  next
    case (pop_done i t x)
    then show ?thesis using mpmc_pop_done [OF args] by blast
  qed (auto intro!: free at)
  then show ?thesis by (simp add: mpmc_inv_def)
qed

lemma mpmc_reach_inv:
  assumes "ring_size n" "2 \<le> n"
  shows "mpmc_reach n s \<Longrightarrow> length (entered s) + n < 2 ^ 64 \<Longrightarrow> mpmc_inv n s"
  unfolding mpmc_reach_def
proof (induction rule: rtranclp_induct)
  case base
  then show ?case using mpmc_inv_start [of n] assms(2) by simp
next
  case (step s s')
  then show ?case using mpmc_inv_step [OF step(2) assms] mpmc_step_entered [OF step(2)] by auto
qed

text \<open>The slot a thread is about to read or write, or has accessed without releasing it.\<close>

fun slot_access :: "'a mpmc_thread \<Rightarrow> u64 option" where
  "slot_access (PushOwn _ h) = Some h"
| "slot_access (PushWrote h) = Some h"
| "slot_access (PopOwn t) = Some t"
| "slot_access (PopRead t _) = Some t"
| "slot_access _ = None"

lemma slot_access_owner:
  assumes "mpmc_inv_with n s H T cur ph" "ring_size n" "slot_access (threads s i) = Some h"
  shows "ph (ring_slot n h) \<in> {Writing i, Reading i}"
  using inv_thread [OF assms(1), of i] assms(2,3)
  by (cases "threads s i") (auto simp: thread_ok_def ring_slot_of_nat)

section \<open>The queue without overlapping calls\<close>

definition mpmc_quiet :: "nat \<Rightarrow> 'a mpmc_queue \<Rightarrow> 'a list \<Rightarrow> nat \<Rightarrow> bool" where
  "mpmc_quiet n q items T \<longleftrightarrow> ring_size n \<and> 2 \<le> n \<and> length (sequences q) = n \<and> length (mq_buffer q) = n
     \<and> T \<le> length items \<and> length items - T \<le> n \<and> mq_head q = of_nat (length items) \<and> mq_tail q = of_nat T
     \<and> (\<forall>p. T \<le> p \<and> p < length items \<longrightarrow> sequences q ! (p mod n) = of_nat p + 1 \<and> mq_buffer q ! (p mod n) = Some (items ! p))
     \<and> (\<forall>p. length items \<le> p \<and> p < T + n \<longrightarrow> sequences q ! (p mod n) = of_nat p)"

lemma seq_diff_less: "0 < d \<Longrightarrow> d \<le> 2 ^ 63 \<Longrightarrow> seq_diff v (v + of_nat d) = - int d"
proof -
  assume d: "0 < d" "d \<le> 2 ^ 63"
  have "(v - (v + of_nat d) :: u64) = of_int (- int d)" by simp
  then have "seq_diff v (v + of_nat d) = signed_take_bit 63 (- int d)" unfolding seq_diff_def by (simp only: signed_of_int) simp
  then show ?thesis using d by (simp add: signed_take_bit_int_eq_self)
qed

lemma ring_size_half: "ring_size n \<Longrightarrow> n \<le> 2 ^ 63"
proof -
  assume "ring_size n"
  then obtain k where "k < 64" "n = 2 ^ k" by (auto simp: ring_size_def)
  then show ?thesis using power_increasing [of k 63 "2 :: nat"] by simp
qed

lemma mpmc_push_quiet:
  assumes q: "mpmc_quiet n q items T"
  shows "length items - T = n \<Longrightarrow> mpmc_try_push n q x = Some (Err x, q)"
    "length items - T < n \<Longrightarrow> \<exists>q'. mpmc_try_push n q x = Some (Ok (), q') \<and> mpmc_quiet n q' (items @ [x]) T"
proof -
  let ?H = "length items"
  let ?J = "?H mod n"
  have f: "ring_size n" "2 \<le> n" "length (sequences q) = n" "length (mq_buffer q) = n" "T \<le> ?H" "?H - T \<le> n"
    "mq_head q = of_nat ?H" "mq_tail q = of_nat T"
    "\<And>p. T \<le> p \<Longrightarrow> p < ?H \<Longrightarrow> sequences q ! (p mod n) = of_nat p + 1 \<and> mq_buffer q ! (p mod n) = Some (items ! p)"
    "\<And>p. ?H \<le> p \<Longrightarrow> p < T + n \<Longrightarrow> sequences q ! (p mod n) = of_nat p"
    using q by (auto simp: mpmc_quiet_def)
  have J: "ring_slot n (of_nat ?H) = ?J" "?J < n" using f(1,2) by (simp_all add: ring_slot_of_nat)
  show "mpmc_try_push n q x = Some (Err x, q)" if full: "?H - T = n"
  proof -
    have HT: "?H = T + n" using full f(5) by simp
    then have "sequences q ! ?J = of_nat T + 1" using f(9) [of T] f(2) by simp
    moreover have "(of_nat ?H :: u64) = (of_nat T + 1) + of_nat (n - 1)" using HT f(2) by (simp add: of_nat_diff)
    ultimately have "seq_diff (sequences q ! ?J) (of_nat ?H) = - int (n - 1)"
      using seq_diff_less [of "n - 1" "of_nat T + 1"] f(2) ring_size_half [OF f(1)] by simp
    then show ?thesis using f(2,7) J by (simp add: mpmc_try_push_def mpmc_push_loop.simps Let_def)
  qed
  show "\<exists>q'. mpmc_try_push n q x = Some (Ok (), q') \<and> mpmc_quiet n q' (items @ [x]) T" if room: "?H - T < n"
  proof -
    have s: "sequences q ! ?J = of_nat ?H" using f(10) [of ?H] room f(5) by simp
    let ?q = "q\<lparr>mq_head := of_nat ?H + 1, mq_buffer := (mq_buffer q)[?J := Some x], sequences := (sequences q)[?J := of_nat ?H + 1]\<rparr>"
    have e: "mpmc_try_push n q x = Some (Ok (), ?q)"
      using s f(7) J by (simp add: mpmc_try_push_def mpmc_push_loop.simps seq_diff_0 Let_def)
    have d: "?J \<noteq> p mod n" if "T \<le> p" "p < ?H" for p using mod_close [of p ?H n] that room by linarith
    have d': "?J \<noteq> p mod n" if "Suc ?H \<le> p" "p < T + n" for p using mod_close [of ?H p n] that f(5) by linarith
    have a: "sequences ?q ! (p mod n) = of_nat p + 1 \<and> mq_buffer ?q ! (p mod n) = Some ((items @ [x]) ! p)"
      if "T \<le> p" "p < Suc ?H" for p
      using that f(3,4) f(9) [of p] d [of p] J(2) by (cases "p = ?H") (simp_all add: nth_append)
    have b: "sequences ?q ! (p mod n) = of_nat p" if "Suc ?H \<le> p" "p < T + n" for p
      using that d' [OF that] f(10) [of p] by simp
    have "mpmc_quiet n ?q (items @ [x]) T"
      using f(1-8) room a b unfolding mpmc_quiet_def by (simp add: add.commute)
    then show ?thesis using e by blast
  qed
qed

lemma mpmc_pop_quiet:
  assumes q: "mpmc_quiet n q items T"
  shows "T = length items \<Longrightarrow> mpmc_try_pop n q = Some (Ok None, q)"
    "T < length items \<Longrightarrow> \<exists>q'. mpmc_try_pop n q = Some (Ok (Some (items ! T)), q') \<and> mpmc_quiet n q' items (Suc T)"
proof -
  let ?H = "length items"
  let ?J = "T mod n"
  have f: "ring_size n" "2 \<le> n" "length (sequences q) = n" "length (mq_buffer q) = n" "T \<le> ?H" "?H - T \<le> n"
    "mq_head q = of_nat ?H" "mq_tail q = of_nat T"
    "\<And>p. T \<le> p \<Longrightarrow> p < ?H \<Longrightarrow> sequences q ! (p mod n) = of_nat p + 1 \<and> mq_buffer q ! (p mod n) = Some (items ! p)"
    "\<And>p. ?H \<le> p \<Longrightarrow> p < T + n \<Longrightarrow> sequences q ! (p mod n) = of_nat p"
    using q by (auto simp: mpmc_quiet_def)
  have J: "ring_slot n (of_nat T) = ?J" "?J < n" using f(1,2) by (simp_all add: ring_slot_of_nat)
  show "mpmc_try_pop n q = Some (Ok None, q)" if "T = ?H"
  proof -
    have "sequences q ! ?J = of_nat T" using f(10) [of T] f(2) that by simp
    then have "seq_diff (sequences q ! ?J) (of_nat T + 1) = - 1" using seq_diff_less [of 1 "of_nat T"] by simp
    then show ?thesis using f(8) J by (simp add: mpmc_try_pop_def mpmc_pop_loop.simps Let_def)
  qed
  show "\<exists>q'. mpmc_try_pop n q = Some (Ok (Some (items ! T)), q') \<and> mpmc_quiet n q' items (Suc T)" if l: "T < ?H"
  proof -
    have s: "sequences q ! ?J = of_nat T + 1" "mq_buffer q ! ?J = Some (items ! T)" using f(9) [of T] l by simp_all
    let ?q = "q\<lparr>mq_tail := of_nat T + 1, sequences := (sequences q)[?J := of_nat T + of_nat n]\<rparr>"
    have e: "mpmc_try_pop n q = Some (Ok (Some (items ! T)), ?q)"
      using s f(8) J by (simp add: mpmc_try_pop_def mpmc_pop_loop.simps seq_diff_0 Let_def)
    have d: "?J \<noteq> p mod n" if "Suc T \<le> p" "p < T + n" for p using mod_close [of T p n] that by linarith
    have a: "sequences ?q ! (p mod n) = of_nat p + 1 \<and> mq_buffer ?q ! (p mod n) = Some (items ! p)"
      if "Suc T \<le> p" "p < ?H" for p
      using that f(9) [of p] d [of p] f(6) by simp
    have b: "sequences ?q ! (p mod n) = of_nat p" if "?H \<le> p" "p < Suc T + n" for p
      using that f(3) f(10) [of p] d [of p] J(2) l by (cases "p = T + n") simp_all
    have "mpmc_quiet n ?q items (Suc T)"
      using f(1-8) l a b unfolding mpmc_quiet_def by (simp add: add.commute)
    then show ?thesis using e by blast
  qed
qed

definition mpmc_content :: "nat \<Rightarrow> 'a mpmc_queue \<Rightarrow> 'a list" where
  "mpmc_content n q = map (\<lambda>i. the (mq_buffer q ! ring_slot n (mq_tail q + of_nat i))) [0..<mpmc_len q]"

definition mpmc_ok :: "nat \<Rightarrow> 'a mpmc_queue \<Rightarrow> bool" where
  "mpmc_ok n q \<longleftrightarrow> (\<exists>items T. mpmc_quiet n q items T)"

lemma mpmc_content_eq: "mpmc_quiet n q items T \<Longrightarrow> mpmc_content n q = drop T items"
proof (rule nth_equalityI)
  assume q: "mpmc_quiet n q items T"
  have l: "mpmc_len q = length items - T"
    using q ring_size_pos [of n] unat_of_nat_diff [of T "length items"] by (auto simp: mpmc_len_def mpmc_quiet_def)
  then show "length (mpmc_content n q) = length (drop T items)" by (simp add: mpmc_content_def)
  fix i
  assume "i < length (mpmc_content n q)"
  then have i: "T + i < length items" using l q by (simp add: mpmc_content_def mpmc_quiet_def)
  have "ring_slot n (mq_tail q + of_nat i) = (T + i) mod n"
    using q ring_slot_of_nat [of n "T + i"] by (simp add: mpmc_quiet_def)
  moreover have "mq_buffer q ! ((T + i) mod n) = Some (items ! (T + i))"
    using q i unfolding mpmc_quiet_def by (metis le_add1)
  ultimately show "mpmc_content n q ! i = drop T items ! i"
    using i by (simp add: mpmc_content_def l q [unfolded mpmc_quiet_def])
qed

interpretation mpmc_fifo: bounded_fifo "mpmc_ok n" "mpmc_content n" n "mpmc_try_push n" "mpmc_try_pop n" for n
proof
  fix q :: "'a mpmc_queue" and x xs
  assume "mpmc_ok n q"
  then obtain items T where r: "mpmc_quiet n q items T" by (auto simp: mpmc_ok_def)
  note c = mpmc_content_eq [OF r]
  have T: "T \<le> length items" "length items - T \<le> n" using r by (auto simp: mpmc_quiet_def)
  show "length (mpmc_content n q) \<le> n" using c T by simp
  show "mpmc_try_push n q x = Some (Err x, q)" if "length (mpmc_content n q) = n" using c mpmc_push_quiet(1) [OF r] that by simp
  show "\<exists>q'. mpmc_try_push n q x = Some (Ok (), q') \<and> mpmc_ok n q' \<and> mpmc_content n q' = mpmc_content n q @ [x]"
    if "length (mpmc_content n q) < n"
  proof -
    have "length items - T < n" using that c by simp
    then obtain q' where q': "mpmc_try_push n q x = Some (Ok (), q')" "mpmc_quiet n q' (items @ [x]) T"
      using mpmc_push_quiet(2) [OF r, of x] by blast
    then show ?thesis using mpmc_content_eq [OF q'(2)] c T(1) by (auto simp: mpmc_ok_def)
  qed
  show "mpmc_try_pop n q = Some (Ok None, q)" if "mpmc_content n q = []" using that c T mpmc_pop_quiet(1) [OF r] by simp
  show "\<exists>q'. mpmc_try_pop n q = Some (Ok (Some x), q') \<and> mpmc_ok n q' \<and> mpmc_content n q' = xs" if "mpmc_content n q = x # xs"
  proof -
    have l: "T < length items" "items ! T = x" "drop (Suc T) items = xs"
      using that c nth_via_drop [of T items x xs] tl_drop [of T items] by (auto simp: drop_Suc not_le [symmetric])
    then obtain q' where q': "mpmc_try_pop n q = Some (Ok (Some x), q')" "mpmc_quiet n q' items (Suc T)"
      using mpmc_pop_quiet(2) [OF r] by auto
    then show ?thesis using mpmc_content_eq [OF q'(2)] l(3) by (auto simp: mpmc_ok_def)
  qed
qed

lemma mpmc_drop_empties: "mpmc_ok n q \<Longrightarrow> \<exists>q'. mpmc_drop n q = Some q' \<and> mpmc_content n q' = []"
proof (induction "mpmc_content n q" arbitrary: q)
  case Nil
  then show ?case using mpmc_fifo.pop_empty [OF Nil(2)] by (subst mpmc_drop.simps) simp
next
  case (Cons x xs)
  then obtain q1 where "mpmc_try_pop n q = Some (Ok (Some x), q1)" "mpmc_ok n q1" "mpmc_content n q1 = xs"
    using mpmc_fifo.pop_front [OF Cons(3), of x xs] by auto
  then show ?case using Cons(1) [of q1] by (subst mpmc_drop.simps) simp
qed

section \<open>Calls as runs of their accesses\<close>

lemma mpmc_push_spins:
  assumes "0 < seq_diff (sequences q ! ring_slot n (mq_head q)) (mq_head q)"
  shows "mpmc_try_push n q x = None"
proof -
  have "h = mq_head q \<longrightarrow> \<not> 0 < seq_diff (sequences q ! ring_slot n (mq_head q)) (mq_head q)"
    if "mpmc_push_loop n q x h = Some y" for h y
    by (rule mpmc_push_loop.raw_induct [OF _ that]) (auto simp: Let_def split: if_splits)
  then show ?thesis using assms by (cases "mpmc_push_loop n q x (mq_head q)") (auto simp: mpmc_try_push_def)
qed

lemma mpmc_pop_spins:
  assumes "0 < seq_diff (sequences q ! ring_slot n (mq_tail q)) (mq_tail q + 1)"
  shows "mpmc_try_pop n q = None"
proof -
  have "t = mq_tail q \<longrightarrow> \<not> 0 < seq_diff (sequences q ! ring_slot n (mq_tail q)) (mq_tail q + 1)"
    if "mpmc_pop_loop n q t = Some y" for t y
    by (rule mpmc_pop_loop.raw_induct [OF _ that]) (auto simp: Let_def split: if_splits)
  then show ?thesis using assms by (cases "mpmc_pop_loop n q (mq_tail q)") (auto simp: mpmc_try_pop_def)
qed

lemma mpmc_push_now:
  "sequences q ! ring_slot n (mq_head q) = mq_head q \<Longrightarrow> mpmc_try_push n q item =
     Some (Ok (), q\<lparr>mq_head := mq_head q + 1, mq_buffer := (mq_buffer q)[ring_slot n (mq_head q) := Some item],
       sequences := (sequences q)[ring_slot n (mq_head q) := mq_head q + 1]\<rparr>)"
  unfolding mpmc_try_push_def by (subst mpmc_push_loop.simps) (simp add: seq_diff_0 Let_def)

lemma mpmc_push_claims:
  assumes "mpmc_try_push n q x = Some (Ok (), q')"
  shows "sequences q ! ring_slot n (mq_head q) = mq_head q"
proof (rule ccontr)
  let ?d = "seq_diff (sequences q ! ring_slot n (mq_head q)) (mq_head q)"
  assume "sequences q ! ring_slot n (mq_head q) \<noteq> mq_head q"
  then have "?d \<noteq> 0" by (simp add: seq_diff_0)
  moreover have "\<not> 0 < ?d" using mpmc_push_spins [of q n x] assms by auto
  ultimately have "?d < 0" by simp
  moreover from this have "mpmc_try_push n q x = Some (Err x, q)"
    unfolding mpmc_try_push_def by (subst mpmc_push_loop.simps) (simp add: Let_def)
  ultimately show False using assms by simp
qed

lemma mpmc_push_steps:
  assumes "threads s i = Idle" "mpmc_try_push n (mq s) x = Some (Ok (), q)"
  shows "(mpmc_step n)\<^sup>*\<^sup>* s (s\<lparr>mq := q, entered := entered s @ [x]\<rparr>)"
proof -
  let ?h = "mq_head (mq s)" and ?j = "ring_slot n (mq_head (mq s))"
  note v = mpmc_push_claims [OF assms(2)]
  have q: "q = (mq s)\<lparr>mq_head := ?h + 1, mq_buffer := (mq_buffer (mq s))[?j := Some x], sequences := (sequences (mq s))[?j := ?h + 1]\<rparr>"
    using mpmc_push_now [OF v, of x] assms(2) by simp
  let ?s1 = "go s i (PushAt x ?h)" and ?s2 = "go s i (PushSeq x ?h ?h)"
  let ?s3 = "(go s i (PushOwn x ?h))\<lparr>mq := (mq s)\<lparr>mq_head := ?h + 1\<rparr>, entered := entered s @ [x]\<rparr>"
  let ?s4 = "(go s i (PushWrote ?h))\<lparr>mq := (mq s)\<lparr>mq_head := ?h + 1, mq_buffer := (mq_buffer (mq s))[?j := Some x]\<rparr>, entered := entered s @ [x]\<rparr>"
  have "mpmc_step n s ?s1" by (rule mpmc_step.push_start) fact
  moreover have "mpmc_step n ?s1 ?s2" using mpmc_step.push_load [of ?s1 i x ?h n] v by simp
  moreover have "mpmc_step n ?s2 ?s3" using mpmc_step.push_claim [of ?s2 i x ?h ?h n] by (simp add: seq_diff_0)
  moreover have "mpmc_step n ?s3 ?s4" using mpmc_step.push_write [of ?s3 i x ?h n] by (cases s) simp
  moreover have "mpmc_step n ?s4 (s\<lparr>mq := q, entered := entered s @ [x]\<rparr>)"
  proof -
    have "(threads s)(i := Idle) = threads s" using assms(1) by auto
    then show ?thesis using mpmc_step.push_done [of ?s4 i ?h n] q by (cases s) simp
  qed
  ultimately show ?thesis by (meson converse_rtranclp_into_rtranclp rtranclp.rtrancl_refl)
qed

lemma mpmc_pop_claims:
  assumes "mpmc_try_pop n q = Some (Ok (Some x), q')"
  shows "sequences q ! ring_slot n (mq_tail q) = mq_tail q + 1 \<and> mq_buffer q ! ring_slot n (mq_tail q) = Some x
    \<and> q' = q\<lparr>mq_tail := mq_tail q + 1, sequences := (sequences q)[ring_slot n (mq_tail q) := mq_tail q + of_nat n]\<rparr>"
proof -
  let ?d = "seq_diff (sequences q ! ring_slot n (mq_tail q)) (mq_tail q + 1)"
  have "\<not> 0 < ?d" using mpmc_pop_spins [of q n] assms by auto
  moreover have "\<not> ?d < 0"
  proof
    assume "?d < 0"
    then have "mpmc_try_pop n q = Some (Ok None, q)"
      unfolding mpmc_try_pop_def by (subst mpmc_pop_loop.simps) (simp add: Let_def)
    then show False using assms by simp
  qed
  ultimately have z: "?d = 0" by simp
  then show ?thesis
    using assms unfolding mpmc_try_pop_def by (subst (asm) mpmc_pop_loop.simps) (auto simp: seq_diff_0 Let_def split: option.splits)
qed

lemma mpmc_pop_steps:
  assumes "threads s i = Idle" "mpmc_try_pop n (mq s) = Some (Ok (Some x), q)"
  shows "(mpmc_step n)\<^sup>*\<^sup>* s (s\<lparr>mq := q, taken := taken s @ [(unat (mq_tail (mq s)), Some x)]\<rparr>)"
proof -
  let ?t = "mq_tail (mq s)" and ?j = "ring_slot n (mq_tail (mq s))"
  note v = mpmc_pop_claims [OF assms(2)]
  let ?s1 = "go s i (PopAt ?t)" and ?s2 = "go s i (PopSeq ?t (?t + 1))"
  let ?s3 = "(go s i (PopOwn ?t))\<lparr>mq := (mq s)\<lparr>mq_tail := ?t + 1\<rparr>\<rparr>"
  let ?s4 = "(go s i (PopRead ?t (Some x)))\<lparr>mq := (mq s)\<lparr>mq_tail := ?t + 1\<rparr>\<rparr>"
  have "mpmc_step n s ?s1" by (rule mpmc_step.pop_start) fact
  moreover have "mpmc_step n ?s1 ?s2" using mpmc_step.pop_load [of ?s1 i ?t n] v by simp
  moreover have "mpmc_step n ?s2 ?s3" using mpmc_step.pop_claim [of ?s2 i ?t "?t + 1" n] by (simp add: seq_diff_0)
  moreover have "mpmc_step n ?s3 ?s4" using mpmc_step.pop_read [of ?s3 i ?t n] v by (cases s) simp
  moreover have "mpmc_step n ?s4 (s\<lparr>mq := q, taken := taken s @ [(unat ?t, Some x)]\<rparr>)"
  proof -
    have "(threads s)(i := Idle) = threads s" using assms(1) by auto
    then show ?thesis using mpmc_step.pop_done [of ?s4 i ?t "Some x" n] v by (cases s) simp
  qed
  ultimately show ?thesis by (meson converse_rtranclp_into_rtranclp rtranclp.rtrancl_refl)
qed

lemma mpmc_reach_7: "\<exists>s. mpmc_reach 2 s \<and> entered s = [7 :: nat] \<and> taken s = [(0, Some 7)]"
proof -
  let ?s = "mpmc_start 2 :: nat mpmc_system"
  let ?q = "\<lparr>mq_head = 1, mq_tail = 0, sequences = [1, 1], mq_buffer = [Some 7, None]\<rparr>"
  let ?s1 = "?s\<lparr>mq := ?q, entered := [7]\<rparr>"
  let ?q2 = "?q\<lparr>mq_tail := 1, sequences := [2, 1]\<rparr>"
  have z: "ring_slot 2 0 = 0" using ring_slot_of_nat [OF ring_size_2, of 0] by simp
  have "mpmc_new 2 = (\<lparr>mq_head = 0, mq_tail = 0, sequences = [0, 1], mq_buffer = [None, None]\<rparr> :: nat mpmc_queue)"
    by (simp add: mpmc_new_def numeral_2_eq_2)
  then have "mpmc_try_push 2 (mq ?s) 7 = Some (Ok (), ?q)"
    using mpmc_push_now [of "mq ?s" 2 7] by (simp add: mpmc_start_def z)
  from mpmc_push_steps [OF _ this] have "(mpmc_step 2)\<^sup>*\<^sup>* ?s ?s1" by (simp add: mpmc_start_def)
  moreover have "mpmc_try_pop 2 (mq ?s1) = Some (Ok (Some 7), ?q2)"
    unfolding mpmc_try_pop_def by (subst mpmc_pop_loop.simps) (simp add: z seq_diff_0 Let_def)
  from mpmc_pop_steps [OF _ this] have "(mpmc_step 2)\<^sup>*\<^sup>* ?s1 (?s1\<lparr>mq := ?q2, taken := [(0, Some 7)]\<rparr>)"
    by (simp add: mpmc_start_def)
  ultimately have "mpmc_reach 2 (?s1\<lparr>mq := ?q2, taken := [(0, Some 7)]\<rparr>)" unfolding mpmc_reach_def by (rule rtranclp_trans)
  then show ?thesis by (rule exI [of _ "?s1\<lparr>mq := ?q2, taken := [(0, Some 7)]\<rparr>", OF conjI]) simp
qed

section \<open>Properties\<close>

text \<open>
  C26. The multi-producer multi-consumer queue with two or more slots, under every interleaving of
  the memory accesses of any number of threads, until \<open>2^64\<close> items have been pushed: the pops that
  finished took distinct positions and got the item that entered at their position, never an
  unwritten slot, and no two threads hold the same slot between claiming and releasing it.
\<close>

theorem mpmc_exclusive:
  assumes "ring_size n" "2 \<le> n" "mpmc_reach n s" "length (entered s) + n < 2 ^ 64"
  shows "distinct (map fst (taken s)) \<and> (\<forall>(p, x) \<in> set (taken s). p < length (entered s) \<and> x = Some (entered s ! p))
    \<and> (\<forall>i k h h'. i \<noteq> k \<and> slot_access (threads s i) = Some h \<and> slot_access (threads s k) = Some h' \<longrightarrow>
         ring_slot n h \<noteq> ring_slot n h')"
proof -
  obtain H T cur ph where inv: "mpmc_inv_with n s H T cur ph"
    using mpmc_reach_inv [OF assms(1,2,3,4)] by (auto simp: mpmc_inv_def)
  note f = inv_facts [OF inv]
  have "ring_slot n h \<noteq> ring_slot n h'"
    if "i \<noteq> k" "slot_access (threads s i) = Some h" "slot_access (threads s k) = Some h'" for i k h h'
    using slot_access_owner [OF inv assms(1) that(2)] slot_access_owner [OF inv assms(1) that(3)] that(1) by auto
  then show ?thesis using f(1,4,7) unfolding taken_ok_def by fastforce
qed

theorem mpmc_exclusive_witness:
  "\<exists>s. mpmc_reach 2 s \<and> taken s = [(0, Some (7 :: nat))] \<and> entered s = [7] \<and> distinct (map fst (taken s))"
proof -
  obtain s where s: "mpmc_reach 2 s" "entered s = [7 :: nat]" "taken s = [(0, Some 7)]" using mpmc_reach_7 by blast
  then have "distinct (map fst (taken s))" using mpmc_exclusive [OF ring_size_2 order_refl s(1)] by simp
  with s show ?thesis by blast
qed

text \<open>
  C28. Calls that do not overlap, from a new queue with two or more slots: every sequence of pushes
  and pops returns, and every call has the result of the same call on a list of at most \<open>n\<close> items. So
  an item is rejected exactly when \<open>n\<close> items are held, and a pop gives the oldest item held or, when
  there is none, nothing. The queue then holds the items of the list, the length and emptiness
  reported are theirs, and dropping the queue ends with it empty.
\<close>

theorem mpmc_alone_fifo:
  assumes "ring_size n" "2 \<le> n" "fifo_calls n [] (cs :: 'a option list) = (rs, xs)"
  shows "\<exists>q. run_calls (mpmc_try_push n) (mpmc_try_pop n) (mpmc_new n) cs = Some (rs, q)
    \<and> mpmc_content n q = xs \<and> mpmc_len q = length xs \<and> (mpmc_is_empty q \<longleftrightarrow> xs = [])
    \<and> (\<exists>q'. mpmc_drop n q = Some q' \<and> mpmc_content n q' = [])"
proof -
  have "mpmc_quiet n (mpmc_new n :: 'a mpmc_queue) [] 0" using assms(1,2) by (simp add: mpmc_quiet_def mpmc_new_def)
  then have "mpmc_ok n (mpmc_new n :: 'a mpmc_queue)" "mpmc_content n (mpmc_new n :: 'a mpmc_queue) = []"
    using mpmc_content_eq [of n "mpmc_new n :: 'a mpmc_queue" "[]" 0] by (auto simp: mpmc_ok_def)
  from mpmc_fifo.calls_refine [OF this(1), of cs] this(2) assms(3) obtain q
    where q: "run_calls (mpmc_try_push n) (mpmc_try_pop n) (mpmc_new n) cs = Some (rs, q)" "mpmc_ok n q" "mpmc_content n q = xs"
    by auto
  have "mpmc_len q = length (mpmc_content n q)" by (simp add: mpmc_content_def)
  moreover have "mpmc_is_empty q \<longleftrightarrow> mpmc_len q = 0" by (auto simp: mpmc_is_empty_def mpmc_len_def unat_eq_0)
  ultimately show ?thesis using q mpmc_drop_empties [OF q(2)] by (intro exI [of _ q]) simp
qed

theorem mpmc_alone_fifo_witness:
  "\<exists>q. run_calls (mpmc_try_push 2) (mpmc_try_pop 2) (mpmc_new 2) [None, Some (7 :: nat), Some 8, Some 9, None, Some 9] =
     Some ([Inr (Ok None), Inl (Ok ()), Inl (Ok ()), Inl (Err 9), Inr (Ok (Some 7)), Inl (Ok ())], q)
     \<and> mpmc_content 2 q = [8, 9] \<and> mpmc_len q = 2"
proof -
  have "fifo_calls 2 [] [None, Some (7 :: nat), Some 8, Some 9, None, Some 9] =
      ([Inr (Ok None), Inl (Ok ()), Inl (Ok ()), Inl (Err 9), Inr (Ok (Some 7)), Inl (Ok ())], [8, 9])" by simp
  from mpmc_alone_fifo [OF ring_size_2 order_refl this] show ?thesis by auto
qed

text \<open>
  C30. With one slot the multi-producer multi-consumer queue breaks its promise: a second push on the
  full queue is accepted and replaces the first item, and the pop that follows, as the drop of the queue, never returns.
\<close>

theorem mpmc_single_slot:
  "\<exists>q. mpmc_try_push 1 (mpmc_new 1) x = Some (Ok (), q) \<and> (\<exists>q'. mpmc_try_push 1 q y = Some (Ok (), q') \<and> mpmc_try_pop 1 q' = None \<and> mpmc_drop 1 q' = None)"
proof -
  let ?q = "\<lparr>mq_head = 1, mq_tail = 0, sequences = [1], mq_buffer = [Some x]\<rparr>"
  let ?r = "\<lparr>mq_head = 2, mq_tail = 0, sequences = [2], mq_buffer = [Some y]\<rparr>"
  have s: "ring_slot 1 p = 0" "ring_slot (Suc 0) p = 0" for p by (simp_all add: ring_slot_def ring_mask_def)
  have "mpmc_try_push 1 (mpmc_new 1) x = Some (Ok (), ?q)" 
    by (subst mpmc_push_now) (simp_all add: mpmc_new_def s)
  moreover have "mpmc_try_push 1 ?q y = Some (Ok (), ?r)"
    by (subst mpmc_push_now) (simp_all add: s)
  moreover have p: "mpmc_try_pop 1 ?r = None" by (rule mpmc_pop_spins) (simp add: s seq_diff_def)
  moreover have "mpmc_drop 1 ?r = None" by (subst mpmc_drop.simps) (simp only: p option.case)
  ultimately show ?thesis by blast
qed

end
