(* ===== verification/WS_PubSub.thy ===== *)
theory WS_PubSub
  imports WS_Protocol "HOL-Library.AList" "HOL-Library.Monad_Syntax"
begin

text \<open>
  Publish and subscribe, \<^verbatim>\<open>src/pubsub.rs\<close>. A hash map is an association list with distinct keys; the
  order in which it is walked is unspecified and is the parameter \<open>order\<close>, a permutation of the keys. A channel
  of \<^verbatim>\<open>tokio\<close> is a value of type \<^typ>\<open>'c\<close> and \<open>send\<close>, its sending operation, acts on a world \<^typ>\<open>'w\<close>; a send fails when
  the receiver is gone. Changes of membership hold the write lock of the state, so that concurrent calls are a sequence of
  these operations; messages are sent after the lock is released and do not touch the state. \<open>None\<close> is a
  failed \<^verbatim>\<open>expect\<close> or \<^verbatim>\<open>debug_assert\<close>, an index out of range or an underflow.
\<close>

section \<open>State\<close>

type_synonym subscriber_id = u64

datatype publish_result = Published nat | NoSubscribers

fun publish_count :: "publish_result \<Rightarrow> nat" where
  "publish_count (Published n) = n"
| "publish_count NoSubscribers = 0"

datatype 'c snapshot = One 'c | Many "'c list"

record 'c subscriber =
  sb_sender :: 'c
  sb_topics :: "(string \<times> nat) list"
  sb_socket_id :: "string option"

record 'c pubsub_data =
  ps_topics :: "(string \<times> (subscriber_id \<times> 'c) list) list"
  ps_subscribers :: "(subscriber_id \<times> 'c subscriber) list"
  socket_id_map :: "(string \<times> subscriber_id) list"

record 'c pubsub =
  ps_state :: "'c pubsub_data"
  next_subscriber_id :: u64
  messages_published :: u64

definition pubsub_new :: "'c pubsub" where
  "pubsub_new = \<lparr>ps_state = \<lparr>ps_topics = [], ps_subscribers = [], socket_id_map = []\<rparr>, next_subscriber_id = 1, messages_published = 0\<rparr>"

section \<open>Membership\<close>

definition insert_subscriber :: "'c pubsub_data \<Rightarrow> subscriber_id \<Rightarrow> 'c \<Rightarrow> string option \<Rightarrow> 'c pubsub_data option" where
  "insert_subscriber d i sender socket =
     (if map_of (ps_subscribers d) i \<noteq> None then None
      else
        let d = d\<lparr>ps_subscribers := AList.update i \<lparr>sb_sender = sender, sb_topics = [], sb_socket_id = socket\<rparr> (ps_subscribers d)\<rparr> in
        case socket of
          None \<Rightarrow> Some d
        | Some s \<Rightarrow> if map_of (socket_id_map d) s \<noteq> None then None
                    else Some (d\<lparr>socket_id_map := AList.update s i (socket_id_map d)\<rparr>))"

definition swap_remove :: "nat \<Rightarrow> 'a list \<Rightarrow> 'a list option" where
  "swap_remove p xs = (if p < length xs then Some (butlast (xs[p := last xs])) else None)"

definition remove_topic_member :: "'c pubsub_data \<Rightarrow> string \<Rightarrow> nat \<Rightarrow> 'c pubsub_data option" where
  "remove_topic_member d topic position =
     do {
       members \<leftarrow> map_of (ps_topics d) topic;
       members \<leftarrow> swap_remove position members;
       let d = d\<lparr>ps_topics := AList.update topic members (ps_topics d)\<rparr>;
       d \<leftarrow> (if position < length members then
               do {
                 let moved = fst (members ! position);
                 s \<leftarrow> map_of (ps_subscribers d) moved;
                 _ \<leftarrow> map_of (sb_topics s) topic;
                 Some (d\<lparr>ps_subscribers := AList.update moved (s\<lparr>sb_topics := AList.update topic position (sb_topics s)\<rparr>) (ps_subscribers d)\<rparr>)
               }
             else Some d);
       Some (if members = [] then d\<lparr>ps_topics := AList.delete topic (ps_topics d)\<rparr> else d)
     }"

fun remove_memberships :: "'c pubsub_data \<Rightarrow> (string \<times> nat) list \<Rightarrow> 'c pubsub_data option" where
  "remove_memberships d [] = Some d"
| "remove_memberships d ((topic, position) # rest) = do { d \<leftarrow> remove_topic_member d topic position; remove_memberships d rest }"

text \<open>The entries of a hash map in the order in which it is walked.\<close>

definition entries :: "(string list \<Rightarrow> string list) \<Rightarrow> (string \<times> 'v) list \<Rightarrow> (string \<times> 'v) list" where
  "entries order m = map (\<lambda>k. (k, the (map_of m k))) (order (map fst m))"

definition remove_subscriber_from ::
  "(string list \<Rightarrow> string list) \<Rightarrow> 'c pubsub_data \<Rightarrow> subscriber_id \<Rightarrow> ('c option \<times> 'c pubsub_data) option" where
  "remove_subscriber_from order d i =
     (case map_of (ps_subscribers d) i of
        None \<Rightarrow> Some (None, d)
      | Some s \<Rightarrow>
          do {
            let d = d\<lparr>ps_subscribers := AList.delete i (ps_subscribers d)\<rparr>;
            d \<leftarrow> (case sb_socket_id s of
                   None \<Rightarrow> Some d
                 | Some k \<Rightarrow> if map_of (socket_id_map d) k = Some i
                             then Some (d\<lparr>socket_id_map := AList.delete k (socket_id_map d)\<rparr>) else None);
            d \<leftarrow> remove_memberships d (entries order (sb_topics s));
            Some (Some (sb_sender s), d)
          })"

definition subscribe_in :: "'c pubsub_data \<Rightarrow> subscriber_id \<Rightarrow> string \<Rightarrow> bool \<times> 'c pubsub_data" where
  "subscribe_in d i topic =
     (case map_of (ps_subscribers d) i of
        None \<Rightarrow> (False, d)
      | Some s \<Rightarrow>
          if map_of (sb_topics s) topic \<noteq> None then (False, d)
          else
            let members = (case map_of (ps_topics d) topic of None \<Rightarrow> [] | Some ms \<Rightarrow> ms);
                s = s\<lparr>sb_topics := AList.update topic (length members) (sb_topics s)\<rparr>
            in (True, d\<lparr>ps_topics := AList.update topic (members @ [(i, sb_sender s)]) (ps_topics d),
                      ps_subscribers := AList.update i s (ps_subscribers d)\<rparr>))"

definition unsubscribe_in :: "'c pubsub_data \<Rightarrow> subscriber_id \<Rightarrow> string \<Rightarrow> (bool \<times> 'c pubsub_data) option" where
  "unsubscribe_in d i topic =
     (case map_of (ps_subscribers d) i of
        None \<Rightarrow> Some (False, d)
      | Some s \<Rightarrow>
          (case map_of (sb_topics s) topic of
             None \<Rightarrow> Some (False, d)
           | Some position \<Rightarrow>
               do {
                 let s = s\<lparr>sb_topics := AList.delete topic (sb_topics s)\<rparr>;
                 d \<leftarrow> remove_topic_member (d\<lparr>ps_subscribers := AList.update i s (ps_subscribers d)\<rparr>) topic position;
                 Some (True, d)
               }))"

section \<open>Subscribers\<close>

definition create_subscriber :: "'c pubsub \<Rightarrow> 'c \<Rightarrow> (subscriber_id \<times> 'c pubsub) option" where
  "create_subscriber p sender =
     do {
       let i = next_subscriber_id p;
       d \<leftarrow> insert_subscriber (ps_state p) i sender None;
       Some (i, p\<lparr>next_subscriber_id := i + 1, ps_state := d\<rparr>)
     }"

definition remove_subscriber :: "(string list \<Rightarrow> string list) \<Rightarrow> 'c pubsub \<Rightarrow> subscriber_id \<Rightarrow> 'c pubsub option" where
  "remove_subscriber order p i = do { (_, d) \<leftarrow> remove_subscriber_from order (ps_state p) i; Some (p\<lparr>ps_state := d\<rparr>) }"

text \<open>An identifier from a clock reading in nanoseconds.\<close>

definition generate_socket_id :: "128 word \<Rightarrow> string" where
  "generate_socket_id now =
     (let part1 = (now AND 0xFFFFFFFFFF) XOR drop_bit 40 now; part2 = drop_bit 20 now XOR (now AND 0xFFFFF) in
      show_nat (unat part1) @ ''.'' @ show_nat (unat part2))"

text \<open>A socket identifier in use is an \<open>Err\<close> with the message of the documented panic, raised before anything changes.\<close>

definition create_subscriber_with_id ::
  "'c pubsub \<Rightarrow> string \<Rightarrow> 'c \<Rightarrow> ((subscriber_id, string) result \<times> 'c pubsub) option" where
  "create_subscriber_with_id p socket sender =
     (if map_of (socket_id_map (ps_state p)) socket \<noteq> None
      then Some (Err (''Socket ID '' @ [CHR 0x27] @ socket @ [CHR 0x27] @ '' is already in use''), p)
      else do {
        let i = next_subscriber_id p;
        d \<leftarrow> insert_subscriber (ps_state p) i sender (Some socket);
        Some (Ok i, p\<lparr>next_subscriber_id := i + 1, ps_state := d\<rparr>)
      })"

definition create_subscriber_with_id_or_get ::
  "'c pubsub \<Rightarrow> string \<Rightarrow> 'c \<Rightarrow> ((subscriber_id \<times> bool) \<times> 'c pubsub) option" where
  "create_subscriber_with_id_or_get p socket sender =
     (case map_of (socket_id_map (ps_state p)) socket of
        Some i \<Rightarrow> Some ((i, False), p)
      | None \<Rightarrow>
          do {
            let i = next_subscriber_id p;
            d \<leftarrow> insert_subscriber (ps_state p) i sender (Some socket);
            Some ((i, True), p\<lparr>next_subscriber_id := i + 1, ps_state := d\<rparr>)
          })"

definition get_subscriber_by_socket_id :: "'c pubsub \<Rightarrow> string \<Rightarrow> subscriber_id option" where
  "get_subscriber_by_socket_id p socket = map_of (socket_id_map (ps_state p)) socket"

definition get_socket_id :: "'c pubsub \<Rightarrow> subscriber_id \<Rightarrow> string option" where
  "get_socket_id p i = Option.bind (map_of (ps_subscribers (ps_state p)) i) sb_socket_id"

definition remove_subscriber_by_socket_id ::
  "(string list \<Rightarrow> string list) \<Rightarrow> 'c pubsub \<Rightarrow> string \<Rightarrow> (bool \<times> 'c pubsub) option" where
  "remove_subscriber_by_socket_id order p socket =
     (case map_of (socket_id_map (ps_state p)) socket of
        None \<Rightarrow> Some (False, p)
      | Some i \<Rightarrow> do { (sender, d) \<leftarrow> remove_subscriber_from order (ps_state p) i; Some (sender \<noteq> None, p\<lparr>ps_state := d\<rparr>) })"

section \<open>Subscriptions\<close>

definition subscribe :: "'c pubsub \<Rightarrow> subscriber_id \<Rightarrow> string \<Rightarrow> bool \<times> 'c pubsub" where
  "subscribe p i topic = (case subscribe_in (ps_state p) i topic of (r, d) \<Rightarrow> (r, p\<lparr>ps_state := d\<rparr>))"

definition unsubscribe :: "'c pubsub \<Rightarrow> subscriber_id \<Rightarrow> string \<Rightarrow> (bool \<times> 'c pubsub) option" where
  "unsubscribe p i topic = do { (r, d) \<leftarrow> unsubscribe_in (ps_state p) i topic; Some (r, p\<lparr>ps_state := d\<rparr>) }"

definition subscribe_by_socket_id :: "'c pubsub \<Rightarrow> string \<Rightarrow> string \<Rightarrow> bool \<times> 'c pubsub" where
  "subscribe_by_socket_id p socket topic =
     (case map_of (socket_id_map (ps_state p)) socket of
        None \<Rightarrow> (False, p)
      | Some i \<Rightarrow> (case subscribe_in (ps_state p) i topic of (r, d) \<Rightarrow> (r, p\<lparr>ps_state := d\<rparr>)))"

definition unsubscribe_by_socket_id :: "'c pubsub \<Rightarrow> string \<Rightarrow> string \<Rightarrow> (bool \<times> 'c pubsub) option" where
  "unsubscribe_by_socket_id p socket topic =
     (case map_of (socket_id_map (ps_state p)) socket of
        None \<Rightarrow> Some (False, p)
      | Some i \<Rightarrow> do { (r, d) \<leftarrow> unsubscribe_in (ps_state p) i topic; Some (r, p\<lparr>ps_state := d\<rparr>) })"

section \<open>Publishing\<close>

definition member_index :: "nat \<Rightarrow> 'a list \<Rightarrow> 'a option" where
  "member_index i xs = (if i < length xs then Some (xs ! i) else None)"

definition recipient_snapshot :: "'c pubsub_data \<Rightarrow> string \<Rightarrow> subscriber_id option \<Rightarrow> 'c snapshot option option" where
  "recipient_snapshot d topic exclude =
     (case map_of (ps_topics d) topic of
        None \<Rightarrow> Some None
      | Some ms \<Rightarrow>
          let is_member = (\<lambda>i. case ms of
                [(m, _)] \<Rightarrow> m = i
              | _ \<Rightarrow> (case map_of (ps_subscribers d) i of None \<Rightarrow> False | Some s \<Rightarrow> map_of (sb_topics s) topic \<noteq> None));
              exclude = (case exclude of Some i \<Rightarrow> if is_member i then Some i else None | None \<Rightarrow> None);
              excluded = (if exclude \<noteq> None then 1 else 0)
          in
          if length ms < excluded then None
          else if length ms - excluded = 1 then
            do {
              first \<leftarrow> member_index 0 ms;
              (_, sender) \<leftarrow> (if Some (fst first) = exclude then member_index 1 ms else Some first);
              Some (Some (One sender))
            }
          else Some (Some (Many (map snd (filter (\<lambda>(i, _). Some i \<noteq> exclude) ms)))))"

fun send_many :: "('c \<Rightarrow> message \<Rightarrow> 'w \<Rightarrow> bool \<times> 'w) \<Rightarrow> 'c list \<Rightarrow> message \<Rightarrow> 'w \<Rightarrow> nat \<times> 'w" where
  "send_many send [] m w = (0, w)"
| "send_many send (c # cs) m w =
     (let (ok, w) = send c m w; (n, w) = send_many send cs m w in (if ok then n + 1 else n, w))"

definition send_to_recipients ::
  "('c \<Rightarrow> message \<Rightarrow> 'w \<Rightarrow> bool \<times> 'w) \<Rightarrow> 'c pubsub \<Rightarrow> 'c snapshot option \<Rightarrow> message \<Rightarrow> 'w
     \<Rightarrow> publish_result \<times> 'c pubsub \<times> 'w" where
  "send_to_recipients send p recipients m w =
     (case recipients of
        None \<Rightarrow> (NoSubscribers, p, w)
      | Some rs \<Rightarrow>
          let (sent, w) = (case rs of
                 One sender \<Rightarrow> (case send sender m w of (ok, w) \<Rightarrow> (if ok then 1 else 0, w))
               | Many senders \<Rightarrow> send_many send senders m w)
          in (if sent > 0 then Published sent else NoSubscribers, p\<lparr>messages_published := messages_published p + 1\<rparr>, w))"

definition publish ::
  "('c \<Rightarrow> message \<Rightarrow> 'w \<Rightarrow> bool \<times> 'w) \<Rightarrow> 'c pubsub \<Rightarrow> string \<Rightarrow> message \<Rightarrow> 'w \<Rightarrow> (publish_result \<times> 'c pubsub \<times> 'w) option" where
  "publish send p topic m w =
     do { rs \<leftarrow> recipient_snapshot (ps_state p) topic None; Some (send_to_recipients send p rs m w) }"

definition publish_excluding ::
  "('c \<Rightarrow> message \<Rightarrow> 'w \<Rightarrow> bool \<times> 'w) \<Rightarrow> 'c pubsub \<Rightarrow> subscriber_id \<Rightarrow> string \<Rightarrow> message \<Rightarrow> 'w
     \<Rightarrow> (publish_result \<times> 'c pubsub \<times> 'w) option" where
  "publish_excluding send p i topic m w =
     do { rs \<leftarrow> recipient_snapshot (ps_state p) topic (Some i); Some (send_to_recipients send p rs m w) }"

definition publish_excluding_socket_id ::
  "('c \<Rightarrow> message \<Rightarrow> 'w \<Rightarrow> bool \<times> 'w) \<Rightarrow> 'c pubsub \<Rightarrow> string \<Rightarrow> string \<Rightarrow> message \<Rightarrow> 'w
     \<Rightarrow> (publish_result \<times> 'c pubsub \<times> 'w) option" where
  "publish_excluding_socket_id send p socket topic m w =
     do {
       rs \<leftarrow> recipient_snapshot (ps_state p) topic (map_of (socket_id_map (ps_state p)) socket);
       Some (send_to_recipients send p rs m w)
     }"

section \<open>Queries\<close>

definition is_subscribed :: "'c pubsub \<Rightarrow> subscriber_id \<Rightarrow> string \<Rightarrow> bool" where
  "is_subscribed p i topic =
     (case map_of (ps_subscribers (ps_state p)) i of None \<Rightarrow> False | Some s \<Rightarrow> map_of (sb_topics s) topic \<noteq> None)"

definition is_subscribed_by_socket_id :: "'c pubsub \<Rightarrow> string \<Rightarrow> string \<Rightarrow> bool" where
  "is_subscribed_by_socket_id p socket topic =
     (case map_of (socket_id_map (ps_state p)) socket of None \<Rightarrow> False | Some i \<Rightarrow> is_subscribed p i topic)"

definition subscriber_topics :: "(string list \<Rightarrow> string list) \<Rightarrow> 'c pubsub \<Rightarrow> subscriber_id \<Rightarrow> string list" where
  "subscriber_topics order p i =
     (case map_of (ps_subscribers (ps_state p)) i of None \<Rightarrow> [] | Some s \<Rightarrow> order (map fst (sb_topics s)))"

definition subscriber_topics_by_socket_id :: "(string list \<Rightarrow> string list) \<Rightarrow> 'c pubsub \<Rightarrow> string \<Rightarrow> string list" where
  "subscriber_topics_by_socket_id order p socket =
     (case map_of (socket_id_map (ps_state p)) socket of None \<Rightarrow> [] | Some i \<Rightarrow> subscriber_topics order p i)"

definition topic_subscriber_count :: "'c pubsub \<Rightarrow> string \<Rightarrow> nat" where
  "topic_subscriber_count p topic = (case map_of (ps_topics (ps_state p)) topic of None \<Rightarrow> 0 | Some ms \<Rightarrow> length ms)"

definition topic_count :: "'c pubsub \<Rightarrow> nat" where "topic_count p = length (ps_topics (ps_state p))"
definition subscriber_count :: "'c pubsub \<Rightarrow> nat" where "subscriber_count p = length (ps_subscribers (ps_state p))"

definition all_topics :: "(string list \<Rightarrow> string list) \<Rightarrow> 'c pubsub \<Rightarrow> string list" where
  "all_topics order p = order (map fst (ps_topics (ps_state p)))"

definition all_socket_ids :: "(string list \<Rightarrow> string list) \<Rightarrow> 'c pubsub \<Rightarrow> string list" where
  "all_socket_ids order p = order (map fst (socket_id_map (ps_state p)))"

definition has_socket_id :: "'c pubsub \<Rightarrow> string \<Rightarrow> bool" where
  "has_socket_id p socket \<longleftrightarrow> map_of (socket_id_map (ps_state p)) socket \<noteq> None"

end
