(* ===== verification/WS_PubSub_Index.thy ===== *)
theory WS_PubSub_Index
  imports WS_PubSub "HOL-Library.Multiset"
begin

text \<open>
  The indexes of the publish and subscribe state. \<open>indexed\<close> says that the members of the topics and the
  positions kept with the subscribers are inverse to each other; it is proved for maps first, with the move
  that \<^verbatim>\<open>swap_remove\<close> makes, and then for the operations on the state (\<open>data_ok\<close>).
\<close>

section \<open>The two indexes\<close>

text \<open>
  \<open>T\<close> maps a topic to its members, \<open>R\<close> a subscriber to its channel and to its position in each of its
  topics. They are inverse to each other.
\<close>

definition indexed :: "(string \<rightharpoonup> (subscriber_id \<times> 'c) list) \<Rightarrow> (subscriber_id \<rightharpoonup> 'c \<times> (string \<rightharpoonup> nat)) \<Rightarrow> bool" where
  "indexed T R \<longleftrightarrow> (\<forall>t. T t \<noteq> Some [])
     \<and> (\<forall>i c ix t p. R i = Some (c, ix) \<and> ix t = Some p \<longrightarrow> (\<exists>ms. T t = Some ms \<and> p < length ms \<and> ms ! p = (i, c)))
     \<and> (\<forall>t ms p i c. T t = Some ms \<and> p < length ms \<and> ms ! p = (i, c) \<longrightarrow> (\<exists>ix. R i = Some (c, ix) \<and> ix t = Some p))"

lemma indexed_nonempty: "indexed T R \<Longrightarrow> T t \<noteq> Some []"
  unfolding indexed_def by blast

lemma indexed_member: "indexed T R \<Longrightarrow> R i = Some (c, ix) \<Longrightarrow> ix t = Some p \<Longrightarrow> \<exists>ms. T t = Some ms \<and> p < length ms \<and> ms ! p = (i, c)"
  unfolding indexed_def by blast

lemma indexed_position: "indexed T R \<Longrightarrow> T t = Some ms \<Longrightarrow> p < length ms \<Longrightarrow> ms ! p = (i, c) \<Longrightarrow> \<exists>ix. R i = Some (c, ix) \<and> ix t = Some p"
  unfolding indexed_def by blast

lemma indexedI:
  assumes "\<And>t. T t \<noteq> Some []"
    and "\<And>i c ix t p. R i = Some (c, ix) \<Longrightarrow> ix t = Some p \<Longrightarrow> \<exists>ms. T t = Some ms \<and> p < length ms \<and> ms ! p = (i, c)"
    and "\<And>t ms p i c. T t = Some ms \<Longrightarrow> p < length ms \<Longrightarrow> ms ! p = (i, c) \<Longrightarrow> \<exists>ix. R i = Some (c, ix) \<and> ix t = Some p"
  shows "indexed T R"
  unfolding indexed_def using assms by blast

text \<open>Appending a member.\<close>

lemma indexed_add:
  assumes "indexed T R" "R i = Some (c, ix)" "ix t = None" "ms = (case T t of None \<Rightarrow> [] | Some ms \<Rightarrow> ms)"
  shows "indexed (T(t \<mapsto> ms @ [(i, c)])) (R(i \<mapsto> (c, ix(t \<mapsto> length ms))))"
proof (rule indexedI)
  show "(T(t \<mapsto> ms @ [(i, c)])) t' \<noteq> Some []" for t' using indexed_nonempty [OF assms(1)] by auto
  show "\<exists>ms'. (T(t \<mapsto> ms @ [(i, c)])) t' = Some ms' \<and> p < length ms' \<and> ms' ! p = (j, c')"
    if r: "(R(i \<mapsto> (c, ix(t \<mapsto> length ms)))) j = Some (c', jx)" "jx t' = Some p" for j c' jx t' p
  proof (cases "j = i \<and> t' = t")
    case True
    then show ?thesis using r by auto
  next
    case False
    then obtain jx' where "R j = Some (c', jx')" "jx' t' = Some p" using r assms(2) by (cases "j = i") auto
    from indexed_member [OF assms(1) this] obtain ms' where "T t' = Some ms'" "p < length ms'" "ms' ! p = (j, c')" by blast
    then show ?thesis using assms(4) by (cases "t' = t") (auto simp: nth_append)
  qed
  show "\<exists>jx. (R(i \<mapsto> (c, ix(t \<mapsto> length ms)))) j = Some (c', jx) \<and> jx t' = Some p"
    if m: "(T(t \<mapsto> ms @ [(i, c)])) t' = Some ms'" "p < length ms'" "ms' ! p = (j, c')" for t' ms' p j c'
  proof (cases "t' = t \<and> p = length ms")
    case True
    then show ?thesis using m by auto
  next
    case False
    then have "\<exists>ms0. T t' = Some ms0 \<and> p < length ms0 \<and> ms0 ! p = (j, c')"
      using m assms(4) by (cases "t' = t") (auto simp: nth_append split: option.splits if_splits)
    then obtain jx where "R j = Some (c', jx)" "jx t' = Some p" using indexed_position [OF assms(1)] by blast
    then show ?thesis using assms(2,3) by (cases "j = i") auto
  qed
qed

lemma swap_remove_props:
  assumes "p < length ms"
  shows "\<exists>ms'. swap_remove p ms = Some ms' \<and> length ms' = length ms - 1 \<and> (\<forall>q<length ms'. ms' ! q = (if q = p then last ms else ms ! q))"
  using assms by (auto simp: swap_remove_def nth_butlast nth_list_update)

text \<open>Taking a member out: the last one moves to its place.\<close>

lemma indexed_unique:
  assumes "indexed T R" "T t = Some ms" "p < length ms" "q < length ms" "ms ! p = (i, c)" "ms ! q = (i, c')"
  shows "p = q"
  using indexed_position [OF assms(1,2,3,5)] indexed_position [OF assms(1,2,4,6)] by auto

lemma indexed_remove_last:
  assumes inv: "indexed T (R(x \<mapsto> (c, ix)))" and ms: "T t = Some ms" "ms ! p = (x, c)" "p = length ms - 1" "ms \<noteq> []"
    and s: "length ms' = length ms - 1" "\<forall>q<length ms'. ms' ! q = ms ! q"
  shows "indexed (if ms' = [] then T(t := None) else T(t \<mapsto> ms')) (R(x \<mapsto> (c, ix(t := None))))" (is "indexed ?T _")
proof (rule indexedI)
  note at = indexed_position [OF inv] and mem = indexed_member [OF inv]
  have p: "p < length ms" using ms(3,4) by simp
  show "?T t' \<noteq> Some []" for t' using indexed_nonempty [OF inv, of t'] by auto
  show "\<exists>ms0. ?T t' = Some ms0 \<and> q < length ms0 \<and> ms0 ! q = (i, c')"
    if r: "(R(x \<mapsto> (c, ix(t := None)))) i = Some (c', jx)" "jx t' = Some q" for i c' jx t' q
  proof -
    obtain jx' where jx: "(R(x \<mapsto> (c, ix))) i = Some (c', jx')" "jx' t' = Some q" "\<not> (i = x \<and> t' = t)"
      using r by (cases "i = x") (auto split: if_splits)
    from mem [OF jx(1,2)] obtain ms0 where m: "T t' = Some ms0" "q < length ms0" "ms0 ! q = (i, c')" by blast
    show ?thesis
    proof (cases "t' = t")
      case True
      then have "q \<noteq> p" using m ms jx(3) by auto
      then have "q < length ms'" using m ms True s(1) by auto
      then show ?thesis using True m ms s(2) by auto
    qed (use m in auto)
  qed
  show "\<exists>jx. (R(x \<mapsto> (c, ix(t := None)))) i = Some (c', jx) \<and> jx t' = Some q"
    if m: "?T t' = Some ms0" "q < length ms0" "ms0 ! q = (i, c')" for t' ms0 q i c'
  proof (cases "t' = t")
    case True
    then have q: "q < length ms" "q \<noteq> p" "ms ! q = (i, c')" using m s ms(3) by (auto split: if_splits)
    then have "i \<noteq> x" using indexed_unique [OF inv ms(1) q(1) p] ms(2) by blast
    then show ?thesis using at [OF ms(1) q(1,3)] True by auto
  next
    case False
    then have "T t' = Some ms0" using m by (auto split: if_splits)
    from at [OF this m(2,3)] show ?thesis using False by auto
  qed
qed

lemma indexed_remove_move:
  assumes inv: "indexed T (R(x \<mapsto> (c, ix)))" and ms: "T t = Some ms" "ms ! p = (x, c)" "p < length ms - 1"
    and y: "ms ! (length ms - 1) = (y, cy)" "y \<noteq> x" "R y = Some (cy, iy)"
    and s: "length ms' = length ms - 1" "\<forall>q<length ms'. ms' ! q = (if q = p then (y, cy) else ms ! q)"
  shows "indexed (T(t \<mapsto> ms')) (R(x \<mapsto> (c, ix(t := None)), y \<mapsto> (cy, iy(t \<mapsto> p))))" (is "indexed _ ?R")
proof (rule indexedI)
  note at = indexed_position [OF inv] and mem = indexed_member [OF inv] and uniq = indexed_unique [OF inv ms(1)]
  have l: "p < length ms" "length ms - 1 < length ms" using ms(3) by auto
  show "(T(t \<mapsto> ms')) t' \<noteq> Some []" for t' using indexed_nonempty [OF inv, of t'] ms(3) s(1) by auto
  show "\<exists>ms0. (T(t \<mapsto> ms')) t' = Some ms0 \<and> q < length ms0 \<and> ms0 ! q = (i, c')"
    if r: "?R i = Some (c', jx)" "jx t' = Some q" for i c' jx t' q
  proof (cases "t' = t \<and> i = y")
    case True
    then show ?thesis using r ms(3) s by auto
  next
    case False
    then obtain jx' where jx: "(R(x \<mapsto> (c, ix))) i = Some (c', jx')" "jx' t' = Some q" "\<not> (i = x \<and> t' = t)"
      using r y(2,3) by (auto split: if_splits)
    from mem [OF jx(1,2)] obtain ms0 where m: "T t' = Some ms0" "q < length ms0" "ms0 ! q = (i, c')" by blast
    show ?thesis
    proof (cases "t' = t")
      case True
      then have "q \<noteq> p" "q \<noteq> length ms - 1" using m ms y False jx(3) by auto
      then show ?thesis using True m ms(1) s by auto
    qed (use m in auto)
  qed
  show "\<exists>jx. ?R i = Some (c', jx) \<and> jx t' = Some q"
    if m: "(T(t \<mapsto> ms')) t' = Some ms0" "q < length ms0" "ms0 ! q = (i, c')" for t' ms0 q i c'
  proof (cases "t' = t \<and> q \<noteq> p")
    case True
    then have q: "ms ! q = (i, c')" "q < length ms" "q \<noteq> length ms - 1" using m s by auto
    then have "i \<noteq> x" "i \<noteq> y" using uniq [OF q(2) l(1) q(1)] uniq [OF q(2) l(2) q(1)] ms(2) y(1) True by auto
    then show ?thesis using True at [OF ms(1) q(2,1)] by auto
  next
    case False
    then show ?thesis using m s y(2,3) at [of t' ms0 q i c'] by (cases "t' = t") auto
  qed
qed

lemma indexed_remove:
  assumes inv: "indexed T (R(x \<mapsto> (c, ix)))" and p: "ix t = Some p"
  obtains ms ms' where "T t = Some ms" "swap_remove p ms = Some ms'"
    "\<not> p < length ms' \<longrightarrow> indexed (if ms' = [] then T(t := None) else T(t \<mapsto> ms')) (R(x \<mapsto> (c, ix(t := None))))"
    "p < length ms' \<longrightarrow> (\<exists>y cy iy q. ms' ! p = (y, cy) \<and> y \<noteq> x \<and> R y = Some (cy, iy) \<and> iy t = Some q \<and> ms' \<noteq> []
       \<and> indexed (T(t \<mapsto> ms')) (R(x \<mapsto> (c, ix(t := None)), y \<mapsto> (cy, iy(t \<mapsto> p)))))"
proof -
  have "(R(x \<mapsto> (c, ix))) x = Some (c, ix)" by simp
  from indexed_member [OF inv this p] obtain ms where ms: "T t = Some ms" "p < length ms" "ms ! p = (x, c)" by blast
  then obtain ms' where s: "swap_remove p ms = Some ms'" "length ms' = length ms - 1"
    "\<forall>q<length ms'. ms' ! q = (if q = p then last ms else ms ! q)"
    using swap_remove_props by blast
  let ?l = "length ms - 1"
  have ne: "ms \<noteq> []" using ms(2) by auto
  then have l: "last ms = ms ! ?l" "?l < length ms" by (simp_all add: last_conv_nth)
  show thesis
  proof (rule that [OF ms(1) s(1)]; rule impI)
    assume "\<not> p < length ms'"
    then have "p = ?l" "\<forall>q<length ms'. ms' ! q = ms ! q" using s(2,3) ms(2) by auto
    then show "indexed (if ms' = [] then T(t := None) else T(t \<mapsto> ms')) (R(x \<mapsto> (c, ix(t := None))))"
      using indexed_remove_last [OF inv ms(1,3) _ ne s(2)] by blast
  next
    assume pl: "p < length ms'"
    obtain y cy where y: "ms ! ?l = (y, cy)" by force
    have "y \<noteq> x" using indexed_unique [OF inv ms(1) l(2) ms(2), of x] y ms(3) pl s(2) by auto
    moreover obtain iy where iy: "(R(x \<mapsto> (c, ix))) y = Some (cy, iy)" "iy t = Some ?l"
      using indexed_position [OF inv ms(1) l(2) y] by blast
    ultimately have Ry: "R y = Some (cy, iy)" by simp
    have "indexed (T(t \<mapsto> ms')) (R(x \<mapsto> (c, ix(t := None)), y \<mapsto> (cy, iy(t \<mapsto> p))))"
      using indexed_remove_move [OF inv ms(1,3) _ y \<open>y \<noteq> x\<close> Ry s(2)] s pl l y by simp
    moreover have "ms' ! p = (y, cy)" "ms' \<noteq> []" using pl s(3) l y by auto
    ultimately show "\<exists>y cy iy q. ms' ! p = (y, cy) \<and> y \<noteq> x \<and> R y = Some (cy, iy) \<and> iy t = Some q \<and> ms' \<noteq> []
       \<and> indexed (T(t \<mapsto> ms')) (R(x \<mapsto> (c, ix(t := None)), y \<mapsto> (cy, iy(t \<mapsto> p))))"
      using \<open>y \<noteq> x\<close> Ry iy(2) by blast
  qed
qed

section \<open>The indexes of a state\<close>

definition reverse_of :: "'c pubsub_data \<Rightarrow> subscriber_id \<rightharpoonup> 'c \<times> (string \<rightharpoonup> nat)" where
  "reverse_of d i = map_option (\<lambda>s. (sb_sender s, map_of (sb_topics s))) (map_of (ps_subscribers d) i)"

definition who :: "'c pubsub_data \<Rightarrow> subscriber_id \<rightharpoonup> 'c \<times> string option" where
  "who d i = map_option (\<lambda>s. (sb_sender s, sb_socket_id s)) (map_of (ps_subscribers d) i)"

definition has_topic :: "'c pubsub_data \<Rightarrow> subscriber_id \<Rightarrow> string \<Rightarrow> bool" where
  "has_topic d i t \<longleftrightarrow> (\<exists>c ix p. reverse_of d i = Some (c, ix) \<and> ix t = Some p)"

definition keys_ok :: "'c pubsub_data \<Rightarrow> bool" where
  "keys_ok d \<longleftrightarrow> distinct (map fst (ps_topics d)) \<and> distinct (map fst (ps_subscribers d)) \<and> distinct (map fst (socket_id_map d))
     \<and> (\<forall>i s. map_of (ps_subscribers d) i = Some s \<longrightarrow> distinct (map fst (sb_topics s)))"

declare map_of_eq_Some_iff [simp del] Some_eq_map_of_iff [simp del]

lemma alist_simps [simp]:
  "map_of (AList.update k v al) = (map_of al)(k \<mapsto> v)"
  "map_of (AList.delete k al) = (map_of al)(k := None)"
  "distinct (map fst al) \<Longrightarrow> distinct (map fst (AList.update k v al))"
  "distinct (map fst al) \<Longrightarrow> distinct (map fst (AList.delete k al))"
  by (simp_all add: update_conv' delete_conv' distinct_update distinct_delete)

lemma who_eq: "who d i = Some (c, k) \<longleftrightarrow> (\<exists>s. map_of (ps_subscribers d) i = Some s \<and> sb_sender s = c \<and> sb_socket_id s = k)"
  by (auto simp: who_def)

lemma remove_topic_member_ok:
  assumes inv: "indexed (map_of (ps_topics d)) ((reverse_of d)(x \<mapsto> (c, ix)))" and p: "ix t = Some p" and k: "keys_ok d"
  obtains d' where "remove_topic_member d t p = Some d'"
    "indexed (map_of (ps_topics d')) ((reverse_of d')(x \<mapsto> (c, ix(t := None))))" "keys_ok d'" "who d' = who d"
    "socket_id_map d' = socket_id_map d" "\<And>i t'. has_topic d' i t' = has_topic d i t'" "reverse_of d' x = reverse_of d x"
proof -
  from indexed_remove [OF inv p] obtain ms ms' where ms: "map_of (ps_topics d) t = Some ms" "swap_remove p ms = Some ms'"
    and last: "\<not> p < length ms' \<longrightarrow> indexed (if ms' = [] then (map_of (ps_topics d))(t := None) else (map_of (ps_topics d))(t \<mapsto> ms'))
      ((reverse_of d)(x \<mapsto> (c, ix(t := None))))"
    and move: "p < length ms' \<longrightarrow> (\<exists>y cy iy q. ms' ! p = (y, cy) \<and> y \<noteq> x \<and> reverse_of d y = Some (cy, iy) \<and> iy t = Some q \<and> ms' \<noteq> []
      \<and> indexed ((map_of (ps_topics d))(t \<mapsto> ms')) ((reverse_of d)(x \<mapsto> (c, ix(t := None)), y \<mapsto> (cy, iy(t \<mapsto> p)))))" by blast
  let ?T = "AList.update t ms' (ps_topics d)"
  show thesis
  proof (cases "p < length ms'")
    case False
    let ?d = "d\<lparr>ps_topics := if ms' = [] then AList.delete t ?T else ?T\<rparr>"
    have r: "remove_topic_member d t p = Some ?d" using ms False by (simp add: remove_topic_member_def Let_def)
    have "reverse_of ?d = reverse_of d" "who ?d = who d" "has_topic ?d = has_topic d"
      by (auto simp: reverse_of_def who_def has_topic_def fun_eq_iff)
    moreover have "map_of (ps_topics ?d) = (if ms' = [] then (map_of (ps_topics d))(t := None) else (map_of (ps_topics d))(t \<mapsto> ms'))" by simp
    moreover have "keys_ok ?d" using k by (simp add: keys_ok_def)
    ultimately show ?thesis using that [OF r] last False by simp
  next
    case True
    from move True obtain y cy iy q where y: "ms' ! p = (y, cy)" "y \<noteq> x" "reverse_of d y = Some (cy, iy)" "iy t = Some q" "ms' \<noteq> []"
      and ind: "indexed ((map_of (ps_topics d))(t \<mapsto> ms')) ((reverse_of d)(x \<mapsto> (c, ix(t := None)), y \<mapsto> (cy, iy(t \<mapsto> p))))" by blast
    then obtain s where s: "map_of (ps_subscribers d) y = Some s" "sb_sender s = cy" "map_of (sb_topics s) = iy"
      by (auto simp: reverse_of_def)
    let ?s = "s\<lparr>sb_topics := AList.update t p (sb_topics s)\<rparr>"
    let ?d = "d\<lparr>ps_topics := ?T, ps_subscribers := AList.update y ?s (ps_subscribers d)\<rparr>"
    have r: "remove_topic_member d t p = Some ?d" using ms True y s by (simp add: remove_topic_member_def Let_def)
    have rev: "reverse_of ?d = (reverse_of d)(y \<mapsto> (cy, iy(t \<mapsto> p)))" using s by (auto simp: reverse_of_def fun_eq_iff)
    have "who ?d = who d" using s by (auto simp: who_def fun_eq_iff)
    moreover have "has_topic ?d i t' = has_topic d i t'" for i t' using rev y(3,4) by (auto simp: has_topic_def)
    moreover have "keys_ok ?d" using k s by (auto simp: keys_ok_def)
    moreover have "(reverse_of ?d)(x \<mapsto> (c, ix(t := None))) = (reverse_of d)(x \<mapsto> (c, ix(t := None)), y \<mapsto> (cy, iy(t \<mapsto> p)))"
      using rev y(2) by (simp add: fun_upd_twist)
    ultimately show ?thesis using that [OF r] ind rev y(2) by simp
  qed
qed

lemma remove_memberships_ok:
  assumes "indexed (map_of (ps_topics d)) ((reverse_of d)(x \<mapsto> (c, map_of es)))" "distinct (map fst es)" "keys_ok d"
  shows "\<exists>d'. remove_memberships d es = Some d' \<and> indexed (map_of (ps_topics d')) ((reverse_of d')(x \<mapsto> (c, Map.empty)))
    \<and> keys_ok d' \<and> who d' = who d \<and> socket_id_map d' = socket_id_map d \<and> (\<forall>i t. has_topic d' i t = has_topic d i t)
    \<and> reverse_of d' x = reverse_of d x"
  using assms
proof (induction es arbitrary: d)
  case (Cons e es)
  obtain t p where e: "e = (t, p)" by force
  have "map_of (e # es) t = Some p" using e by simp
  from remove_topic_member_ok [OF Cons.prems(1) this Cons.prems(3)] obtain d1 where
    d1: "remove_topic_member d t p = Some d1" "indexed (map_of (ps_topics d1)) ((reverse_of d1)(x \<mapsto> (c, (map_of (e # es))(t := None))))"
    "keys_ok d1" "who d1 = who d" "socket_id_map d1 = socket_id_map d" "\<And>i t'. has_topic d1 i t' = has_topic d i t'"
    "reverse_of d1 x = reverse_of d x" by blast
  have "(map_of (e # es))(t := None) = map_of es" using e Cons.prems(2) by (auto simp: fun_eq_iff intro!: map_of_eq_None_iff [THEN iffD2, symmetric])
  with d1(2) have "indexed (map_of (ps_topics d1)) ((reverse_of d1)(x \<mapsto> (c, map_of es)))" by simp
  from Cons.IH [OF this _ d1(3)] Cons.prems(2) show ?case using d1 e by auto
qed simp

lemma entries_perm:
  assumes "mset (order (map fst m)) = mset (map fst m)" "distinct (map fst m)"
  shows "distinct (map fst (entries order m)) \<and> map_of (entries order m) = map_of m"
proof -
  have s: "set (order (map fst m)) = fst ` set m" using mset_eq_setD [OF assms(1)] by simp
  have "distinct (order (map fst m))" using assms mset_eq_imp_distinct_iff by blast
  moreover have "map_of (entries order m) k = map_of m k" for k
  proof (cases "map_of m k")
    case None
    then have "k \<notin> fst ` set m" by (simp add: map_of_eq_None_iff)
    then show ?thesis using None by (simp add: entries_def map_of_map_restrict s)
  next
    case (Some v)
    then have "k \<in> fst ` set m" by (force dest: map_of_SomeD)
    then show ?thesis using Some by (simp add: entries_def map_of_map_restrict s)
  qed
  ultimately show ?thesis by (auto simp: entries_def comp_def)
qed

lemma indexed_forget:
  assumes "indexed T (R(x \<mapsto> (c, Map.empty)))" "R x = None"
  shows "indexed T R"
proof (rule indexedI)
  show "T t \<noteq> Some []" for t using indexed_nonempty [OF assms(1)] .
  show "\<exists>ms. T t = Some ms \<and> p < length ms \<and> ms ! p = (i, c')" if "R i = Some (c', ix)" "ix t = Some p" for i c' ix t p
    using indexed_member [OF assms(1), of i c' ix t p] that assms(2) by (cases "i = x") auto
  show "\<exists>ix. R i = Some (c', ix) \<and> ix t = Some p" if "T t = Some ms" "p < length ms" "ms ! p = (i, c')" for t ms p i c'
    using indexed_position [OF assms(1) that] by (auto split: if_splits)
qed

section \<open>The invariant\<close>

text \<open>\<open>n\<close> identifiers have been handed out, the last one before the counter comes round.\<close>

definition data_ok :: "'c pubsub_data \<Rightarrow> bool" where
  "data_ok d \<longleftrightarrow> keys_ok d \<and> indexed (map_of (ps_topics d)) (reverse_of d)
     \<and> (\<forall>k i. map_of (socket_id_map d) k = Some i \<longleftrightarrow> (\<exists>c. who d i = Some (c, Some k)))"

definition pubsub_ok :: "nat \<Rightarrow> 'c pubsub \<Rightarrow> bool" where
  "pubsub_ok n p \<longleftrightarrow> data_ok (ps_state p) \<and> next_subscriber_id p = of_nat (Suc n)
     \<and> (\<forall>i. who (ps_state p) i \<noteq> None \<longrightarrow> (\<exists>j\<le>n. i = of_nat j))"

lemma data_ok_socket: "data_ok d \<Longrightarrow> map_of (socket_id_map d) k = Some i \<longleftrightarrow> (\<exists>c. who d i = Some (c, Some k))"
  unfolding data_ok_def by blast

lemma remove_subscriber_from_ok:
  assumes "data_ok d" "\<And>xs. mset (order xs) = mset xs"
  obtains c d' where "remove_subscriber_from order d i = Some (c, d')" "data_ok d'" "c \<noteq> None \<longleftrightarrow> who d i \<noteq> None"
    "who d' = (who d)(i := None)" "\<And>j t. has_topic d' j t \<longleftrightarrow> j \<noteq> i \<and> has_topic d j t"
proof (cases "map_of (ps_subscribers d) i")
  case None
  then have "who d i = None" "\<not> has_topic d i t" for t by (auto simp: who_def has_topic_def reverse_of_def)
  moreover from None have "remove_subscriber_from order d i = Some (None, d)" by (simp add: remove_subscriber_from_def)
  ultimately show ?thesis using that assms(1) by (metis fun_upd_triv)
next
  case (Some s)
  have k: "keys_ok d" and ind: "indexed (map_of (ps_topics d)) (reverse_of d)" using assms(1) by (auto simp: data_ok_def)
  let ?d1 = "d\<lparr>ps_subscribers := AList.delete i (ps_subscribers d)\<rparr>"
  let ?d2 = "case sb_socket_id s of None \<Rightarrow> ?d1 | Some k \<Rightarrow> ?d1\<lparr>socket_id_map := AList.delete k (socket_id_map d)\<rparr>"
  have w: "who d i = Some (sb_sender s, sb_socket_id s)" using Some by (simp add: who_def)
  have rev: "reverse_of ?d2 = (reverse_of d)(i := None)" "who ?d2 = (who d)(i := None)" "ps_topics ?d2 = ps_topics d" "keys_ok ?d2"
    using k by (auto simp: reverse_of_def who_def keys_ok_def fun_eq_iff split: option.split)
  have e: "distinct (map fst (entries order (sb_topics s)))" "map_of (entries order (sb_topics s)) = map_of (sb_topics s)"
    using entries_perm [where order = order and m = "sb_topics s", OF assms(2)] k Some by (auto simp: keys_ok_def)
  have "(reverse_of ?d2)(i \<mapsto> (sb_sender s, map_of (entries order (sb_topics s)))) = reverse_of d"
    using rev(1) e(2) Some by (auto simp: fun_eq_iff reverse_of_def)
  then have "indexed (map_of (ps_topics ?d2)) ((reverse_of ?d2)(i \<mapsto> (sb_sender s, map_of (entries order (sb_topics s)))))"
    using ind rev(3) by simp
  from remove_memberships_ok [OF this e(1) rev(4)] obtain d' where
    d': "remove_memberships ?d2 (entries order (sb_topics s)) = Some d'"
    "indexed (map_of (ps_topics d')) ((reverse_of d')(i \<mapsto> (sb_sender s, Map.empty)))" "keys_ok d'" "who d' = who ?d2"
    "socket_id_map d' = socket_id_map ?d2" "\<forall>j t. has_topic d' j t = has_topic ?d2 j t" "reverse_of d' i = reverse_of ?d2 i" by blast
  have r: "remove_subscriber_from order d i = Some (Some (sb_sender s), d')"
    using Some d'(1) data_ok_socket [OF assms(1)] w
    by (auto simp: remove_subscriber_from_def Let_def split: option.splits)
  have "indexed (map_of (ps_topics d')) (reverse_of d')" using indexed_forget [OF d'(2)] d'(7) rev(1) by simp
  moreover have "map_of (socket_id_map d') k = Some j \<longleftrightarrow> (\<exists>c. who d' j = Some (c, Some k))" for k j
  proof -
    have "map_of (socket_id_map d) k = Some i \<longleftrightarrow> sb_socket_id s = Some k" using data_ok_socket [OF assms(1), of k i] w by auto
    then show ?thesis using data_ok_socket [OF assms(1), of k j] d'(4,5) rev(2) by (auto split: option.splits)
  qed
  ultimately have "data_ok d'" using d'(3) by (simp add: data_ok_def)
  moreover have "has_topic d' j t \<longleftrightarrow> j \<noteq> i \<and> has_topic d j t" for j t using d'(6) rev(1) by (auto simp: has_topic_def)
  ultimately show ?thesis using that [OF r] d'(4) rev(2) w by simp
qed

lemma subscribe_in_ok:
  assumes "data_ok d" "subscribe_in d i t = (r, d')"
  shows "data_ok d' \<and> who d' = who d \<and> (r \<longleftrightarrow> who d i \<noteq> None \<and> \<not> has_topic d i t)
    \<and> (\<forall>j t'. has_topic d' j t' \<longleftrightarrow> has_topic d j t' \<or> who d i \<noteq> None \<and> j = i \<and> t' = t)"
proof (cases "map_of (ps_subscribers d) i")
  case None
  then show ?thesis using assms by (auto simp: subscribe_in_def who_def)
next
  case (Some s)
  show ?thesis
  proof (cases "map_of (sb_topics s) t")
    case (Some p)
    then have "has_topic d i t" using \<open>map_of (ps_subscribers d) i = Some s\<close> by (simp add: has_topic_def reverse_of_def)
    then show ?thesis using assms Some \<open>map_of (ps_subscribers d) i = Some s\<close> by (auto simp: subscribe_in_def)
  next
    case None
    let ?ms = "case map_of (ps_topics d) t of None \<Rightarrow> [] | Some ms \<Rightarrow> ms"
    have d': "r" "d' = d\<lparr>ps_topics := AList.update t (?ms @ [(i, sb_sender s)]) (ps_topics d),
        ps_subscribers := AList.update i (s\<lparr>sb_topics := AList.update t (length ?ms) (sb_topics s)\<rparr>) (ps_subscribers d)\<rparr>"
      using assms(2) Some None by (auto simp: subscribe_in_def Let_def)
    have ri: "reverse_of d i = Some (sb_sender s, map_of (sb_topics s))" using Some by (simp add: reverse_of_def)
    have rev: "reverse_of d' = (reverse_of d)(i \<mapsto> (sb_sender s, (map_of (sb_topics s))(t \<mapsto> length ?ms)))"
      using d'(2) by (auto simp: reverse_of_def fun_eq_iff)
    have w: "who d' = who d" "who d i \<noteq> None" using d'(2) Some by (auto simp: who_def fun_eq_iff)
    have "indexed (map_of (ps_topics d')) (reverse_of d')"
      using indexed_add [where T = "map_of (ps_topics d)" and R = "reverse_of d" and i = i and c = "sb_sender s" and ix = "map_of (sb_topics s)" and t = t, OF _ ri None refl] assms(1) rev d'(2) by (simp add: data_ok_def)
    moreover have "keys_ok d'" using assms(1) d'(2) Some by (auto simp: data_ok_def keys_ok_def)
    ultimately have "data_ok d'" using assms(1) d'(2) w(1) by (simp add: data_ok_def)
    moreover have "has_topic d' j t' \<longleftrightarrow> has_topic d j t' \<or> j = i \<and> t' = t" for j t' using rev ri by (auto simp: has_topic_def)
    moreover have "\<not> has_topic d i t" using ri None by (simp add: has_topic_def)
    ultimately show ?thesis using w d'(1) by simp
  qed
qed

lemma unsubscribe_in_ok:
  assumes "data_ok d"
  obtains r d' where "unsubscribe_in d i t = Some (r, d')" "data_ok d'" "who d' = who d" "r \<longleftrightarrow> has_topic d i t"
    "\<And>j t'. has_topic d' j t' \<longleftrightarrow> has_topic d j t' \<and> \<not> (j = i \<and> t' = t)"
proof (cases "\<exists>s p. map_of (ps_subscribers d) i = Some s \<and> map_of (sb_topics s) t = Some p")
  case False
  then have n: "\<not> has_topic d i t" by (auto simp: has_topic_def reverse_of_def)
  moreover have "unsubscribe_in d i t = Some (False, d)" using False by (auto simp: unsubscribe_in_def split: option.split)
  ultimately show ?thesis using that [of False d] assms by auto
next
  case True
  then obtain s p where s: "map_of (ps_subscribers d) i = Some s" "map_of (sb_topics s) t = Some p" by blast
  let ?s = "s\<lparr>sb_topics := AList.delete t (sb_topics s)\<rparr>"
  let ?d = "d\<lparr>ps_subscribers := AList.update i ?s (ps_subscribers d)\<rparr>"
  have rev: "reverse_of ?d = (reverse_of d)(i \<mapsto> (sb_sender s, (map_of (sb_topics s))(t := None)))"
    by (auto simp: reverse_of_def fun_eq_iff)
  have ri: "reverse_of d i = Some (sb_sender s, map_of (sb_topics s))" using s by (simp add: reverse_of_def)
  have "(reverse_of ?d)(i \<mapsto> (sb_sender s, map_of (sb_topics s))) = reverse_of d" using rev ri by auto
  then have ind: "indexed (map_of (ps_topics ?d)) ((reverse_of ?d)(i \<mapsto> (sb_sender s, map_of (sb_topics s))))"
    using assms by (simp add: data_ok_def)
  have k: "keys_ok ?d" using assms s by (auto simp: data_ok_def keys_ok_def)
  have w: "who ?d = who d" using s by (auto simp: who_def fun_eq_iff)
  from remove_topic_member_ok [OF ind s(2) k] obtain d' where
    d': "remove_topic_member ?d t p = Some d'"
    "indexed (map_of (ps_topics d')) ((reverse_of d')(i \<mapsto> (sb_sender s, (map_of (sb_topics s))(t := None))))" "keys_ok d'"
    "who d' = who ?d" "socket_id_map d' = socket_id_map ?d" "\<And>j t'. has_topic d' j t' = has_topic ?d j t'"
    "reverse_of d' i = reverse_of ?d i" by blast
  have r: "unsubscribe_in d i t = Some (True, d')" using s d'(1) by (simp add: unsubscribe_in_def Let_def)
  have "(reverse_of d')(i \<mapsto> (sb_sender s, (map_of (sb_topics s))(t := None))) = reverse_of d'" using d'(7) rev by auto
  then have "data_ok d'" using d'(2,3,4,5) w assms by (simp add: data_ok_def)
  moreover have "has_topic d i t" using ri s(2) by (simp add: has_topic_def)
  moreover have "has_topic d' j t' \<longleftrightarrow> has_topic d j t' \<and> \<not> (j = i \<and> t' = t)" for j t' using d'(6) rev ri by (auto simp: has_topic_def)
  ultimately show ?thesis using that [OF r] d'(4) w by simp
qed

lemma insert_subscriber_ok:
  assumes "data_ok d" "who d i = None" "\<And>k. socket = Some k \<Longrightarrow> map_of (socket_id_map d) k = None"
  obtains d' where "insert_subscriber d i c socket = Some d'" "data_ok d'" "who d' = (who d)(i \<mapsto> (c, socket))" "has_topic d' = has_topic d"
proof -
  have n: "map_of (ps_subscribers d) i = None" using assms(2) by (simp add: who_def)
  let ?d1 = "d\<lparr>ps_subscribers := AList.update i \<lparr>sb_sender = c, sb_topics = [], sb_socket_id = socket\<rparr> (ps_subscribers d)\<rparr>"
  let ?d' = "case socket of None \<Rightarrow> ?d1 | Some k \<Rightarrow> ?d1\<lparr>socket_id_map := AList.update k i (socket_id_map d)\<rparr>"
  have r: "insert_subscriber d i c socket = Some ?d'" using n assms(3) by (auto simp: insert_subscriber_def Let_def split: option.split)
  have rev: "reverse_of ?d' = (reverse_of d)(i \<mapsto> (c, Map.empty))" "who ?d' = (who d)(i \<mapsto> (c, socket))" "ps_topics ?d' = ps_topics d" "keys_ok ?d'"
    using assms(1) by (auto simp: reverse_of_def who_def keys_ok_def data_ok_def fun_eq_iff split: option.split)
  have ri: "reverse_of d i = None" using n by (simp add: reverse_of_def)
  have ind: "indexed (map_of (ps_topics d)) (reverse_of d)" using assms(1) by (simp add: data_ok_def)
  have "indexed (map_of (ps_topics ?d')) (reverse_of ?d')"
  proof (rule indexedI)
    show "map_of (ps_topics ?d') t \<noteq> Some []" for t using indexed_nonempty [OF ind] rev(3) by simp
    show "\<exists>ms. map_of (ps_topics ?d') t = Some ms \<and> p < length ms \<and> ms ! p = (j, c')"
      if "reverse_of ?d' j = Some (c', ix)" "ix t = Some p" for j c' ix t p
      using indexed_member [OF ind, of j c' ix t p] that rev by (cases "j = i") auto
    show "\<exists>ix. reverse_of ?d' j = Some (c', ix) \<and> ix t = Some p"
      if "map_of (ps_topics ?d') t = Some ms" "p < length ms" "ms ! p = (j, c')" for t ms p j c'
      using indexed_position [OF ind _ that(2,3)] that(1) rev ri by (cases "j = i") auto
  qed
  moreover have "map_of (socket_id_map ?d') k = Some j \<longleftrightarrow> (\<exists>c. who ?d' j = Some (c, Some k))" for k j
    using data_ok_socket [OF assms(1), of k j] data_ok_socket [OF assms(1), of k i] assms(2,3) rev(2) by (auto split: option.splits)
  ultimately have "data_ok ?d'" using rev(4) by (simp add: data_ok_def)
  moreover have "has_topic ?d' j t = has_topic d j t" for j t using rev(1) ri by (cases "j = i") (auto simp: has_topic_def)
  ultimately show ?thesis using that [OF r] rev(2) by (simp add: fun_eq_iff)
qed

end
