(* ===== verification/WS_PubSub_Refine.thy ===== *)
theory WS_PubSub_Refine
  imports WS_PubSub_Index
begin

text \<open>
  Publish and subscribe against a registry without indexes: \<open>reg_step\<close> is what a call promises, \<open>registry_of\<close>
  forgets the indexes, and every sequence of calls is a run of the registry (\<open>pubsub_run_refines\<close>).
\<close>

section \<open>The recipients of a publication\<close>

definition recipients :: "'c pubsub_data \<Rightarrow> string \<Rightarrow> subscriber_id option \<Rightarrow> 'c list" where
  "recipients d t x = (case map_of (ps_topics d) t of None \<Rightarrow> [] | Some ms \<Rightarrow> map snd (filter (\<lambda>(i, _). Some i \<noteq> x) ms))"

lemma members_distinct:
  assumes "indexed T R" "T t = Some ms"
  shows "distinct (map fst ms)"
  unfolding distinct_conv_nth
  using indexed_unique [OF assms] by (metis length_map nth_map prod.collapse)

lemma topic_members:
  assumes "data_ok d"
  shows "(case map_of (ps_topics d) t of None \<Rightarrow> {} | Some ms \<Rightarrow> fst ` set ms) = {i. has_topic d i t}"
proof -
  have ind: "indexed (map_of (ps_topics d)) (reverse_of d)" using assms by (simp add: data_ok_def)
  show ?thesis
  proof (cases "map_of (ps_topics d) t")
    case None
    have "\<not> has_topic d i t" for i
    proof
      assume "has_topic d i t"
      then obtain c ix p where "reverse_of d i = Some (c, ix)" "ix t = Some p" unfolding has_topic_def by blast
      from indexed_member [OF ind this] None show False by simp
    qed
    then show ?thesis using None by simp
  next
    case (Some ms)
    have "i \<in> fst ` set ms \<longleftrightarrow> (\<exists>c. (i, c) \<in> set ms)" for i by (auto intro: rev_image_eqI)
    then have f1: "i \<in> fst ` set ms \<longleftrightarrow> (\<exists>p c. p < length ms \<and> ms ! p = (i, c))" for i
      by (simp only: in_set_conv_nth) metis
    have f2: "has_topic d i t \<longleftrightarrow> (\<exists>p c. p < length ms \<and> ms ! p = (i, c))" for i
    proof
      assume "has_topic d i t"
      then obtain c ix p where "reverse_of d i = Some (c, ix)" "ix t = Some p" unfolding has_topic_def by blast
      from indexed_member [OF ind this] Some show "\<exists>p c. p < length ms \<and> ms ! p = (i, c)" by auto
    next
      assume "\<exists>p c. p < length ms \<and> ms ! p = (i, c)"
      then obtain p c where "p < length ms" "ms ! p = (i, c)" by blast
      from indexed_position [OF ind Some this] show "has_topic d i t" unfolding has_topic_def by blast
    qed
    have "fst ` set ms = {i. has_topic d i t}" by (simp only: set_eq_iff mem_Collect_eq f1 f2) simp
    then show ?thesis using Some by simp
  qed
qed

lemma recipients_mset:
  assumes "data_ok d"
  shows "mset (recipients d t x) = image_mset (\<lambda>i. fst (the (who d i))) (mset_set {i. has_topic d i t \<and> x \<noteq> Some i})"
proof (cases "map_of (ps_topics d) t")
  case None
  then have "{i. has_topic d i t} = {}" using topic_members [OF assms, of t] by simp
  then show ?thesis using None by (simp add: recipients_def)
next
  case (Some ms)
  have ind: "indexed (map_of (ps_topics d)) (reverse_of d)" using assms by (simp add: data_ok_def)
  let ?f = "filter (\<lambda>(i, _). Some i \<noteq> x) ms"
  have "snd m = fst (the (who d (fst m)))" if m: "m \<in> set ms" for m
  proof -
    obtain q where "q < length ms" "ms ! q = (fst m, snd m)" using m by (auto simp: in_set_conv_nth)
    from indexed_position [OF ind Some this] show ?thesis by (auto simp: reverse_of_def who_def)
  qed
  then have "map snd ?f = map (\<lambda>i. fst (the (who d i))) (map fst ?f)" by auto
  then have "mset (recipients d t x) = image_mset (\<lambda>i. fst (the (who d i))) (mset (map fst ?f))"
    using Some by (simp only: recipients_def option.case mset_map)
  moreover have "distinct (map fst ?f)" using members_distinct [OF ind Some] by (simp add: distinct_map_filter)
  from mset_set_set [OF this] have "mset (map fst ?f) = mset_set (set (map fst ?f))" by simp
  moreover have "set (map fst ?f) = {i. i \<in> fst ` set ms \<and> x \<noteq> Some i}" by force
  then have "set (map fst ?f) = {i. has_topic d i t \<and> x \<noteq> Some i}" using topic_members [OF assms, of t] Some by simp
  ultimately show ?thesis by simp
qed

lemma is_member_eq:
  assumes "data_ok d" "map_of (ps_topics d) t = Some ms"
  shows "(case ms of [(m, _)] \<Rightarrow> m = i
     | _ \<Rightarrow> (case map_of (ps_subscribers d) i of None \<Rightarrow> False | Some s \<Rightarrow> map_of (sb_topics s) t \<noteq> None)) \<longleftrightarrow> i \<in> fst ` set ms"
proof -
  have h: "has_topic d i t \<longleftrightarrow> i \<in> fst ` set ms" using topic_members [OF assms(1), of t] assms(2) by auto
  have "has_topic d i t \<longleftrightarrow> (case map_of (ps_subscribers d) i of None \<Rightarrow> False | Some s \<Rightarrow> map_of (sb_topics s) t \<noteq> None)"
    by (auto simp: has_topic_def reverse_of_def split: option.splits)
  then show ?thesis using h by (auto split: list.split prod.split)
qed

lemma send_one: "send_to_recipients send p (Some (One c)) m w = send_to_recipients send p (Some (Many [c])) m w"
  by (simp add: send_to_recipients_def split: prod.split)

lemma recipient_snapshot_ok:
  assumes "data_ok d"
  shows "\<exists>r. recipient_snapshot d t x = Some r \<and> (\<forall>m w. send_to_recipients send p r m w =
     (if map_of (ps_topics d) t = None then (NoSubscribers, p, w) else send_to_recipients send p (Some (Many (recipients d t x))) m w))"
proof (cases "map_of (ps_topics d) t")
  case None
  then show ?thesis by (simp add: recipient_snapshot_def send_to_recipients_def)
next
  case (Some ms)
  define x' where "x' = (case x of Some i \<Rightarrow> if i \<in> fst ` set ms then Some i else None | None \<Rightarrow> None)"
  define e :: nat where "e = (if x' \<noteq> None then 1 else 0)"
  let ?cs = "map snd (filter (\<lambda>(i, _). Some i \<noteq> x') ms)"
  have dist: "distinct (map fst ms)" using members_distinct [where T = "map_of (ps_topics d)", OF _ Some] assms by (auto simp: data_ok_def)
  have ne: "ms \<noteq> []" using indexed_nonempty [of _ "reverse_of d" t] Some assms by (auto simp: data_ok_def)
  have "filter (\<lambda>(i, _). Some i \<noteq> x) ms = filter (\<lambda>(i, _). Some i \<noteq> x') ms"
    unfolding x'_def by (rule filter_cong [OF refl]) (cases x, auto intro: rev_image_eqI)
  then have cs: "recipients d t x = ?cs" using Some by (simp add: recipients_def)
  have snap: "recipient_snapshot d t x =
      (if length ms < e then None
       else if length ms - e = 1 then
         do {
           first \<leftarrow> member_index 0 ms;
           (_, sender) \<leftarrow> (if Some (fst first) = x' then member_index 1 ms else Some first);
           Some (Some (One sender))
         }
       else Some (Some (Many ?cs)))"
    unfolding recipient_snapshot_def Some option.case is_member_eq [OF assms Some] Let_def x'_def e_def ..
  have le: "e \<le> length ms" using ne by (cases ms) (auto simp: e_def)
  have mem: "i \<in> fst ` set ms" if "x' = Some i" for i using that by (auto simp: x'_def split: option.splits if_splits)
  show ?thesis
  proof (cases "length ms - e = 1")
    case True
    have "\<exists>c. recipient_snapshot d t x = Some (Some (One c)) \<and> ?cs = [c]"
    proof (cases x')
      case None
      then have "length ms = Suc 0" using True by (simp add: e_def)
      then obtain a where a: "ms = [a]" by (auto simp: length_Suc_conv)
      have "recipient_snapshot d t x = Some (Some (One (snd a)))"
        unfolding snap a None e_def by (simp add: member_index_def split_beta)
      moreover have "?cs = [snd a]" unfolding a None by (simp add: split_beta)
      ultimately show ?thesis by (intro exI conjI)
    next
      case (Some i)
      then have "length ms = Suc (Suc 0)" using True by (simp add: e_def)
      then obtain a b where ab: "ms = [a, b]" by (auto simp: length_Suc_conv)
      have ne: "fst a \<noteq> fst b" "i = fst a \<or> i = fst b" using dist mem [OF Some] ab by auto
      have "recipient_snapshot d t x = Some (Some (One (snd (if fst a = i then b else a))))"
        unfolding snap ab Some e_def by (simp add: member_index_def split_beta)
      moreover have "?cs = [snd (if fst a = i then b else a)]" unfolding ab Some using ne by (auto simp: split_beta)
      ultimately show ?thesis by (intro exI conjI)
    qed
    then obtain c where c: "recipient_snapshot d t x = Some (Some (One c))" "?cs = [c]" by (elim exE conjE)
    then show ?thesis unfolding c(1) cs c(2) Some by (simp add: send_one)
  next
    case False
    then have "recipient_snapshot d t x = Some (Some (Many ?cs))" using snap le by simp
    then show ?thesis unfolding cs Some by simp
  qed
qed

section \<open>Sequences of calls\<close>

datatype 'c ps_op =
    Create 'c
  | CreateWithId string 'c
  | CreateOrGet string 'c
  | Remove subscriber_id
  | RemoveSocket string
  | Subscribe subscriber_id string
  | Unsubscribe subscriber_id string
  | SubscribeSocket string string
  | UnsubscribeSocket string string
  | Publish string message
  | PublishExcluding subscriber_id string message
  | PublishExcludingSocket string string message

datatype ps_answer = Created subscriber_id | Existing subscriber_id | InUse | Done | Flag bool | Sent publish_result

fun ps_step :: "(string list \<Rightarrow> string list) \<Rightarrow> ('c \<Rightarrow> message \<Rightarrow> 'w \<Rightarrow> bool \<times> 'w) \<Rightarrow> 'c pubsub \<Rightarrow> 'w \<Rightarrow> 'c ps_op
    \<Rightarrow> (ps_answer \<times> 'c pubsub \<times> 'w) option" where
  "ps_step order send p w (Create c) = map_option (\<lambda>(i, p). (Created i, p, w)) (create_subscriber p c)"
| "ps_step order send p w (CreateWithId k c) =
     map_option (\<lambda>(r, p). (case r of Ok i \<Rightarrow> Created i | _ \<Rightarrow> InUse, p, w)) (create_subscriber_with_id p k c)"
| "ps_step order send p w (CreateOrGet k c) =
     map_option (\<lambda>((i, new), p). (if new then Created i else Existing i, p, w)) (create_subscriber_with_id_or_get p k c)"
| "ps_step order send p w (Remove i) = map_option (\<lambda>p. (Done, p, w)) (remove_subscriber order p i)"
| "ps_step order send p w (RemoveSocket k) = map_option (\<lambda>(r, p). (Flag r, p, w)) (remove_subscriber_by_socket_id order p k)"
| "ps_step order send p w (Subscribe i t) = (case subscribe p i t of (r, p) \<Rightarrow> Some (Flag r, p, w))"
| "ps_step order send p w (Unsubscribe i t) = map_option (\<lambda>(r, p). (Flag r, p, w)) (unsubscribe p i t)"
| "ps_step order send p w (SubscribeSocket k t) = (case subscribe_by_socket_id p k t of (r, p) \<Rightarrow> Some (Flag r, p, w))"
| "ps_step order send p w (UnsubscribeSocket k t) = map_option (\<lambda>(r, p). (Flag r, p, w)) (unsubscribe_by_socket_id p k t)"
| "ps_step order send p w (Publish t m) = map_option (\<lambda>(r, p, w). (Sent r, p, w)) (publish send p t m w)"
| "ps_step order send p w (PublishExcluding i t m) = map_option (\<lambda>(r, p, w). (Sent r, p, w)) (publish_excluding send p i t m w)"
| "ps_step order send p w (PublishExcludingSocket k t m) =
     map_option (\<lambda>(r, p, w). (Sent r, p, w)) (publish_excluding_socket_id send p k t m w)"

fun ps_run :: "(string list \<Rightarrow> string list) \<Rightarrow> ('c \<Rightarrow> message \<Rightarrow> 'w \<Rightarrow> bool \<times> 'w) \<Rightarrow> 'c pubsub \<Rightarrow> 'w \<Rightarrow> 'c ps_op list
    \<Rightarrow> (ps_answer list \<times> 'c pubsub \<times> 'w) option" where
  "ps_run order send p w [] = Some ([], p, w)"
| "ps_run order send p w (op # ops) =
     do { (a, p, w) \<leftarrow> ps_step order send p w op; (as, p, w) \<leftarrow> ps_run order send p w ops; Some (a # as, p, w) }"

section \<open>What the registry promises\<close>

text \<open>
  A registry without indexes: the channel and the socket identifier of each subscriber, the set of
  subscriptions, the next identifier and the number of publications. A publication sends to every
  subscriber of the topic once, in some order.
\<close>

record 'c registry =
  reg_who :: "subscriber_id \<rightharpoonup> 'c \<times> string option"
  reg_subs :: "(subscriber_id \<times> string) set"
  reg_next :: subscriber_id
  reg_published :: u64

definition holds :: "'c registry \<Rightarrow> string \<Rightarrow> subscriber_id \<Rightarrow> bool" where
  "holds G k i \<longleftrightarrow> (\<exists>c. reg_who G i = Some (c, Some k))"

definition reg_add :: "'c registry \<Rightarrow> 'c \<Rightarrow> string option \<Rightarrow> 'c registry" where
  "reg_add G c k = G\<lparr>reg_who := (reg_who G)(reg_next G \<mapsto> (c, k)), reg_next := reg_next G + 1\<rparr>"

definition reg_remove :: "'c registry \<Rightarrow> subscriber_id \<Rightarrow> 'c registry" where
  "reg_remove G i = G\<lparr>reg_who := (reg_who G)(i := None), reg_subs := {(j, t) \<in> reg_subs G. j \<noteq> i}\<rparr>"

definition reg_subscribe :: "'c registry \<Rightarrow> subscriber_id \<Rightarrow> string \<Rightarrow> ps_answer \<Rightarrow> 'c registry \<Rightarrow> bool" where
  "reg_subscribe G i t a G' \<longleftrightarrow>
     a = Flag (reg_who G i \<noteq> None \<and> (i, t) \<notin> reg_subs G)
     \<and> G' = (if reg_who G i \<noteq> None then G\<lparr>reg_subs := insert (i, t) (reg_subs G)\<rparr> else G)"

definition reg_unsubscribe :: "'c registry \<Rightarrow> subscriber_id \<Rightarrow> string \<Rightarrow> ps_answer \<Rightarrow> 'c registry \<Rightarrow> bool" where
  "reg_unsubscribe G i t a G' \<longleftrightarrow> a = Flag ((i, t) \<in> reg_subs G) \<and> G' = G\<lparr>reg_subs := reg_subs G - {(i, t)}\<rparr>"

definition reg_publish ::
  "('c \<Rightarrow> message \<Rightarrow> 'w \<Rightarrow> bool \<times> 'w) \<Rightarrow> 'c registry \<Rightarrow> 'w \<Rightarrow> string \<Rightarrow> subscriber_id option \<Rightarrow> message
     \<Rightarrow> ps_answer \<Rightarrow> 'c registry \<Rightarrow> 'w \<Rightarrow> bool" where
  "reg_publish send G w t x m a G' w' \<longleftrightarrow>
     (\<exists>cs n. mset cs = image_mset (\<lambda>i. fst (the (reg_who G i))) (mset_set {i. (i, t) \<in> reg_subs G \<and> x \<noteq> Some i})
        \<and> send_many send cs m w = (n, w') \<and> a = Sent (if n > 0 then Published n else NoSubscribers)
        \<and> G' = (if \<exists>i. (i, t) \<in> reg_subs G then G\<lparr>reg_published := reg_published G + 1\<rparr> else G))"

fun reg_step :: "('c \<Rightarrow> message \<Rightarrow> 'w \<Rightarrow> bool \<times> 'w) \<Rightarrow> 'c registry \<Rightarrow> 'w \<Rightarrow> 'c ps_op \<Rightarrow> ps_answer \<Rightarrow> 'c registry \<Rightarrow> 'w \<Rightarrow> bool" where
  "reg_step send G w (Create c) a G' w' \<longleftrightarrow>
     reg_who G (reg_next G) = None \<and> a = Created (reg_next G) \<and> G' = reg_add G c None \<and> w' = w"
| "reg_step send G w (CreateWithId k c) a G' w' \<longleftrightarrow>
     (if \<exists>i. holds G k i then a = InUse \<and> G' = G
      else reg_who G (reg_next G) = None \<and> a = Created (reg_next G) \<and> G' = reg_add G c (Some k)) \<and> w' = w"
| "reg_step send G w (CreateOrGet k c) a G' w' \<longleftrightarrow>
     (if \<exists>i. holds G k i then (\<exists>i. holds G k i \<and> a = Existing i) \<and> G' = G
      else reg_who G (reg_next G) = None \<and> a = Created (reg_next G) \<and> G' = reg_add G c (Some k)) \<and> w' = w"
| "reg_step send G w (Remove i) a G' w' \<longleftrightarrow> a = Done \<and> G' = reg_remove G i \<and> w' = w"
| "reg_step send G w (RemoveSocket k) a G' w' \<longleftrightarrow>
     (if \<exists>i. holds G k i then a = Flag True \<and> (\<exists>i. holds G k i \<and> G' = reg_remove G i) else a = Flag False \<and> G' = G) \<and> w' = w"
| "reg_step send G w (Subscribe i t) a G' w' \<longleftrightarrow> reg_subscribe G i t a G' \<and> w' = w"
| "reg_step send G w (Unsubscribe i t) a G' w' \<longleftrightarrow> reg_unsubscribe G i t a G' \<and> w' = w"
| "reg_step send G w (SubscribeSocket k t) a G' w' \<longleftrightarrow>
     (if \<exists>i. holds G k i then \<exists>i. holds G k i \<and> reg_subscribe G i t a G' else a = Flag False \<and> G' = G) \<and> w' = w"
| "reg_step send G w (UnsubscribeSocket k t) a G' w' \<longleftrightarrow>
     (if \<exists>i. holds G k i then \<exists>i. holds G k i \<and> reg_unsubscribe G i t a G' else a = Flag False \<and> G' = G) \<and> w' = w"
| "reg_step send G w (Publish t m) a G' w' \<longleftrightarrow> reg_publish send G w t None m a G' w'"
| "reg_step send G w (PublishExcluding i t m) a G' w' \<longleftrightarrow> reg_publish send G w t (Some i) m a G' w'"
| "reg_step send G w (PublishExcludingSocket k t m) a G' w' \<longleftrightarrow>
     (if \<exists>i. holds G k i then \<exists>i. holds G k i \<and> reg_publish send G w t (Some i) m a G' w' else reg_publish send G w t None m a G' w')"

fun reg_run :: "('c \<Rightarrow> message \<Rightarrow> 'w \<Rightarrow> bool \<times> 'w) \<Rightarrow> 'c registry \<Rightarrow> 'w \<Rightarrow> 'c ps_op list \<Rightarrow> ps_answer list \<Rightarrow> 'c registry \<Rightarrow> 'w \<Rightarrow> bool" where
  "reg_run send G w [] as G' w' \<longleftrightarrow> as = [] \<and> G' = G \<and> w' = w"
| "reg_run send G w (op # ops) as G' w' \<longleftrightarrow>
     (\<exists>a as' G1 w1. as = a # as' \<and> reg_step send G w op a G1 w1 \<and> reg_run send G1 w1 ops as' G' w')"

definition registry_of :: "'c pubsub \<Rightarrow> 'c registry" where
  "registry_of p =
     \<lparr>reg_who = who (ps_state p), reg_subs = {(i, t). has_topic (ps_state p) i t}, reg_next = next_subscriber_id p,
      reg_published = messages_published p\<rparr>"

lemma registry_of_simps [simp]:
  "reg_who (registry_of p) = who (ps_state p)"
  "(i, t) \<in> reg_subs (registry_of p) \<longleftrightarrow> has_topic (ps_state p) i t"
  "reg_next (registry_of p) = next_subscriber_id p"
  "reg_published (registry_of p) = messages_published p"
  by (simp_all add: registry_of_def)

lemma registry_eqI:
  "who (ps_state p) = reg_who G \<Longrightarrow> (\<And>i t. has_topic (ps_state p) i t \<longleftrightarrow> (i, t) \<in> reg_subs G) \<Longrightarrow>
   next_subscriber_id p = reg_next G \<Longrightarrow> messages_published p = reg_published G \<Longrightarrow> registry_of p = G"
  by (auto simp: registry_of_def)

lemma holds_socket: "data_ok (ps_state p) \<Longrightarrow> holds (registry_of p) k i \<longleftrightarrow> map_of (socket_id_map (ps_state p)) k = Some i"
  by (simp add: holds_def data_ok_socket)

section \<open>The state implements the registry\<close>

lemma pubsub_okI:
  assumes "data_ok (ps_state p)" "next_subscriber_id p = of_nat (Suc n)" "\<And>i. who (ps_state p) i \<noteq> None \<Longrightarrow> \<exists>j\<le>n. i = of_nat j"
  shows "pubsub_ok n p"
  using assms unfolding pubsub_ok_def by blast

lemma pubsub_ok_fresh:
  assumes "pubsub_ok n p" "Suc n < 2 ^ 64"
  shows "who (ps_state p) (next_subscriber_id p) = None"
proof (rule ccontr)
  assume "who (ps_state p) (next_subscriber_id p) \<noteq> None"
  then obtain j where j: "j \<le> n" "next_subscriber_id p = of_nat j" "next_subscriber_id p = of_nat (Suc n)"
    using assms(1) unfolding pubsub_ok_def by blast
  then have "unat (of_nat j :: u64) = unat (of_nat (Suc n) :: u64)" by simp
  then show False using j(1) assms(2) by (simp only: unsigned_of_nat take_bit_nat_eq_self) (simp add: take_bit_nat_eq_self)
qed

lemma create_ok:
  assumes "pubsub_ok n p" "Suc n < 2 ^ 64" "\<And>k. socket = Some k \<Longrightarrow> map_of (socket_id_map (ps_state p)) k = None"
  obtains d where "insert_subscriber (ps_state p) (next_subscriber_id p) c socket = Some d"
    "pubsub_ok (Suc n) (p\<lparr>next_subscriber_id := next_subscriber_id p + 1, ps_state := d\<rparr>)"
    "registry_of (p\<lparr>next_subscriber_id := next_subscriber_id p + 1, ps_state := d\<rparr>) = reg_add (registry_of p) c socket"
proof -
  have ok: "data_ok (ps_state p)" "next_subscriber_id p = of_nat (Suc n)"
    "\<And>i. who (ps_state p) i \<noteq> None \<Longrightarrow> \<exists>j\<le>n. i = of_nat j" using assms(1) unfolding pubsub_ok_def by blast+
  from insert_subscriber_ok [OF ok(1) pubsub_ok_fresh [OF assms(1,2)] assms(3)] obtain d where
    d: "insert_subscriber (ps_state p) (next_subscriber_id p) c socket = Some d" "data_ok d"
    "who d = (who (ps_state p))(next_subscriber_id p \<mapsto> (c, socket))" "has_topic d = has_topic (ps_state p)" by metis
  have "pubsub_ok (Suc n) (p\<lparr>next_subscriber_id := next_subscriber_id p + 1, ps_state := d\<rparr>)"
  proof (rule pubsub_okI)
    fix i
    assume "who (ps_state (p\<lparr>next_subscriber_id := next_subscriber_id p + 1, ps_state := d\<rparr>)) i \<noteq> None"
    then show "\<exists>j\<le>Suc n. i = of_nat j" using d(3) ok(2,3) by (cases "i = next_subscriber_id p") (auto intro: le_SucI)
  qed (use d(2) ok(2) in simp_all)
  moreover have "registry_of (p\<lparr>next_subscriber_id := next_subscriber_id p + 1, ps_state := d\<rparr>) = reg_add (registry_of p) c socket"
    by (rule registry_eqI) (simp_all add: d(3,4) reg_add_def)
  ultimately show ?thesis using that d(1) by blast
qed

lemma keep_ok:
  assumes "pubsub_ok n p" "data_ok d" "\<And>i. who d i \<noteq> None \<Longrightarrow> who (ps_state p) i \<noteq> None"
  shows "pubsub_ok n (p\<lparr>ps_state := d\<rparr>)"
proof (rule pubsub_okI)
  fix i
  assume "who (ps_state (p\<lparr>ps_state := d\<rparr>)) i \<noteq> None"
  then show "\<exists>j\<le>n. i = of_nat j" using assms(1) assms(3) [of i] unfolding pubsub_ok_def by simp
qed (use assms(1,2) in \<open>simp_all add: pubsub_ok_def\<close>)


lemma subscribe_ok:
  assumes "pubsub_ok n p" "subscribe_in (ps_state p) i t = (r, d)"
  shows "pubsub_ok n (p\<lparr>ps_state := d\<rparr>) \<and> reg_subscribe (registry_of p) i t (Flag r) (registry_of (p\<lparr>ps_state := d\<rparr>))"
proof -
  have "data_ok (ps_state p)" using assms(1) by (simp add: pubsub_ok_def)
  note s = subscribe_in_ok [OF this assms(2)]
  have "registry_of (p\<lparr>ps_state := d\<rparr>) =
      (if who (ps_state p) i \<noteq> None then registry_of p\<lparr>reg_subs := insert (i, t) (reg_subs (registry_of p))\<rparr> else registry_of p)"
    by (rule registry_eqI) (use s in auto)
  then show ?thesis using s keep_ok [OF assms(1), of d] by (simp add: reg_subscribe_def)
qed

lemma unsubscribe_ok:
  assumes "pubsub_ok n p"
  shows "\<exists>r d. unsubscribe_in (ps_state p) i t = Some (r, d) \<and> pubsub_ok n (p\<lparr>ps_state := d\<rparr>)
    \<and> reg_unsubscribe (registry_of p) i t (Flag r) (registry_of (p\<lparr>ps_state := d\<rparr>))"
proof -
  have "data_ok (ps_state p)" using assms(1) by (simp add: pubsub_ok_def)
  then obtain r d where s: "unsubscribe_in (ps_state p) i t = Some (r, d)" "data_ok d" "who d = who (ps_state p)"
    "r \<longleftrightarrow> has_topic (ps_state p) i t" "\<And>j t'. has_topic d j t' \<longleftrightarrow> has_topic (ps_state p) j t' \<and> \<not> (j = i \<and> t' = t)"
    by (rule unsubscribe_in_ok [of _ i t]) blast
  have "registry_of (p\<lparr>ps_state := d\<rparr>) = registry_of p\<lparr>reg_subs := reg_subs (registry_of p) - {(i, t)}\<rparr>"
    by (rule registry_eqI) (auto simp: s(3,5))
  then have "reg_unsubscribe (registry_of p) i t (Flag r) (registry_of (p\<lparr>ps_state := d\<rparr>))" using s(4) by (simp add: reg_unsubscribe_def)
  moreover have "pubsub_ok n (p\<lparr>ps_state := d\<rparr>)" using keep_ok [OF assms s(2)] s(3) by simp
  ultimately show ?thesis using s(1) by blast
qed

lemma remove_ok:
  assumes "pubsub_ok n p" "\<And>xs. mset (order xs) = mset xs"
  shows "\<exists>c d. remove_subscriber_from order (ps_state p) i = Some (c, d) \<and> pubsub_ok n (p\<lparr>ps_state := d\<rparr>)
    \<and> registry_of (p\<lparr>ps_state := d\<rparr>) = reg_remove (registry_of p) i \<and> (c \<noteq> None \<longleftrightarrow> who (ps_state p) i \<noteq> None)"
proof -
  have "data_ok (ps_state p)" using assms(1) by (simp add: pubsub_ok_def)
  then obtain c d where s: "remove_subscriber_from order (ps_state p) i = Some (c, d)" "data_ok d"
    "c \<noteq> None \<longleftrightarrow> who (ps_state p) i \<noteq> None" "who d = (who (ps_state p))(i := None)"
    "\<And>j t. has_topic d j t \<longleftrightarrow> j \<noteq> i \<and> has_topic (ps_state p) j t"
    by (rule remove_subscriber_from_ok [of _ order i, OF _ assms(2)]) blast
  have "registry_of (p\<lparr>ps_state := d\<rparr>) = reg_remove (registry_of p) i"
    by (rule registry_eqI) (auto simp: s(4,5) reg_remove_def)
  moreover have "pubsub_ok n (p\<lparr>ps_state := d\<rparr>)" by (rule keep_ok [OF assms(1) s(2)]) (simp add: s(4) split: if_splits)
  ultimately show ?thesis using s(1,3) by blast
qed

lemma topic_present:
  assumes "data_ok d"
  shows "(\<exists>i. has_topic d i t) \<longleftrightarrow> map_of (ps_topics d) t \<noteq> None"
proof -
  have "map_of (ps_topics d) t \<noteq> Some []" using assms indexed_nonempty by (auto simp: data_ok_def)
  then have "hd ms \<in> set ms" if "map_of (ps_topics d) t = Some ms" for ms using that by (cases ms) auto
  then show ?thesis using topic_members [OF assms, of t] by (cases "map_of (ps_topics d) t") auto
qed

lemma publish_ok:
  assumes "pubsub_ok n p"
  shows "\<exists>rs r p' w'. recipient_snapshot (ps_state p) t x = Some rs \<and> send_to_recipients send p rs m w = (r, p', w')
    \<and> pubsub_ok n p' \<and> reg_publish send (registry_of p) w t x m (Sent r) (registry_of p') w'"
proof -
  let ?d = "ps_state p"
  have ok: "data_ok ?d" using assms(1) by (simp add: pubsub_ok_def)
  obtain rs where rs: "recipient_snapshot ?d t x = Some rs" "send_to_recipients send p rs m w =
      (if map_of (ps_topics ?d) t = None then (NoSubscribers, p, w) else send_to_recipients send p (Some (Many (recipients ?d t x))) m w)"
    using recipient_snapshot_ok [OF ok, of t x send p] by metis
  obtain n' w' where s: "send_many send (recipients ?d t x) m w = (n', w')" by force
  note mem = topic_present [OF ok, of t]
  let ?p = "if map_of (ps_topics ?d) t = None then p else p\<lparr>messages_published := messages_published p + 1\<rparr>"
  let ?r = "if n' > 0 then Published n' else NoSubscribers"
  have "send_to_recipients send p rs m w = (?r, ?p, w')"
  proof (cases "map_of (ps_topics ?d) t = None")
    case True
    then have "n' = 0" "w' = w" using s by (simp_all add: recipients_def)
    then show ?thesis using rs(2) True by simp
  next
    case False
    then have "send_to_recipients send p rs m w = send_to_recipients send p (Some (Many (recipients ?d t x))) m w"
      unfolding rs(2) by (rule if_not_P)
    then show ?thesis using False s by (simp add: send_to_recipients_def)
  qed
  moreover have "pubsub_ok n ?p" using assms by (simp add: pubsub_ok_def)
  moreover have "registry_of ?p = (if \<exists>i. (i, t) \<in> reg_subs (registry_of p)
      then registry_of p\<lparr>reg_published := reg_published (registry_of p) + 1\<rparr> else registry_of p)"
    by (rule registry_eqI) (simp_all add: mem)
  ultimately show ?thesis using rs(1) s recipients_mset [OF ok, of t x] unfolding reg_publish_def
    by (intro exI [of _ rs] exI [of _ ?r] exI [of _ ?p] exI [of _ w'] conjI exI [of _ "recipients ?d t x"] exI [of _ n']) simp_all
qed


text \<open>One lemma for each way of finding the subscriber of a socket identifier.\<close>

lemma socket_cases:
  assumes "pubsub_ok n p"
  obtains (none) "map_of (socket_id_map (ps_state p)) k = None" "\<not> (\<exists>i. holds (registry_of p) k i)"
    | (some) i where "map_of (socket_id_map (ps_state p)) k = Some i" "holds (registry_of p) k i" "who (ps_state p) i \<noteq> None"
proof (cases "map_of (socket_id_map (ps_state p)) k")
  case None
  then show ?thesis using none holds_socket [of p k] assms by (simp add: pubsub_ok_def)
next
  case (Some i)
  moreover have "holds (registry_of p) k i" using Some holds_socket [of p k i] assms by (simp add: pubsub_ok_def)
  ultimately show ?thesis using some by (auto simp: holds_def)
qed

definition step_refines ::
  "nat \<Rightarrow> (string list \<Rightarrow> string list) \<Rightarrow> ('c \<Rightarrow> message \<Rightarrow> 'w \<Rightarrow> bool \<times> 'w) \<Rightarrow> 'c pubsub \<Rightarrow> 'w \<Rightarrow> 'c ps_op \<Rightarrow> bool" where
  "step_refines n order send p w op \<longleftrightarrow>
     (\<exists>a p' w'. ps_step order send p w op = Some (a, p', w') \<and> reg_step send (registry_of p) w op a (registry_of p') w'
        \<and> (pubsub_ok n p' \<or> pubsub_ok (Suc n) p'))"

lemma step_refinesI:
  "ps_step order send p w op = Some (a, p', w') \<Longrightarrow> reg_step send (registry_of p) w op a (registry_of p') w' \<Longrightarrow>
   pubsub_ok n p' \<or> pubsub_ok (Suc n) p' \<Longrightarrow> step_refines n order send p w op"
  unfolding step_refines_def by blast

lemma create_refines:
  assumes "pubsub_ok n p" "Suc n < 2 ^ 64" "op = Create c \<and> socket = None \<or>
    (op = CreateWithId k c \<or> op = CreateOrGet k c) \<and> socket = Some k \<and> map_of (socket_id_map (ps_state p)) k = None
      \<and> \<not> (\<exists>i. holds (registry_of p) k i)"
  shows "step_refines n order send p w op"
proof -
  have "map_of (socket_id_map (ps_state p)) k' = None" if "socket = Some k'" for k' using assms(3) that by auto
  then obtain d where d: "insert_subscriber (ps_state p) (next_subscriber_id p) c socket = Some d"
    "pubsub_ok (Suc n) (p\<lparr>next_subscriber_id := next_subscriber_id p + 1, ps_state := d\<rparr>)"
    "registry_of (p\<lparr>next_subscriber_id := next_subscriber_id p + 1, ps_state := d\<rparr>) = reg_add (registry_of p) c socket"
    by (rule create_ok [OF assms(1,2), of socket c]) auto
  let ?p = "p\<lparr>next_subscriber_id := next_subscriber_id p + 1, ps_state := d\<rparr>"
  from assms(3) have "ps_step order send p w op = Some (Created (next_subscriber_id p), ?p, w)"
    using d(1) by (auto simp: create_subscriber_def create_subscriber_with_id_def create_subscriber_with_id_or_get_def Let_def)
  moreover have "reg_step send (registry_of p) w op (Created (next_subscriber_id p)) (registry_of ?p) w"
    using assms(3) d(3) pubsub_ok_fresh [OF assms(1,2)] by auto
  ultimately show ?thesis using d(2) by (blast intro: step_refinesI)
qed

lemma socket_refines:
  assumes ok: "pubsub_ok n p" and n: "Suc n < 2 ^ 64" and op: "op = CreateWithId k c \<or> op = CreateOrGet k c"
  shows "step_refines n order send p w op"
proof (rule socket_cases [OF ok, of k])
  assume "map_of (socket_id_map (ps_state p)) k = None" "\<not> (\<exists>i. holds (registry_of p) k i)"
  then show ?thesis using op by (intro create_refines [OF ok n, of _ c "Some k" k]) blast
next
  fix i
  assume i: "map_of (socket_id_map (ps_state p)) k = Some i" "holds (registry_of p) k i"
  from op show ?thesis
  proof
    assume "op = CreateWithId k c"
    then show ?thesis using i ok
      by (intro step_refinesI [of _ _ _ _ _ InUse p w]) (auto simp: create_subscriber_with_id_def)
  next
    assume "op = CreateOrGet k c"
    then show ?thesis using i ok
      by (intro step_refinesI [of _ _ _ _ _ "Existing i" p w]) (auto simp: create_subscriber_with_id_or_get_def)
  qed
qed

lemma removal_refines:
  assumes ok: "pubsub_ok n p" and perm: "\<And>xs. mset (order xs) = mset xs"
  shows "step_refines n order send p w (Remove i)" "step_refines n order send p w (RemoveSocket k)"
proof -
  obtain c d where "remove_subscriber_from order (ps_state p) i = Some (c, d)" "pubsub_ok n (p\<lparr>ps_state := d\<rparr>)"
    "registry_of (p\<lparr>ps_state := d\<rparr>) = reg_remove (registry_of p) i" using remove_ok [OF ok perm, of i] by blast
  then show "step_refines n order send p w (Remove i)"
    by (intro step_refinesI [of _ _ _ _ _ Done "p\<lparr>ps_state := d\<rparr>" w]) (simp_all add: remove_subscriber_def)
  show "step_refines n order send p w (RemoveSocket k)"
  proof (rule socket_cases [OF ok, of k])
    fix i
    assume i: "map_of (socket_id_map (ps_state p)) k = Some i" "holds (registry_of p) k i" "who (ps_state p) i \<noteq> None"
    obtain c d where "remove_subscriber_from order (ps_state p) i = Some (c, d)" "pubsub_ok n (p\<lparr>ps_state := d\<rparr>)"
      "registry_of (p\<lparr>ps_state := d\<rparr>) = reg_remove (registry_of p) i" "c \<noteq> None" using remove_ok [OF ok perm, of i] i(3) by blast
    then show ?thesis using i
      by (intro step_refinesI [of _ _ _ _ _ "Flag True" "p\<lparr>ps_state := d\<rparr>" w]) (auto simp: remove_subscriber_by_socket_id_def)
  next
    assume "map_of (socket_id_map (ps_state p)) k = None" "\<not> (\<exists>i. holds (registry_of p) k i)"
    then show ?thesis using ok
      by (intro step_refinesI [of _ _ _ _ _ "Flag False" p w]) (auto simp: remove_subscriber_by_socket_id_def)
  qed
qed

lemma subscription_refines:
  assumes ok: "pubsub_ok n p"
  shows "step_refines n order send p w (Subscribe i t)" "step_refines n order send p w (SubscribeSocket k t)"
proof -
  have sub: "\<exists>r d. subscribe_in (ps_state p) i t = (r, d) \<and> pubsub_ok n (p\<lparr>ps_state := d\<rparr>)
      \<and> reg_subscribe (registry_of p) i t (Flag r) (registry_of (p\<lparr>ps_state := d\<rparr>))" for i
    using subscribe_ok [OF ok] by (cases "subscribe_in (ps_state p) i t") blast
  obtain r d where "subscribe_in (ps_state p) i t = (r, d)" "pubsub_ok n (p\<lparr>ps_state := d\<rparr>)"
    "reg_subscribe (registry_of p) i t (Flag r) (registry_of (p\<lparr>ps_state := d\<rparr>))" using sub by blast
  then show "step_refines n order send p w (Subscribe i t)"
    by (intro step_refinesI [of _ _ _ _ _ "Flag r" "p\<lparr>ps_state := d\<rparr>" w]) (simp_all add: subscribe_def)
  show "step_refines n order send p w (SubscribeSocket k t)"
  proof (rule socket_cases [OF ok, of k])
    fix i
    assume i: "map_of (socket_id_map (ps_state p)) k = Some i" "holds (registry_of p) k i"
    obtain r d where "subscribe_in (ps_state p) i t = (r, d)" "pubsub_ok n (p\<lparr>ps_state := d\<rparr>)"
      "reg_subscribe (registry_of p) i t (Flag r) (registry_of (p\<lparr>ps_state := d\<rparr>))" using sub by blast
    then show ?thesis using i
      by (intro step_refinesI [of _ _ _ _ _ "Flag r" "p\<lparr>ps_state := d\<rparr>" w]) (auto simp: subscribe_by_socket_id_def)
  next
    assume "map_of (socket_id_map (ps_state p)) k = None" "\<not> (\<exists>i. holds (registry_of p) k i)"
    then show ?thesis using ok
      by (intro step_refinesI [of _ _ _ _ _ "Flag False" p w]) (auto simp: subscribe_by_socket_id_def)
  qed
qed

lemma unsubscription_refines:
  assumes ok: "pubsub_ok n p"
  shows "step_refines n order send p w (Unsubscribe i t)" "step_refines n order send p w (UnsubscribeSocket k t)"
proof -
  obtain r d where "unsubscribe_in (ps_state p) i t = Some (r, d)" "pubsub_ok n (p\<lparr>ps_state := d\<rparr>)"
    "reg_unsubscribe (registry_of p) i t (Flag r) (registry_of (p\<lparr>ps_state := d\<rparr>))" using unsubscribe_ok [OF ok] by blast
  then show "step_refines n order send p w (Unsubscribe i t)"
    by (intro step_refinesI [of _ _ _ _ _ "Flag r" "p\<lparr>ps_state := d\<rparr>" w]) (simp_all add: unsubscribe_def)
  show "step_refines n order send p w (UnsubscribeSocket k t)"
  proof (rule socket_cases [OF ok, of k])
    fix i
    assume i: "map_of (socket_id_map (ps_state p)) k = Some i" "holds (registry_of p) k i"
    obtain r d where "unsubscribe_in (ps_state p) i t = Some (r, d)" "pubsub_ok n (p\<lparr>ps_state := d\<rparr>)"
      "reg_unsubscribe (registry_of p) i t (Flag r) (registry_of (p\<lparr>ps_state := d\<rparr>))" using unsubscribe_ok [OF ok] by blast
    then show ?thesis using i
      by (intro step_refinesI [of _ _ _ _ _ "Flag r" "p\<lparr>ps_state := d\<rparr>" w]) (auto simp: unsubscribe_by_socket_id_def)
  next
    assume "map_of (socket_id_map (ps_state p)) k = None" "\<not> (\<exists>i. holds (registry_of p) k i)"
    then show ?thesis using ok
      by (intro step_refinesI [of _ _ _ _ _ "Flag False" p w]) (auto simp: unsubscribe_by_socket_id_def)
  qed
qed

lemma publication_refines:
  assumes ok: "pubsub_ok n p"
    and op: "op = Publish t m \<and> x = None \<or> op = PublishExcluding i t m \<and> x = Some i
      \<or> op = PublishExcludingSocket k t m \<and> x = map_of (socket_id_map (ps_state p)) k"
  shows "step_refines n order send p w op"
proof -
  obtain rs r p' w' where s: "recipient_snapshot (ps_state p) t x = Some rs" "send_to_recipients send p rs m w = (r, p', w')"
    "pubsub_ok n p'" "reg_publish send (registry_of p) w t x m (Sent r) (registry_of p') w'"
    using publish_ok [OF ok, of t x send m w] by blast
  have "ps_step order send p w op = Some (Sent r, p', w')"
    using op s(1,2) by (auto simp: publish_def publish_excluding_def publish_excluding_socket_id_def)
  moreover have "reg_step send (registry_of p) w op (Sent r) (registry_of p') w'"
    by (rule socket_cases [OF ok, of k]) (use op s(4) in auto)
  ultimately show ?thesis using s(3) by (blast intro: step_refinesI)
qed

lemma pubsub_step_refines:
  assumes "pubsub_ok n p" "Suc n < 2 ^ 64" "\<And>xs. mset (order xs) = mset xs"
  shows "step_refines n order send p w op"
proof (cases op)
  case (Create c)
  then show ?thesis by (intro create_refines [OF assms(1,2), of _ c None]) simp
next
  case (CreateWithId k c)
  then show ?thesis by (intro socket_refines [OF assms(1,2)]) simp
next
  case (CreateOrGet k c)
  then show ?thesis by (intro socket_refines [OF assms(1,2)]) simp
next
  case (Publish t m)
  then show ?thesis by (intro publication_refines [OF assms(1), of _ t m None]) simp
next
  case (PublishExcluding i t m)
  then show ?thesis by (intro publication_refines [OF assms(1), of _ t m "Some i" i]) simp
next
  case (PublishExcludingSocket k t m)
  then show ?thesis by (intro publication_refines [OF assms(1), of _ t m _ _ k]) simp
qed (simp_all add: removal_refines [OF assms(1,3)] subscription_refines [OF assms(1)] unsubscription_refines [OF assms(1)])

lemma pubsub_run_refines:
  assumes "pubsub_ok n p" "n + length ops < 2 ^ 64" "\<And>xs. mset (order xs) = mset xs"
  shows "\<exists>as p' w' n'. ps_run order send p w ops = Some (as, p', w') \<and> reg_run send (registry_of p) w ops as (registry_of p') w'
    \<and> pubsub_ok n' p'"
  using assms(1,2)
proof (induction ops arbitrary: n p w)
  case (Cons op ops)
  have "Suc n < 2 ^ 64" using Cons.prems(2) by simp
  from pubsub_step_refines [OF Cons.prems(1) this assms(3), of send w op] obtain a p1 w1 n1 where
    1: "ps_step order send p w op = Some (a, p1, w1)" "reg_step send (registry_of p) w op a (registry_of p1) w1"
    "pubsub_ok n1 p1" "n1 \<le> Suc n" unfolding step_refines_def by (meson le_SucI order_refl)
  have "n1 + length ops < 2 ^ 64" using 1(4) Cons.prems(2) by simp
  from Cons.IH [OF 1(3) this, of w1] obtain as p' w' n' where
    "ps_run order send p1 w1 ops = Some (as, p', w')" "reg_run send (registry_of p1) w1 ops as (registry_of p') w'" "pubsub_ok n' p'" by blast
  then show ?case using 1(1,2) by auto
qed auto


section \<open>Queries\<close>

lemma is_subscribed_topic: "is_subscribed p i t \<longleftrightarrow> has_topic (ps_state p) i t"
  by (auto simp: is_subscribed_def has_topic_def reverse_of_def split: option.splits)

lemma topic_listed:
  assumes "data_ok d"
  shows "t \<in> fst ` set (ps_topics d) \<longleftrightarrow> (\<exists>i. has_topic d i t)"
  using topic_present [OF assms, of t] unfolding map_of_eq_None_iff by blast

lemma topic_count_members:
  assumes "data_ok (ps_state p)"
  shows "topic_subscriber_count p t = card {i. has_topic (ps_state p) i t}"
proof (cases "map_of (ps_topics (ps_state p)) t")
  case None
  then show ?thesis using topic_members [OF assms, of t] by (simp add: topic_subscriber_count_def)
next
  case (Some ms)
  then have "distinct (map fst ms)" using assms members_distinct [where T = "map_of (ps_topics (ps_state p))", OF _ Some] by (auto simp: data_ok_def)
  then have "card (fst ` set ms) = length ms" using distinct_card [of "map fst ms"] by simp
  then show ?thesis using Some topic_members [OF assms, of t] by (simp add: topic_subscriber_count_def)
qed

lemma pubsub_new_ok: "pubsub_ok 0 pubsub_new"
  by (rule pubsub_okI) (auto simp: pubsub_new_def data_ok_def keys_ok_def indexed_def reverse_of_def who_def)

lemma registry_new: "registry_of pubsub_new = \<lparr>reg_who = Map.empty, reg_subs = {}, reg_next = 1, reg_published = 0\<rparr>"
  by (rule registry_eqI) (auto simp: pubsub_new_def who_def has_topic_def reverse_of_def fun_eq_iff)

section \<open>Properties\<close>

text \<open>
  C31. Publish and subscribe keeps its promise: over every sequence of calls from the empty state, fewer
  than \<open>2^64\<close> of them, no index is out of step (no call panics but the documented one for a socket
  identifier in use), and answers, memberships and deliveries are those of a registry without indexes: in
  particular a publication sends the message to every current subscriber of the topic but the
  excluded one, once, and to nobody else, in whatever order the hash maps are walked.
\<close>

theorem pubsub_refines:
  assumes "\<And>xs. mset (order xs) = mset xs" "length ops < 2 ^ 64"
  shows "\<exists>as p w'. ps_run order send pubsub_new w ops = Some (as, p, w')
    \<and> reg_run send \<lparr>reg_who = Map.empty, reg_subs = {}, reg_next = 1, reg_published = 0\<rparr> w ops as (registry_of p) w'"
proof -
  have "0 + length ops < 2 ^ 64" using assms(2) by simp
  from pubsub_run_refines [OF pubsub_new_ok this assms(1), of send w] show ?thesis unfolding registry_new by blast
qed

theorem pubsub_refines_witness:
  "\<exists>as p w'. ps_run rev (\<lambda>c m w. (True, w @ [(c, m)])) pubsub_new [] [Create (7 :: nat), Subscribe 1 ''a'', Publish ''a'' (Text [])] = Some (as, p, w')
    \<and> reg_run (\<lambda>c m w. (True, w @ [(c, m)])) \<lparr>reg_who = Map.empty, reg_subs = {}, reg_next = 1, reg_published = 0\<rparr> []
        [Create (7 :: nat), Subscribe 1 ''a'', Publish ''a'' (Text [])] as (registry_of p) w'"
  by (rule pubsub_refines) simp_all

text \<open>
  C32. The queries agree with each other after every sequence of calls: the count of a topic is the number of its
  subscribers, the topics listed are those with a subscriber, each once, a subscriber's topics are those it is
  subscribed to, and socket identifiers and subscribers are found from each other.
\<close>

theorem pubsub_queries:
  assumes "\<And>xs. mset (order xs) = mset xs" "length ops < 2 ^ 64" "ps_run order send pubsub_new w ops = Some (as, p, w')"
  shows "topic_subscriber_count p t = card {i. is_subscribed p i t}
    \<and> set (all_topics order p) = {t. \<exists>i. is_subscribed p i t} \<and> distinct (all_topics order p) \<and> topic_count p = length (all_topics order p)
    \<and> set (subscriber_topics order p i) = {t. is_subscribed p i t}
    \<and> (get_subscriber_by_socket_id p k = Some i \<longleftrightarrow> get_socket_id p i = Some k)
    \<and> (has_socket_id p k \<longleftrightarrow> k \<in> set (all_socket_ids order p))"
proof -
  have ok: "data_ok (ps_state p)"
  proof -
    have "0 + length ops < 2 ^ 64" using assms(2) by simp
    from pubsub_run_refines [OF pubsub_new_ok this assms(1), of send w] assms(3) show ?thesis by (auto simp: pubsub_ok_def)
  qed
  have perm: "set (order xs) = set xs" "length (order xs) = length xs" for xs
    using assms(1) mset_eq_setD mset_eq_length by blast+
  have "distinct (map fst (ps_topics (ps_state p)))" using ok by (simp add: data_ok_def keys_ok_def)
  then have "distinct (all_topics order p)" using assms(1) mset_eq_imp_distinct_iff by (auto simp: all_topics_def)
  moreover have "set (all_topics order p) = {t. \<exists>i. is_subscribed p i t}"
    using topic_listed [OF ok] by (auto simp: all_topics_def perm is_subscribed_topic simp del: set_map simp add: set_map)
  moreover have "set (subscriber_topics order p i) = {t. is_subscribed p i t}"
  proof (cases "map_of (ps_subscribers (ps_state p)) i")
    case (Some s)
    then show ?thesis by (simp add: subscriber_topics_def perm is_subscribed_def map_of_eq_None_iff)
  qed (simp add: subscriber_topics_def is_subscribed_def)
  moreover have "get_subscriber_by_socket_id p k = Some i \<longleftrightarrow> get_socket_id p i = Some k"
    using data_ok_socket [OF ok, of k i] by (auto simp: get_subscriber_by_socket_id_def get_socket_id_def who_def bind_eq_Some_conv)
  moreover have "has_socket_id p k \<longleftrightarrow> k \<in> set (all_socket_ids order p)"
    by (simp add: has_socket_id_def all_socket_ids_def perm map_of_eq_None_iff)
  ultimately show ?thesis
    using topic_count_members [OF ok, of t] by (simp add: is_subscribed_topic topic_count_def all_topics_def perm)
qed

theorem pubsub_queries_witness:
  "\<exists>as p w'. ps_run rev (\<lambda>c m w. (True, w @ [(c, m)])) pubsub_new [] [Create (7 :: nat), Subscribe 1 ''a''] = Some (as, p, w')
    \<and> topic_subscriber_count p ''a'' = card {i. is_subscribed p i ''a''}"
proof -
  let ?send = "\<lambda>c m w. (True, w @ [(c, m)])" and ?ops = "[Create (7 :: nat), Subscribe 1 ''a'']"
  have n: "0 + length ?ops < 2 ^ 64" and r: "mset (rev xs) = mset xs" for xs :: "string list" by simp_all
  obtain as p w' where run: "ps_run rev ?send pubsub_new [] ?ops = Some (as, p, w')"
    using pubsub_run_refines [OF pubsub_new_ok n r, of ?send "[]"] by blast
  then show ?thesis using pubsub_queries [OF r _ run] by auto
qed


end
