(* ===== verification/Spec2Isabelle.thy ===== *)
theory Spec2Isabelle
  imports WS_Error WS_Mask WS_Utf8 WS_Codec WS_Messaging WS_Cork WS_Heartbeat WS_Queue WS_PubSub_Refine
begin

text \<open>
  Verification of sockudo-ws, a WebSocket library in Rust. All file names are below \<^verbatim>\<open>src/src\<close>.

  \<^bold>\<open>The program.\<close> Bytes from a transport go through the frame parser (\<^verbatim>\<open>frame.rs\<close>), which unmasks them
  with the kernels of \<^verbatim>\<open>simd.rs\<close>, into a protocol (\<^verbatim>\<open>protocol.rs\<close>), which puts fragments together, checks
  text with \<^verbatim>\<open>utf8.rs\<close>, runs the closing handshake and gives messages; messages go out through the
  encoders of \<^verbatim>\<open>protocol.rs\<close> and \<^verbatim>\<open>frame.rs\<close> into a cork buffer (\<^verbatim>\<open>cork.rs\<close>) that the transport empties in
  vectored writes. \<^verbatim>\<open>heartbeat.rs\<close> keeps the deadlines of a connection, \<^verbatim>\<open>queue.rs\<close> has two lock-free queues,
  \<^verbatim>\<open>lib.rs\<close> the configuration and \<^verbatim>\<open>error.rs\<close> the errors that all of them return.

  \<^bold>\<open>Theories.\<close>
  \<^item> \<open>WS_Prelude\<close>: machine types, the outcome \<open>Ok | Err | Panic\<close> of a call, endian conversions, chunks of slices.
  \<^item> \<open>WS_Error\<close>: \<^verbatim>\<open>error.rs\<close>. \<open>WS_Config\<close>: the constants and the configuration of \<^verbatim>\<open>lib.rs\<close>, the configuration types of
    \<^verbatim>\<open>deflate.rs\<close>, with window sizes as an instance of \<^verbatim>\<open>linorder\<close>.
  \<^item> \<open>WS_Mask\<close>: every masking kernel of \<^verbatim>\<open>simd.rs\<close> and the copying kernels of \<^verbatim>\<open>frame.rs\<close>. Locale \<open>mask_kernel\<close>: what a
    kernel promises, with the lemmas on masking twice and masking in pieces.
  \<^item> \<open>WS_Utf8\<close>: \<^verbatim>\<open>utf8.rs\<close>. Locale \<open>utf8_validator\<close>: a whole-string validator, here the crate \<^verbatim>\<open>simdutf8\<close>, which is a
    parameter of the model.
  \<^item> \<open>WS_Frame\<close>, \<open>WS_Parser\<close>: \<^verbatim>\<open>frame.rs\<close>, one definition for each waiting state of the parser and each fast path.
    \<open>WS_Parser_Refine\<close>: a reference parser with no state (\<open>frame_spec\<close>) and the relation of the two.
  \<^item> \<open>WS_Incremental\<close>: locales \<open>scanner\<close> and \<open>incremental_decoder\<close>, decoders that are fed in pieces. \<open>WS_Codec\<close> interprets
    them on the parser and puts encoder and parser together.
  \<^item> \<open>WS_Protocol\<close>: \<^verbatim>\<open>Protocol\<close> of \<^verbatim>\<open>protocol.rs\<close>, one definition for each handler. \<open>WS_Receive\<close>: locale \<open>frame_receiver\<close>, a reader that
    drains a decoder into a handler. \<open>WS_Protocol_Refine\<close> and \<open>WS_Messaging\<close> interpret it on the typed and on the raw reader
    and follow a connection from its start, with the peer that sends.
  \<^item> \<open>WS_Cork\<close>: \<^verbatim>\<open>cork.rs\<close>. Locale \<open>byte_queue\<close>: what a flush loop relies on.
  \<^item> \<open>WS_Heartbeat\<close>: \<^verbatim>\<open>heartbeat.rs\<close>, with the reachable states \<open>hb_reach\<close> of a connection.
  \<^item> \<open>WS_Ring\<close>, \<open>WS_Queue\<close>: \<^verbatim>\<open>queue.rs\<close>, as functions and as interleavings of memory accesses. Locale \<open>bounded_fifo\<close>: what both
    queues promise to callers that do not overlap.

  \<^bold>\<open>Correspondence.\<close> A struct is a record and an enum a datatype, with the names of the source as far as they are
  free; a method is a function of the state that returns its result and the new state. An early return, an error and
  a panic are values. Buffers are byte lists. A loop is a function with its termination proof, or, where it can run
  forever, a partial function into \<^typ>\<open>'a option\<close> of which it is proved that it returns (\<open>readers_return\<close>,
  \<open>mpmc_alone_fifo\<close>); no fuel is used. Counters that wrap around keep their width.

  \<^bold>\<open>Parameters.\<close> \<open>platform\<close> has the target (which kernel is compiled in), the address of a slice (which decides where vector
  code starts) and \<^verbatim>\<open>simdutf8\<close>; \<open>platform_ok\<close> says that the target is not one of those of the finding on \<^verbatim>\<open>simd.rs\<close> and that the
  crate decides UTF-8 validity. \<open>std_platform\<close> is an instance. Masking keys and nonces are arguments.

  \<^bold>\<open>What the properties show.\<close>
  \<^item> Receiving: the parser and both readers return from every state without a panic; what they give depends on the bytes
    received and not on how the transport cut them, fast paths included; accepted frames are canonical and within limits;
    a failed parser stays failed; every delivered message is within its limits, text is valid UTF-8, close codes are valid.
  \<^item> Sending: encoders write exactly the region they reserve, and the peer gets back the messages sent, in order.
  \<^item> The closing handshake ends on both sides. Incremental UTF-8 validation decides as validation of the whole text.
    Every masking kernel computes the reference, in one piece or in many.
  \<^item> The cork buffer loses, doubles and moves no byte, and flushing ends. The heartbeat keeps at most one Ping
    outstanding, its deadlines are timely and cannot be put off by a silent peer, and only the right Pong counts.
  \<^item> The queues are first-in first-out and their slots are held by one thread at a time, under every interleaving.

  \<^bold>\<open>Not modelled.\<close> The asynchronous transports and everything that is mainly polling, I/O, sockets or TLS: \<^verbatim>\<open>stream/\<close>,
  \<^verbatim>\<open>compio.rs\<close>, \<^verbatim>\<open>client.rs\<close>, \<^verbatim>\<open>server.rs\<close>, \<^verbatim>\<open>axum_integration.rs\<close>, \<^verbatim>\<open>http2/\<close>, \<^verbatim>\<open>http3/\<close>, \<^verbatim>\<open>io_uring/\<close>, \<^verbatim>\<open>transport.rs\<close>, \<^verbatim>\<open>multiplex.rs\<close>; random keys
  (\<^verbatim>\<open>mask.rs\<close>); \<^verbatim>\<open>compression.rs\<close>; tests and benchmarks. Memory orderings weaker than interleaving, capacities of buffers and the
  sharing of allocations are not represented.
\<close>

end
